(* ===== verification/Prelude.thy ===== *)
theory Prelude
  imports Main "HOL-Library.Word" "HOL-Library.Product_Lexorder" "HOL-Library.Signed_Division"
begin

section \<open>Shared vocabulary of the development\<close>

text \<open>
  What every component uses: bytes, the results of fallible code, the algorithms of the C++
  standard library that the sources call (\<open>std::search\<close>, \<open>std::find\<close>, \<open>memchr\<close>,
  \<open>std::copy\<close> into a vector, \<open>vector::resize\<close>), the fixed-width byte encodings behind
  \<open>memcpy\<close> of an integer, and the truncating division of C.

  The sources are compiled with assertions on (no build file defines \<open>NDEBUG\<close>), so an
  \<open>assert\<close> that fails ends the program: it is the value \<open>Inl (AssertionFailed ...)\<close>,
  and every operation that contains an assertion returns an \<open>'a res\<close>.
\<close>

named_theorems buffer_simps \<open>equations that read an operation of the buffer\<close>
named_theorems state_simps \<open>equations that read an operation of a state record\<close>
named_theorems wf_intros \<open>preservation of a well-formedness invariant\<close>

subsection \<open>Bytes and results\<close>

type_synonym byte = char

datatype error = AssertionFailed string | UndefinedBehaviour string | BadAlloc

type_synonym 'a res = "error + 'a"

definition ensure :: "bool \<Rightarrow> string \<Rightarrow> 'a res \<Rightarrow> 'a res" where
  "ensure b msg k = (if b then k else Inl (AssertionFailed msg))"

definition rbind :: "'a res \<Rightarrow> ('a \<Rightarrow> 'b res) \<Rightarrow> 'b res" where
  "rbind r k = (case r of Inl e \<Rightarrow> Inl e | Inr x \<Rightarrow> k x)"

lemma ensure_True [simp]: "ensure True msg k = k"
  by (simp add: ensure_def)

lemma ensure_eq_Inr [simp]: "ensure b msg k = Inr y \<longleftrightarrow> b \<and> k = Inr y"
  by (simp add: ensure_def)

lemma ensure_holds: "b \<Longrightarrow> ensure b msg k = k"
  by (simp add: ensure_def)

lemma ensure_fails: "\<not> b \<Longrightarrow> ensure b msg k = Inl (AssertionFailed msg)"
  by (simp add: ensure_def)

lemma rbind_Inr [simp]: "rbind (Inr x) k = k x"
  and rbind_Inl [simp]: "rbind (Inl e) k = Inl e"
  by (simp_all add: rbind_def)

lemma rbind_eq_Inr [simp]: "rbind r k = Inr y \<longleftrightarrow> (\<exists>x. r = Inr x \<and> k x = Inr y)"
  by (simp add: rbind_def split: sum.splits)

lemma rbind_assoc [simp]: "rbind (rbind r f) g = rbind r (\<lambda>x. rbind (f x) g)"
  by (simp add: rbind_def split: sum.splits)

subsection \<open>Algorithms of the standard library\<close>

text \<open>
  \<open>std_search xs p\<close> is the offset at which \<open>std::search\<close> finds the first occurrence of
  \<open>p\<close> in \<open>xs\<close>, the length of \<open>xs\<close> when there is none. \<open>std_find xs c\<close> is
  \<open>std::find\<close>. \<open>memchr_off\<close> is \<open>memchr\<close>, whose null pointer is \<open>None\<close>.
\<close>

fun std_search :: "'a list \<Rightarrow> 'a list \<Rightarrow> nat" where
  "std_search [] p = 0"
| "std_search (x # xs) p =
     (if take (length p) (x # xs) = p then 0 else Suc (std_search xs p))"

fun std_find :: "'a list \<Rightarrow> 'a \<Rightarrow> nat" where
  "std_find [] c = 0"
| "std_find (x # xs) c = (if x = c then 0 else Suc (std_find xs c))"

definition memchr_off :: "byte list \<Rightarrow> byte \<Rightarrow> nat option" where
  "memchr_off xs c = (let i = std_find xs c in if i = length xs then None else Some i)"

text \<open>\<open>isspace\<close> in the locale of C.\<close>

definition isspace :: "char \<Rightarrow> bool" where
  "isspace c \<longleftrightarrow> c = CHR '' '' \<or> 9 \<le> (of_char c :: nat) \<and> (of_char c :: nat) \<le> 13"

text \<open>\<open>write_at\<close> copies into a vector in place; \<open>vec_resize\<close> is \<open>vector::resize\<close>,
  which pads with zero bytes.\<close>

definition write_at :: "'a list \<Rightarrow> nat \<Rightarrow> 'a list \<Rightarrow> 'a list" where
  "write_at buf i xs = take i buf @ xs @ drop (i + length xs) buf"

definition vec_resize :: "byte list \<Rightarrow> nat \<Rightarrow> byte list" where
  "vec_resize buf n = take n buf @ replicate (n - length buf) (CHR 0x00)"

text \<open>\<open>subrange xs i j\<close> is the range \<open>[i, j)\<close> of \<open>xs\<close>.\<close>

definition subrange :: "'a list \<Rightarrow> nat \<Rightarrow> nat \<Rightarrow> 'a list" where
  "subrange xs i j = take (j - i) (drop i xs)"

lemma length_subrange: "j \<le> length xs \<Longrightarrow> length (subrange xs i j) = j - i"
  by (simp add: subrange_def)

lemma subrange_empty [simp]: "subrange xs i i = []"
  by (simp add: subrange_def)

lemma subrange_drop: "i + k \<le> j \<Longrightarrow> drop k (subrange xs i j) = subrange xs (i + k) j"
  by (simp add: subrange_def drop_take add.commute)

lemma subrange_take: "i + k \<le> j \<Longrightarrow> take k (subrange xs i j) = subrange xs i (i + k)"
  by (simp add: subrange_def min_def)

lemma subrange_append_join:
  assumes "i \<le> j" "j \<le> k"
  shows "subrange xs i j @ subrange xs j k = subrange xs i k"
proof -
  have "subrange xs i k = take ((j - i) + (k - j)) (drop i xs)"
    using assms by (simp add: subrange_def)
  also have "\<dots> = subrange xs i j @ subrange xs j k"
    unfolding subrange_def take_add using assms by simp
  finally show ?thesis by simp
qed

lemma length_write_at: "i + length xs \<le> length buf \<Longrightarrow> length (write_at buf i xs) = length buf"
  by (simp add: write_at_def)

lemma subrange_write_at_same:
  "i + length xs \<le> length buf \<Longrightarrow> subrange (write_at buf i xs) i (i + length xs) = xs"
  by (simp add: subrange_def write_at_def)

lemma subrange_write_at_before:
  assumes "j \<le> i" "i \<le> length buf"
  shows "subrange (write_at buf i xs) k j = subrange buf k j"
proof -
  have "take j (write_at buf i xs) = take j buf"
    using assms by (simp add: write_at_def min_def)
  then show ?thesis
    by (simp add: subrange_def drop_take flip: drop_take)
qed

lemma subrange_write_at_after:
  assumes "i + length xs \<le> k" "k \<le> length buf"
  shows "subrange (write_at buf i xs) k j = subrange buf k j"
proof -
  have "drop k (write_at buf i xs) = drop (k - i - length xs) (drop (i + length xs) buf)"
    using assms by (simp add: write_at_def)
  also have "\<dots> = drop k buf"
    using assms by (simp add: algebra_simps)
  finally show ?thesis by (simp add: subrange_def)
qed

lemma length_vec_resize [simp]: "length (vec_resize buf n) = n"
  by (simp add: vec_resize_def)

lemma subrange_vec_resize:
  assumes "j \<le> length buf" "j \<le> n"
  shows "subrange (vec_resize buf n) i j = subrange buf i j"
proof -
  have "take j (vec_resize buf n) = take j buf"
    using assms by (simp add: vec_resize_def min_def)
  then show ?thesis
    by (simp add: subrange_def flip: drop_take)
qed

subsection \<open>What the searches return\<close>

lemma std_find_le: "std_find xs c \<le> length xs"
  by (induction xs) auto

lemma std_find_less_iff: "std_find xs c < length xs \<longleftrightarrow> c \<in> set xs"
  by (induction xs) auto

lemma std_find_eq_length_iff: "std_find xs c = length xs \<longleftrightarrow> c \<notin> set xs"
  using std_find_le [of xs c] std_find_less_iff [of xs c] by linarith

lemma take_std_find: "take (std_find xs c) xs = takeWhile (\<lambda>x. x \<noteq> c) xs"
  by (induction xs) auto

lemma std_find_first: "c \<notin> set xs \<Longrightarrow> std_find (xs @ c # ys) c = length xs"
  by (induction xs) auto

lemma std_find_nth: "std_find xs c < length xs \<Longrightarrow> xs ! std_find xs c = c"
  by (induction xs) auto

lemma std_search_le: "std_search xs p \<le> length xs"
  by (induction xs) auto

lemma std_search_match:
  "std_search xs p < length xs \<Longrightarrow> take (length p) (drop (std_search xs p) xs) = p"
  by (induction xs) (auto split: if_splits)

lemma std_search_minimal:
  "i < std_search xs p \<Longrightarrow> take (length p) (drop i xs) \<noteq> p"
proof (induction xs arbitrary: i)
  case Nil
  then show ?case by simp
next
  case (Cons x xs)
  then show ?case by (cases i) (auto split: if_splits)
qed

lemma std_search_fits:
  assumes "std_search xs p < length xs"
  shows "std_search xs p + length p \<le> length xs"
proof -
  have "length p = length (take (length p) (drop (std_search xs p) xs))"
    using std_search_match [OF assms] by simp
  then show ?thesis using assms by simp
qed

text \<open>A match is not changed by bytes that arrive later.\<close>

lemma std_search_append:
  assumes "std_search xs p < length xs"
  shows "std_search (xs @ ys) p = std_search xs p"
  using assms
proof (induction xs)
  case Nil
  then show ?case by simp
next
  case (Cons x xs)
  show ?case
  proof (cases "take (length p) (x # xs) = p")
    case True
    then have "length p \<le> length (x # xs)" by (metis length_take min.cobounded1)
    then have "take (length p) ((x # xs) @ ys) = p"
      unfolding take_append using True by simp
    then show ?thesis using True by simp
  next
    case False
    then have "std_search xs p < length xs" using Cons.prems by simp
    moreover from this have "length p \<le> length (x # xs)"
      using std_search_fits by fastforce
    then have "take (length p) ((x # xs) @ ys) \<noteq> p"
      unfolding take_append using False by simp
    ultimately show ?thesis using Cons.IH False by simp
  qed
qed

text \<open>Bytes that hold no first byte of the pattern are skipped.\<close>

lemma std_search_skip:
  "p \<noteq> [] \<Longrightarrow> hd p \<notin> set xs \<Longrightarrow> std_search (xs @ p @ ys) p = length xs"
proof (induction xs)
  case Nil
  then show ?case by (cases p) auto
next
  case (Cons x xs)
  then have "take (length p) ((x # xs) @ p @ ys) \<noteq> p"
    by (cases p) auto
  then show ?case using Cons by simp
qed

subsection \<open>Integer division of C\<close>

text \<open>\<open>sdiv\<close> and \<open>smod\<close> of the library truncate towards zero, as \<open>/\<close> and \<open>%\<close> of C do.\<close>

lemma sdiv_nonneg: "0 \<le> a \<Longrightarrow> 0 \<le> b \<Longrightarrow> (a::int) sdiv b = a div b"
  by (auto simp: signed_divide_int_def sgn_if)

lemma smod_nonneg: "0 \<le> a \<Longrightarrow> 0 \<le> b \<Longrightarrow> (a::int) smod b = a mod b"
  by (auto simp: signed_modulo_int_def sgn_if)

end
