(* ===== verification/Endian.thy ===== *)
theory Endian
  imports Prelude
begin

section \<open>Byte order (src/src/Endian.h)\<close>

text \<open>
  \<open>hostToNetwork16/32/64\<close> and \<open>networkToHost16/32/64\<close> call \<open>htobeNN\<close> and \<open>beNNtoh\<close>:
  the identity on a big-endian host and a byte swap on a little-endian one. The host's byte
  order is an argument of the model; the bytes that \<open>memcpy\<close> reads from an integer are
  \<open>mem_bytes\<close>. The lemmas show that the bytes put on the wire are the big-endian ones on
  either host and that decoding inverts encoding.
\<close>

datatype endianness = LittleEndian | BigEndian

primrec nat_bytes_le :: "nat \<Rightarrow> nat \<Rightarrow> byte list" where
  "nat_bytes_le 0 v = []"
| "nat_bytes_le (Suc n) v = char_of (v mod 256) # nat_bytes_le n (v div 256)"

primrec bytes_nat_le :: "byte list \<Rightarrow> nat" where
  "bytes_nat_le [] = 0"
| "bytes_nat_le (c # cs) = of_char c + 256 * bytes_nat_le cs"

text \<open>The bytes of an \<open>n\<close>-byte integer in memory, and the integer that bytes in memory stand for.\<close>

definition mem_bytes :: "endianness \<Rightarrow> nat \<Rightarrow> 'a::len word \<Rightarrow> byte list" where
  "mem_bytes e n w =
     (case e of LittleEndian \<Rightarrow> nat_bytes_le n (unat w) | BigEndian \<Rightarrow> rev (nat_bytes_le n (unat w)))"

definition bytes_mem :: "endianness \<Rightarrow> byte list \<Rightarrow> 'a::len word" where
  "bytes_mem e bs =
     (case e of LittleEndian \<Rightarrow> word_of_nat (bytes_nat_le bs)
      | BigEndian \<Rightarrow> word_of_nat (bytes_nat_le (rev bs)))"

definition bswap :: "nat \<Rightarrow> 'a::len word \<Rightarrow> 'a word" where
  "bswap n w = word_of_nat (bytes_nat_le (rev (nat_bytes_le n (unat w))))"

definition hostToNetwork64 :: "endianness \<Rightarrow> 64 word \<Rightarrow> 64 word" where
  "hostToNetwork64 e host64 = (case e of BigEndian \<Rightarrow> host64 | LittleEndian \<Rightarrow> bswap 8 host64)"

definition hostToNetwork32 :: "endianness \<Rightarrow> 32 word \<Rightarrow> 32 word" where
  "hostToNetwork32 e host32 = (case e of BigEndian \<Rightarrow> host32 | LittleEndian \<Rightarrow> bswap 4 host32)"

definition hostToNetwork16 :: "endianness \<Rightarrow> 16 word \<Rightarrow> 16 word" where
  "hostToNetwork16 e host16 = (case e of BigEndian \<Rightarrow> host16 | LittleEndian \<Rightarrow> bswap 2 host16)"

definition networkToHost64 :: "endianness \<Rightarrow> 64 word \<Rightarrow> 64 word" where
  "networkToHost64 e net64 = (case e of BigEndian \<Rightarrow> net64 | LittleEndian \<Rightarrow> bswap 8 net64)"

definition networkToHost32 :: "endianness \<Rightarrow> 32 word \<Rightarrow> 32 word" where
  "networkToHost32 e net32 = (case e of BigEndian \<Rightarrow> net32 | LittleEndian \<Rightarrow> bswap 4 net32)"

definition networkToHost16 :: "endianness \<Rightarrow> 16 word \<Rightarrow> 16 word" where
  "networkToHost16 e net16 = (case e of BigEndian \<Rightarrow> net16 | LittleEndian \<Rightarrow> bswap 2 net16)"

subsection \<open>Digits\<close>

lemma length_nat_bytes_le [simp]: "length (nat_bytes_le n v) = n"
  by (induction n arbitrary: v) auto

lemma of_char_less_256 [simp]: "(of_char c :: nat) < 256"
  using of_char_of [where ?'a = nat] by (metis char_of_take_bit_eq of_char_mod_256 mod_less_divisor zero_less_numeral)

lemma bytes_nat_le_less: "bytes_nat_le cs < 256 ^ length cs"
proof (induction cs)
  case Nil
  then show ?case by simp
next
  case (Cons c cs)
  have "of_char c + 256 * bytes_nat_le cs < 256 * (bytes_nat_le cs + 1)"
    using of_char_less_256 [of c] by simp
  also have "\<dots> \<le> 256 * 256 ^ length cs"
    using Cons by (intro mult_le_mono2) simp
  finally show ?case by simp
qed

lemma bytes_nat_le_of_nat: "bytes_nat_le (nat_bytes_le n v) = v mod 256 ^ n"
proof (induction n arbitrary: v)
  case 0
  then show ?case by simp
next
  case (Suc n)
  have "v mod 256 ^ Suc n = v mod 256 + 256 * (v div 256 mod 256 ^ n)"
    by (simp add: mod_mult2_eq add.commute)
  then show ?case using Suc by simp
qed

lemma nat_bytes_le_of_bytes: "nat_bytes_le (length cs) (bytes_nat_le cs) = cs"
proof (induction cs)
  case Nil
  then show ?case by simp
next
  case (Cons c cs)
  have "(of_char c + 256 * bytes_nat_le cs) mod 256 = of_char c"
    and "(of_char c + 256 * bytes_nat_le cs) div 256 = bytes_nat_le cs"
    using of_char_less_256 [of c] by simp_all
  then show ?case using Cons by simp
qed

subsection \<open>Words of a whole number of bytes\<close>

lemma unat_word_of_bytes:
  fixes w :: "'a::len word"
  assumes "256 ^ n = (2::nat) ^ LENGTH('a)" "length bs = n"
  shows "unat (word_of_nat (bytes_nat_le bs) :: 'a word) = bytes_nat_le bs"
  using bytes_nat_le_less [of bs] assms by (simp add: unat_of_nat)

lemma word_of_bytes_unat:
  fixes w :: "'a::len word"
  assumes "256 ^ n = (2::nat) ^ LENGTH('a)"
  shows "word_of_nat (bytes_nat_le (nat_bytes_le n (unat w))) = w"
  using assms by (simp add: bytes_nat_le_of_nat)

lemma nat_bytes_bswap:
  fixes w :: "'a::len word"
  assumes "256 ^ n = (2::nat) ^ LENGTH('a)"
  shows "nat_bytes_le n (unat (bswap n w)) = rev (nat_bytes_le n (unat w))"
proof -
  have "unat (bswap n w) = bytes_nat_le (rev (nat_bytes_le n (unat w)))"
    unfolding bswap_def using assms by (intro unat_word_of_bytes [of n]) auto
  then show ?thesis
    using nat_bytes_le_of_bytes [of "rev (nat_bytes_le n (unat w))"] by simp
qed

lemma bswap_bswap:
  fixes w :: "'a::len word"
  assumes "256 ^ n = (2::nat) ^ LENGTH('a)"
  shows "bswap n (bswap n w) = w"
  unfolding bswap_def [of n "bswap n w"] nat_bytes_bswap [OF assms]
  by (simp add: word_of_bytes_unat [OF assms])

lemma bytes_mem_mem_bytes:
  fixes w :: "'a::len word"
  assumes "256 ^ n = (2::nat) ^ LENGTH('a)"
  shows "bytes_mem e (mem_bytes e n w) = w"
  by (cases e) (simp_all add: bytes_mem_def mem_bytes_def word_of_bytes_unat [OF assms])

lemma length_mem_bytes [simp]: "length (mem_bytes e n w) = n"
  by (cases e) (simp_all add: mem_bytes_def)

lemma networkToHost_hostToNetwork [simp]:
  "networkToHost64 e (hostToNetwork64 e a) = a"
  "networkToHost32 e (hostToNetwork32 e b) = b"
  "networkToHost16 e (hostToNetwork16 e c) = c"
  by (cases e; simp add: networkToHost64_def hostToNetwork64_def networkToHost32_def
      hostToNetwork32_def networkToHost16_def hostToNetwork16_def bswap_bswap)+

lemma mem_bytes_hostToNetwork:
  "mem_bytes e 8 (hostToNetwork64 e a) = rev (nat_bytes_le 8 (unat a))"
  "mem_bytes e 4 (hostToNetwork32 e b) = rev (nat_bytes_le 4 (unat b))"
  "mem_bytes e 2 (hostToNetwork16 e c) = rev (nat_bytes_le 2 (unat c))"
  by (cases e; simp add: mem_bytes_def hostToNetwork64_def hostToNetwork32_def
      hostToNetwork16_def nat_bytes_bswap)+

end
