(* ===== verification/Buffer.thy ===== *)
theory Buffer
  imports Endian
begin

section \<open>The network buffer (src/src/Buffer.h, src/src/Buffer.cpp)\<close>

text \<open>
  The class \<open>Buffer\<close>: one vector of bytes cut by two indices into a prependable, a readable
  and a writable part. A pointer into the vector is its offset from \<open>begin()\<close>; the null
  pointer is \<open>None\<close>. Every \<open>assert\<close> of the source is an \<open>ensure\<close> of the model.

  First the operations in the order of the header, then the invariant the class comment
  states, then what each operation does to the readable bytes, and last the refinement: the
  buffer implements a queue of bytes, an interface stated as a locale whose client lemmas the
  connection and the parsers use.
\<close>

record Buffer =
  buffer :: "byte list"
  readerIndex :: nat
  writerIndex :: nat

definition kCheapPrepend :: nat where "kCheapPrepend = 8"

definition kInitialSize :: nat where "kInitialSize = 1024"

definition kCRLF :: "byte list" where "kCRLF = [CHR 0x0D, CHR 0x0A]"

subsection \<open>Sizes\<close>

definition readableBytes :: "Buffer \<Rightarrow> nat" where
  "readableBytes b = writerIndex b - readerIndex b"

definition writableBytes :: "Buffer \<Rightarrow> nat" where
  "writableBytes b = length (buffer b) - writerIndex b"

definition prependableBytes :: "Buffer \<Rightarrow> nat" where
  "prependableBytes b = readerIndex b"

definition peek :: "Buffer \<Rightarrow> nat" where
  "peek b = readerIndex b"

definition beginWrite :: "Buffer \<Rightarrow> nat" where
  "beginWrite b = writerIndex b"

text \<open>The constructor takes an initial size, allocates \<open>kCheapPrepend + kInitialSize\<close> bytes
  whatever the argument is, and asserts that the argument was the default.\<close>

definition fresh_buffer :: Buffer where
  "fresh_buffer =
     \<lparr>buffer = replicate (kCheapPrepend + kInitialSize) (CHR 0x00),
      readerIndex = kCheapPrepend, writerIndex = kCheapPrepend\<rparr>"

definition new_Buffer :: "nat \<Rightarrow> Buffer res" where
  "new_Buffer initialSize =
     ensure (readableBytes fresh_buffer = 0) ''readableBytes() == 0''
     (ensure (writableBytes fresh_buffer = initialSize) ''writableBytes() == initialSize''
     (ensure (prependableBytes fresh_buffer = kCheapPrepend) ''prependableBytes() == kCheapPrepend''
     (Inr fresh_buffer)))"

definition swap_buffers :: "Buffer \<Rightarrow> Buffer \<Rightarrow> Buffer \<times> Buffer" where
  "swap_buffers b rhs =
     (\<lparr>buffer = buffer rhs, readerIndex = readerIndex rhs, writerIndex = writerIndex rhs\<rparr>,
      \<lparr>buffer = buffer b, readerIndex = readerIndex b, writerIndex = writerIndex b\<rparr>)"

subsection \<open>Looking for a line end\<close>

definition findCRLF :: "Buffer \<Rightarrow> nat option" where
  "findCRLF b =
     (let crlf = peek b + std_search (subrange (buffer b) (peek b) (beginWrite b)) kCRLF
      in if crlf = beginWrite b then None else Some crlf)"

definition findCRLF_from :: "Buffer \<Rightarrow> nat \<Rightarrow> nat option res" where
  "findCRLF_from b start =
     ensure (peek b \<le> start) ''peek() <= start''
     (ensure (start \<le> beginWrite b) ''start <= beginWrite()''
     (let crlf = start + std_search (subrange (buffer b) start (beginWrite b)) kCRLF
      in Inr (if crlf = beginWrite b then None else Some crlf)))"

definition findEOL :: "Buffer \<Rightarrow> nat option" where
  "findEOL b =
     map_option (\<lambda>i. peek b + i)
       (memchr_off (subrange (buffer b) (peek b) (peek b + readableBytes b)) (CHR 0x0A))"

definition findEOL_from :: "Buffer \<Rightarrow> nat \<Rightarrow> nat option res" where
  "findEOL_from b start =
     ensure (peek b \<le> start) ''peek() <= start''
     (ensure (start \<le> beginWrite b) ''start <= beginWrite()''
     (Inr (map_option (\<lambda>i. start + i)
        (memchr_off (subrange (buffer b) start (beginWrite b)) (CHR 0x0A)))))"

subsection \<open>Consuming\<close>

definition retrieveAll :: "Buffer \<Rightarrow> Buffer" where
  "retrieveAll b = b\<lparr>readerIndex := kCheapPrepend, writerIndex := kCheapPrepend\<rparr>"

definition retrieve :: "Buffer \<Rightarrow> nat \<Rightarrow> Buffer res" where
  "retrieve b len =
     ensure (len \<le> readableBytes b) ''len <= readableBytes()''
     (Inr (if len < readableBytes b then b\<lparr>readerIndex := readerIndex b + len\<rparr>
           else retrieveAll b))"

definition retrieveUntil :: "Buffer \<Rightarrow> nat \<Rightarrow> Buffer res" where
  "retrieveUntil b stop =
     ensure (peek b \<le> stop) ''peek() <= end''
     (ensure (stop \<le> beginWrite b) ''end <= beginWrite()''
     (retrieve b (stop - peek b)))"

definition retrieveInt64 :: "Buffer \<Rightarrow> Buffer res" where "retrieveInt64 b = retrieve b 8"
definition retrieveInt32 :: "Buffer \<Rightarrow> Buffer res" where "retrieveInt32 b = retrieve b 4"
definition retrieveInt16 :: "Buffer \<Rightarrow> Buffer res" where "retrieveInt16 b = retrieve b 2"
definition retrieveInt8 :: "Buffer \<Rightarrow> Buffer res" where "retrieveInt8 b = retrieve b 1"

definition retrieveAsString :: "Buffer \<Rightarrow> nat \<Rightarrow> (string \<times> Buffer) res" where
  "retrieveAsString b len =
     ensure (len \<le> readableBytes b) ''len <= readableBytes()''
     (let result = subrange (buffer b) (peek b) (peek b + len)
      in rbind (retrieve b len) (\<lambda>b'. Inr (result, b')))"

definition retrieveAllAsString :: "Buffer \<Rightarrow> (string \<times> Buffer) res" where
  "retrieveAllAsString b = retrieveAsString b (readableBytes b)"

definition toStringPiece :: "Buffer \<Rightarrow> byte list" where
  "toStringPiece b = subrange (buffer b) (peek b) (peek b + readableBytes b)"

subsection \<open>Producing\<close>

definition makeSpace :: "Buffer \<Rightarrow> nat \<Rightarrow> Buffer res" where
  "makeSpace b len =
     (if writableBytes b + prependableBytes b < len + kCheapPrepend
      then Inr (b\<lparr>buffer := vec_resize (buffer b) (writerIndex b + len)\<rparr>)
      else ensure (kCheapPrepend < readerIndex b) ''kCheapPrepend < readerIndex_''
       (let readable = readableBytes b;
            b' = b\<lparr>buffer := write_at (buffer b) kCheapPrepend
                              (subrange (buffer b) (readerIndex b) (writerIndex b)),
                   readerIndex := kCheapPrepend, writerIndex := kCheapPrepend + readable\<rparr>
        in ensure (readable = readableBytes b') ''readable == readableBytes()'' (Inr b')))"

definition ensureWritableBytes :: "Buffer \<Rightarrow> nat \<Rightarrow> Buffer res" where
  "ensureWritableBytes b len =
     rbind (if writableBytes b < len then makeSpace b len else Inr b)
       (\<lambda>b'. ensure (len \<le> writableBytes b') ''writableBytes() >= len'' (Inr b'))"

definition hasWritten :: "Buffer \<Rightarrow> nat \<Rightarrow> Buffer res" where
  "hasWritten b len =
     ensure (len \<le> writableBytes b) ''len <= writableBytes()''
     (Inr (b\<lparr>writerIndex := writerIndex b + len\<rparr>))"

definition unwrite :: "Buffer \<Rightarrow> nat \<Rightarrow> Buffer res" where
  "unwrite b len =
     ensure (len \<le> readableBytes b) ''len <= readableBytes()''
     (Inr (b\<lparr>writerIndex := writerIndex b - len\<rparr>))"

definition append_data :: "Buffer \<Rightarrow> byte list \<Rightarrow> Buffer res" where
  "append_data b data =
     rbind (ensureWritableBytes b (length data))
       (\<lambda>b'. hasWritten (b'\<lparr>buffer := write_at (buffer b') (beginWrite b') data\<rparr>) (length data))"

definition prepend :: "Buffer \<Rightarrow> byte list \<Rightarrow> Buffer res" where
  "prepend b data =
     ensure (length data \<le> prependableBytes b) ''len <= prependableBytes()''
     (let r = readerIndex b - length data
      in Inr (b\<lparr>readerIndex := r, buffer := write_at (buffer b) r data\<rparr>))"

definition shrink :: "Buffer \<Rightarrow> nat \<Rightarrow> Buffer res" where
  "shrink b reserve =
     rbind (new_Buffer kInitialSize) (\<lambda>other.
     rbind (ensureWritableBytes other (readableBytes b + reserve)) (\<lambda>other'.
     rbind (append_data other' (toStringPiece b)) (\<lambda>other''.
     Inr (fst (swap_buffers b other'')))))"

subsection \<open>Integers in network byte order\<close>

definition appendInt64 :: "endianness \<Rightarrow> Buffer \<Rightarrow> 64 word \<Rightarrow> Buffer res" where
  "appendInt64 e b x = append_data b (mem_bytes e 8 (hostToNetwork64 e x))"

definition appendInt32 :: "endianness \<Rightarrow> Buffer \<Rightarrow> 32 word \<Rightarrow> Buffer res" where
  "appendInt32 e b x = append_data b (mem_bytes e 4 (hostToNetwork32 e x))"

definition appendInt16 :: "endianness \<Rightarrow> Buffer \<Rightarrow> 16 word \<Rightarrow> Buffer res" where
  "appendInt16 e b x = append_data b (mem_bytes e 2 (hostToNetwork16 e x))"

definition appendInt8 :: "endianness \<Rightarrow> Buffer \<Rightarrow> 8 word \<Rightarrow> Buffer res" where
  "appendInt8 e b x = append_data b (mem_bytes e 1 x)"

definition peekInt64 :: "endianness \<Rightarrow> Buffer \<Rightarrow> 64 word res" where
  "peekInt64 e b =
     ensure (8 \<le> readableBytes b) ''readableBytes() >= sizeof(int64_t)''
     (Inr (networkToHost64 e (bytes_mem e (subrange (buffer b) (peek b) (peek b + 8)))))"

definition peekInt32 :: "endianness \<Rightarrow> Buffer \<Rightarrow> 32 word res" where
  "peekInt32 e b =
     ensure (4 \<le> readableBytes b) ''readableBytes() >= sizeof(int32_t)''
     (Inr (networkToHost32 e (bytes_mem e (subrange (buffer b) (peek b) (peek b + 4)))))"

definition peekInt16 :: "endianness \<Rightarrow> Buffer \<Rightarrow> 16 word res" where
  "peekInt16 e b =
     ensure (2 \<le> readableBytes b) ''readableBytes() >= sizeof(int16_t)''
     (Inr (networkToHost16 e (bytes_mem e (subrange (buffer b) (peek b) (peek b + 2)))))"

definition peekInt8 :: "endianness \<Rightarrow> Buffer \<Rightarrow> 8 word res" where
  "peekInt8 e b =
     ensure (1 \<le> readableBytes b) ''readableBytes() >= sizeof(int8_t)''
     (Inr (bytes_mem e (subrange (buffer b) (peek b) (peek b + 1))))"

definition readInt32 :: "endianness \<Rightarrow> Buffer \<Rightarrow> (32 word \<times> Buffer) res" where
  "readInt32 e b =
     rbind (peekInt32 e b) (\<lambda>result. rbind (retrieveInt32 b) (\<lambda>b'. Inr (result, b')))"

definition readInt16 :: "endianness \<Rightarrow> Buffer \<Rightarrow> (16 word \<times> Buffer) res" where
  "readInt16 e b =
     rbind (peekInt16 e b) (\<lambda>result. rbind (retrieveInt16 b) (\<lambda>b'. Inr (result, b')))"

definition readInt8 :: "endianness \<Rightarrow> Buffer \<Rightarrow> (8 word \<times> Buffer) res" where
  "readInt8 e b =
     rbind (peekInt8 e b) (\<lambda>result. rbind (retrieveInt8 b) (\<lambda>b'. Inr (result, b')))"

definition prependInt64 :: "endianness \<Rightarrow> Buffer \<Rightarrow> 64 word \<Rightarrow> Buffer res" where
  "prependInt64 e b x = prepend b (mem_bytes e 8 (hostToNetwork64 e x))"

definition prependInt32 :: "endianness \<Rightarrow> Buffer \<Rightarrow> 32 word \<Rightarrow> Buffer res" where
  "prependInt32 e b x = prepend b (mem_bytes e 4 (hostToNetwork32 e x))"

definition prependInt16 :: "endianness \<Rightarrow> Buffer \<Rightarrow> 16 word \<Rightarrow> Buffer res" where
  "prependInt16 e b x = prepend b (mem_bytes e 2 (hostToNetwork16 e x))"

definition prependInt8 :: "endianness \<Rightarrow> Buffer \<Rightarrow> 8 word \<Rightarrow> Buffer res" where
  "prependInt8 e b x = prepend b (mem_bytes e 1 x)"

subsection \<open>Reading from a descriptor\<close>

text \<open>
  \<open>readv\<close> is the kernel's: the argument \<open>rv\<close> takes the lengths of the \<open>iovec\<close>s handed to
  it and returns the error number or the bytes it stored, filling the first vector before the
  second. The result is the value \<open>readFd\<close> returns, the error number it saves and the buffer.
\<close>

definition extrabufSize :: nat where "extrabufSize = 65536"

definition readFd :: "(nat list \<Rightarrow> int + byte list) \<Rightarrow> Buffer \<Rightarrow> int \<Rightarrow> (int \<times> int \<times> Buffer) res" where
  "readFd rv b savedErrno =
     (let writable = writableBytes b;
          iov = (if writable < extrabufSize then [writable, extrabufSize] else [writable])
      in case rv iov of
           Inl e \<Rightarrow> Inr (-1, e, b)
         | Inr data \<Rightarrow>
             (let n = length data;
                  b1 = b\<lparr>buffer := write_at (buffer b) (writerIndex b) (take writable data)\<rparr>
              in if n \<le> writable
                 then Inr (int n, savedErrno, b1\<lparr>writerIndex := writerIndex b1 + n\<rparr>)
                 else rbind (append_data (b1\<lparr>writerIndex := length (buffer b1)\<rparr>) (drop writable data))
                        (\<lambda>b2. Inr (int n, savedErrno, b2))))"

subsection \<open>The invariant of the class comment\<close>

text \<open>\<open>0 <= readerIndex <= writerIndex <= size\<close>, and the vector never loses its first
  \<open>kCheapPrepend\<close> bytes.\<close>

definition buffer_wf :: "Buffer \<Rightarrow> bool" where
  "buffer_wf b \<longleftrightarrow>
     readerIndex b \<le> writerIndex b \<and> writerIndex b \<le> length (buffer b) \<and>
     kCheapPrepend \<le> length (buffer b)"

text \<open>The readable bytes: what the buffer holds, as its clients see it.\<close>

definition content :: "Buffer \<Rightarrow> byte list" where
  "content b = subrange (buffer b) (readerIndex b) (writerIndex b)"

lemmas size_defs = readableBytes_def writableBytes_def prependableBytes_def
  peek_def beginWrite_def kCheapPrepend_def kInitialSize_def

lemma buffer_wf_fresh [simp]: "buffer_wf fresh_buffer"
  by (simp add: buffer_wf_def fresh_buffer_def kInitialSize_def)

lemma content_fresh [simp]: "content fresh_buffer = []"
  by (simp add: content_def fresh_buffer_def)

lemma fresh_sizes [simp]:
  "readableBytes fresh_buffer = 0" "writableBytes fresh_buffer = 1024"
  "prependableBytes fresh_buffer = 8" "length (buffer fresh_buffer) = 1032"
  "readerIndex fresh_buffer = 8" "writerIndex fresh_buffer = 8"
  by (simp_all add: fresh_buffer_def size_defs)

lemma new_Buffer_default: "new_Buffer kInitialSize = Inr fresh_buffer"
  by (simp add: new_Buffer_def fresh_buffer_def size_defs)

lemma length_content: "buffer_wf b \<Longrightarrow> length (content b) = readableBytes b"
  by (simp add: buffer_wf_def content_def length_subrange readableBytes_def)

lemma toStringPiece_content: "buffer_wf b \<Longrightarrow> toStringPiece b = content b"
  by (simp add: buffer_wf_def toStringPiece_def content_def size_defs)

lemma content_prefix:
  "buffer_wf b \<Longrightarrow> n \<le> readableBytes b \<Longrightarrow>
   subrange (buffer b) (peek b) (peek b + n) = take n (content b)"
  by (auto simp: buffer_wf_def content_def size_defs subrange_take)

subsection \<open>What each operation does to the readable bytes\<close>

lemma retrieveAll_wf [wf_intros]: "buffer_wf b \<Longrightarrow> buffer_wf (retrieveAll b)"
  by (simp add: buffer_wf_def retrieveAll_def)

lemma content_retrieveAll [simp]: "content (retrieveAll b) = []"
  by (simp add: content_def retrieveAll_def)

lemma retrieve_ok:
  assumes "buffer_wf b" "n \<le> readableBytes b"
  shows "\<exists>b'. retrieve b n = Inr b' \<and> buffer_wf b' \<and> content b' = drop n (content b)"
proof (cases "n < readableBytes b")
  case True
  let ?b = "b\<lparr>readerIndex := readerIndex b + n\<rparr>"
  have "retrieve b n = Inr ?b" using True by (simp add: retrieve_def)
  moreover have "buffer_wf ?b" using assms True by (auto simp: buffer_wf_def readableBytes_def)
  moreover have "content ?b = drop n (content b)"
    using True by (simp add: content_def readableBytes_def subrange_drop)
  ultimately show ?thesis by blast
next
  case False
  then have "retrieve b n = Inr (retrieveAll b)" using assms by (simp add: retrieve_def)
  moreover have "drop n (content b) = []" using False assms by (simp add: length_content)
  ultimately show ?thesis using assms by (simp add: wf_intros)
qed

lemma retrieve_short: "readableBytes b < n \<Longrightarrow> \<exists>e. retrieve b n = Inl e"
  by (simp add: retrieve_def ensure_def)

lemma retrieve_0: "0 < readableBytes b \<Longrightarrow> retrieve b 0 = Inr b"
  by (simp add: retrieve_def)

lemma makeSpace_ok:
  assumes "buffer_wf b" "writableBytes b < n"
  shows "\<exists>b'. makeSpace b n = Inr b' \<and> buffer_wf b' \<and> content b' = content b \<and> n \<le> writableBytes b'"
proof (cases "writableBytes b + prependableBytes b < n + kCheapPrepend")
  case True
  let ?b = "b\<lparr>buffer := vec_resize (buffer b) (writerIndex b + n)\<rparr>"
  have "makeSpace b n = Inr ?b" using True by (simp add: makeSpace_def)
  moreover have "content ?b = content b"
    using assms by (simp add: content_def buffer_wf_def subrange_vec_resize)
  moreover have "buffer_wf ?b"
    using assms by (auto simp: buffer_wf_def size_defs)
  ultimately show ?thesis by (simp add: writableBytes_def)
next
  case False
  let ?b = "b\<lparr>buffer := write_at (buffer b) kCheapPrepend (content b),
              readerIndex := kCheapPrepend, writerIndex := kCheapPrepend + readableBytes b\<rparr>"
  have gt: "kCheapPrepend < readerIndex b"
    using False assms by (simp add: prependableBytes_def)
  have len: "length (content b) = readableBytes b" using assms by (simp add: length_content)
  have fits: "kCheapPrepend + length (content b) \<le> length (buffer b)"
    using gt assms len by (auto simp: buffer_wf_def readableBytes_def)
  have "makeSpace b n = Inr ?b"
    using False gt by (simp add: makeSpace_def Let_def content_def readableBytes_def)
  moreover have "content ?b = content b"
    using subrange_write_at_same [OF fits] len by (simp add: content_def)
  moreover have "buffer_wf ?b"
    using fits len length_write_at [OF fits] by (simp add: buffer_wf_def)
  moreover have "n \<le> writableBytes ?b"
    using False gt assms length_write_at [OF fits] by (simp add: buffer_wf_def size_defs)
  ultimately show ?thesis by blast
qed

lemma ensureWritableBytes_ok:
  assumes "buffer_wf b"
  shows "\<exists>b'. ensureWritableBytes b n = Inr b' \<and> buffer_wf b' \<and> content b' = content b \<and>
              n \<le> writableBytes b'"
proof (cases "writableBytes b < n")
  case True
  then show ?thesis using makeSpace_ok [OF assms True] by (auto simp: ensureWritableBytes_def)
next
  case False
  then show ?thesis using assms by (simp add: ensureWritableBytes_def)
qed

lemma write_in_place:
  assumes "buffer_wf b" "length xs \<le> writableBytes b"
  shows "buffer_wf (b\<lparr>buffer := write_at (buffer b) (writerIndex b) xs,
                     writerIndex := writerIndex b + length xs\<rparr>)" (is "buffer_wf ?b")
    and "content (b\<lparr>buffer := write_at (buffer b) (writerIndex b) xs,
                    writerIndex := writerIndex b + length xs\<rparr>) = content b @ xs"
proof -
  have fits: "writerIndex b + length xs \<le> length (buffer b)"
    using assms by (auto simp: buffer_wf_def writableBytes_def)
  show "buffer_wf ?b"
    using assms fits length_write_at [OF fits] by (simp add: buffer_wf_def)
  have "content ?b =
      subrange (write_at (buffer b) (writerIndex b) xs) (readerIndex b) (writerIndex b) @
      subrange (write_at (buffer b) (writerIndex b) xs) (writerIndex b) (writerIndex b + length xs)"
    using assms by (simp add: content_def buffer_wf_def subrange_append_join)
  also have "\<dots> = content b @ xs"
    using assms subrange_write_at_same [OF fits]
    by (simp add: content_def buffer_wf_def subrange_write_at_before)
  finally show "content ?b = content b @ xs" .
qed

lemma append_data_ok:
  assumes "buffer_wf b"
  shows "\<exists>b'. append_data b xs = Inr b' \<and> buffer_wf b' \<and> content b' = content b @ xs"
proof -
  obtain b1 where b1: "ensureWritableBytes b (length xs) = Inr b1" "buffer_wf b1"
    "content b1 = content b" "length xs \<le> writableBytes b1"
    using ensureWritableBytes_ok [OF assms] by blast
  let ?b = "b1\<lparr>buffer := write_at (buffer b1) (writerIndex b1) xs,
               writerIndex := writerIndex b1 + length xs\<rparr>"
  have "writerIndex b1 + length xs \<le> length (buffer b1)"
    using b1 by (auto simp: buffer_wf_def writableBytes_def)
  then have "append_data b xs = Inr ?b"
    using b1 by (simp add: append_data_def hasWritten_def beginWrite_def writableBytes_def
        length_write_at)
  then show ?thesis using write_in_place [OF b1(2) b1(4)] b1(3) by simp
qed

lemma append_data_content:
  "buffer_wf b \<Longrightarrow> append_data b xs = Inr b' \<Longrightarrow> content b' = content b @ xs"
  using append_data_ok [of b xs] by auto

lemma prepend_ok:
  assumes "buffer_wf b" "length xs \<le> prependableBytes b"
  shows "\<exists>b'. prepend b xs = Inr b' \<and> buffer_wf b' \<and> content b' = xs @ content b"
proof -
  let ?r = "readerIndex b - length xs"
  let ?b = "b\<lparr>readerIndex := ?r, buffer := write_at (buffer b) ?r xs\<rparr>"
  have r: "?r + length xs = readerIndex b" using assms by (simp add: prependableBytes_def)
  then have fits: "?r + length xs \<le> length (buffer b)"
    using assms by (simp add: buffer_wf_def)
  have "content ?b = subrange (write_at (buffer b) ?r xs) ?r (?r + length xs) @
      subrange (write_at (buffer b) ?r xs) (?r + length xs) (writerIndex b)"
    using assms r by (simp add: content_def buffer_wf_def subrange_append_join)
  also have "\<dots> = xs @ content b"
    using subrange_write_at_same [OF fits] r assms
    by (simp add: content_def buffer_wf_def subrange_write_at_after)
  finally have "content ?b = xs @ content b" .
  moreover have "buffer_wf ?b"
    using assms length_write_at [OF fits] by (auto simp: buffer_wf_def)
  moreover have "prepend b xs = Inr ?b" using assms by (simp add: prepend_def Let_def)
  ultimately show ?thesis by blast
qed

lemma unwrite_ok:
  assumes "buffer_wf b" "n \<le> readableBytes b"
  shows "\<exists>b'. unwrite b n = Inr b' \<and> buffer_wf b' \<and>
              content b' = take (length (content b) - n) (content b)"
proof -
  have "content (b\<lparr>writerIndex := writerIndex b - n\<rparr>) = take (length (content b) - n) (content b)"
    using assms by (auto simp: content_def buffer_wf_def length_subrange readableBytes_def
        subrange_take)
  then show ?thesis using assms by (auto simp: unwrite_def buffer_wf_def readableBytes_def)
qed

lemma retrieveAsString_ok:
  assumes "buffer_wf b" "n \<le> readableBytes b"
  shows "\<exists>b'. retrieveAsString b n = Inr (take n (content b), b') \<and> buffer_wf b' \<and>
              content b' = drop n (content b)"
  using retrieve_ok [OF assms] assms
  by (auto simp: retrieveAsString_def Let_def content_prefix)

lemma retrieveUntil_ok:
  assumes "buffer_wf b" "peek b \<le> stop" "stop \<le> beginWrite b"
  shows "\<exists>b'. retrieveUntil b stop = Inr b' \<and> buffer_wf b' \<and>
              content b' = drop (stop - peek b) (content b)"
proof -
  have "stop - peek b \<le> readableBytes b"
    using assms by (simp add: peek_def beginWrite_def readableBytes_def)
  then show ?thesis using retrieve_ok [OF assms(1)] assms by (simp add: retrieveUntil_def)
qed

lemma shrink_ok:
  assumes "buffer_wf b"
  shows "\<exists>b'. shrink b n = Inr b' \<and> buffer_wf b' \<and> content b' = content b"
proof -
  obtain o1 where o1: "ensureWritableBytes fresh_buffer (readableBytes b + n) = Inr o1"
    "buffer_wf o1" "content o1 = []"
    using ensureWritableBytes_ok [OF buffer_wf_fresh] by force
  obtain o2 where o2: "append_data o1 (content b) = Inr o2" "buffer_wf o2" "content o2 = content b"
    using append_data_ok [OF o1(2)] o1(3) by force
  have "shrink b n = Inr (fst (swap_buffers b o2))"
    using o1 o2 assms by (simp add: shrink_def new_Buffer_default toStringPiece_content)
  then show ?thesis using o2 by (simp add: swap_buffers_def buffer_wf_def content_def)
qed

subsection \<open>Line ends\<close>

lemma length_kCRLF [simp]: "length kCRLF = 2"
  and kCRLF_not_Nil [simp]: "kCRLF \<noteq> []" "[] \<noteq> kCRLF"
  and hd_kCRLF [simp]: "hd kCRLF = CHR 0x0D"
  by (simp_all add: kCRLF_def)

lemma findCRLF_eq:
  assumes "buffer_wf b"
  shows "findCRLF b =
    (let i = std_search (content b) kCRLF
     in if i = length (content b) then None else Some (peek b + i))"
proof -
  have "writerIndex b = readerIndex b + length (content b)"
    using assms by (simp add: length_content readableBytes_def buffer_wf_def)
  then show ?thesis by (simp add: findCRLF_def Let_def content_def peek_def beginWrite_def)
qed

lemma findCRLF_Some:
  assumes "buffer_wf b" "findCRLF b = Some p"
  shows "p = peek b + std_search (content b) kCRLF" "peek b \<le> p" "p + 2 \<le> beginWrite b"
    "std_search (content b) kCRLF < length (content b)"
proof -
  have i: "std_search (content b) kCRLF \<noteq> length (content b)" "p = peek b + std_search (content b) kCRLF"
    using assms by (auto simp: findCRLF_eq Let_def split: if_splits)
  then show lt: "std_search (content b) kCRLF < length (content b)"
    using std_search_le [of "content b" kCRLF] by simp
  show "p = peek b + std_search (content b) kCRLF" "peek b \<le> p" using i by simp_all
  show "p + 2 \<le> beginWrite b"
    using std_search_fits [OF lt] i assms(1)
    by (auto simp: length_content readableBytes_def peek_def beginWrite_def buffer_wf_def)
qed

lemma findCRLF_None_iff:
  assumes "buffer_wf b"
  shows "findCRLF b = None \<longleftrightarrow> std_search (content b) kCRLF = length (content b)"
  by (simp add: findCRLF_eq [OF assms] Let_def)

subsection \<open>Reading from a descriptor\<close>

text \<open>The kernel stores no more than the vectors it was given can hold.\<close>

definition readv_bounded :: "(nat list \<Rightarrow> int + byte list) \<Rightarrow> bool" where
  "readv_bounded rv \<longleftrightarrow> (\<forall>iov data. rv iov = Inr data \<longrightarrow> length data \<le> sum_list iov)"

definition readFd_iov :: "Buffer \<Rightarrow> nat list" where
  "readFd_iov b =
     (if writableBytes b < extrabufSize then [writableBytes b, extrabufSize] else [writableBytes b])"

lemma readFd_data:
  assumes wf: "buffer_wf b" and rv: "rv (readFd_iov b) = Inr data"
  shows "\<exists>b'. readFd rv b err = Inr (int (length data), err, b') \<and> buffer_wf b' \<and>
              content b' = content b @ data"
proof (cases "length data \<le> writableBytes b")
  case True
  then show ?thesis using write_in_place [OF wf True] rv
    by (simp add: readFd_def readFd_iov_def Let_def)
next
  case False
  let ?d = "take (writableBytes b) data"
  have len: "length ?d = writableBytes b" using False by simp
  then have fits: "length ?d \<le> writableBytes b" by simp
  let ?b1 = "b\<lparr>buffer := write_at (buffer b) (writerIndex b) ?d,
               writerIndex := writerIndex b + length ?d\<rparr>"
  have size: "length (write_at (buffer b) (writerIndex b) ?d) = writerIndex b + length ?d"
    using wf len by (simp add: length_write_at buffer_wf_def writableBytes_def)
  obtain b2 where b2: "append_data ?b1 (drop (writableBytes b) data) = Inr b2" "buffer_wf b2"
    "content b2 = content ?b1 @ drop (writableBytes b) data"
    using append_data_ok [OF write_in_place(1) [OF wf fits]] by blast
  have "content b2 = content b @ data"
    using b2(3) write_in_place(2) [OF wf fits] by simp
  moreover have "readFd rv b err = Inr (int (length data), err, b2)"
    using False rv b2(1) size by (simp add: readFd_def readFd_iov_def Let_def)
  ultimately show ?thesis using b2(2) by blast
qed

lemma readFd_error: "rv (readFd_iov b) = Inl e \<Longrightarrow> readFd rv b err = Inr (-1, e, b)"
  by (simp add: readFd_def readFd_iov_def Let_def)

subsection \<open>The interface: a queue of bytes\<close>

text \<open>
  What the connection, the parsers and the codecs rely on: bytes are added at the end, taken
  from the front, and nothing else happens to them. \<open>qop\<close> is one call of a client,
  \<open>run_qops\<close> a sequence of calls on an implementation (ending at the first assertion that
  fails), \<open>spec_qops\<close> the same sequence on a plain list.
\<close>

datatype qop = Enq "byte list" | Deq nat

fun run_qops :: "('q \<Rightarrow> byte list \<Rightarrow> 'q res) \<Rightarrow> ('q \<Rightarrow> nat \<Rightarrow> 'q res) \<Rightarrow> qop list \<Rightarrow> 'q \<Rightarrow> 'q res" where
  "run_qops enq deq [] q = Inr q"
| "run_qops enq deq (Enq xs # ops) q = rbind (enq q xs) (run_qops enq deq ops)"
| "run_qops enq deq (Deq n # ops) q = rbind (deq q n) (run_qops enq deq ops)"

fun spec_qops :: "qop list \<Rightarrow> byte list \<Rightarrow> byte list option" where
  "spec_qops [] xs = Some xs"
| "spec_qops (Enq ys # ops) xs = spec_qops ops (xs @ ys)"
| "spec_qops (Deq n # ops) xs = (if n \<le> length xs then spec_qops ops (drop n xs) else None)"

locale byte_queue =
  fixes invar :: "'q \<Rightarrow> bool"
    and contents :: "'q \<Rightarrow> byte list"
    and enq :: "'q \<Rightarrow> byte list \<Rightarrow> 'q res"
    and deq :: "'q \<Rightarrow> nat \<Rightarrow> 'q res"
  assumes enq_ok: "invar q \<Longrightarrow> \<exists>q'. enq q xs = Inr q' \<and> invar q' \<and> contents q' = contents q @ xs"
    and deq_ok: "invar q \<Longrightarrow> n \<le> length (contents q) \<Longrightarrow>
          \<exists>q'. deq q n = Inr q' \<and> invar q' \<and> contents q' = drop n (contents q)"
    and deq_short: "invar q \<Longrightarrow> length (contents q) < n \<Longrightarrow> \<exists>e. deq q n = Inl e"
begin

lemma run_refines_Some:
  "invar q \<Longrightarrow> spec_qops ops (contents q) = Some ys \<Longrightarrow>
   \<exists>q'. run_qops enq deq ops q = Inr q' \<and> invar q' \<and> contents q' = ys"
proof (induction ops arbitrary: q)
  case Nil
  then show ?case by simp
next
  case (Cons op ops)
  show ?case
  proof (cases op)
    case (Enq xs)
    then show ?thesis using Cons enq_ok [of q xs] by fastforce
  next
    case (Deq n)
    then have n: "n \<le> length (contents q)" using Cons.prems by (simp split: if_splits)
    then show ?thesis using Cons Deq deq_ok [OF Cons.prems(1) n] by fastforce
  qed
qed

lemma run_refines_None:
  "invar q \<Longrightarrow> spec_qops ops (contents q) = None \<Longrightarrow> \<exists>e. run_qops enq deq ops q = Inl e"
proof (induction ops arbitrary: q)
  case Nil
  then show ?case by simp
next
  case (Cons op ops)
  show ?case
  proof (cases op)
    case (Enq xs)
    then show ?thesis using Cons enq_ok [of q xs] by fastforce
  next
    case (Deq n)
    show ?thesis
    proof (cases "n \<le> length (contents q)")
      case True
      then show ?thesis using Cons Deq deq_ok [OF Cons.prems(1) True] by fastforce
    next
      case False
      then obtain e where "deq q n = Inl e" using deq_short Cons.prems(1) by fastforce
      then show ?thesis using Deq by simp
    qed
  qed
qed

lemma run_refines:
  "invar q \<Longrightarrow>
   (case spec_qops ops (contents q) of
      None \<Rightarrow> \<exists>e. run_qops enq deq ops q = Inl e
    | Some ys \<Rightarrow> \<exists>q'. run_qops enq deq ops q = Inr q' \<and> invar q' \<and> contents q' = ys)"
  using run_refines_Some run_refines_None by (simp split: option.split)

text \<open>Taking what was put in after what was there before: the first \<open>n\<close> bytes are the oldest.\<close>

lemma enq_then_drain:
  assumes "invar q"
  shows "\<exists>q1 q2. enq q xs = Inr q1 \<and> deq q1 (length (contents q)) = Inr q2 \<and> invar q2 \<and> contents q2 = xs"
proof -
  obtain q1 where q1: "enq q xs = Inr q1" "invar q1" "contents q1 = contents q @ xs"
    using enq_ok [OF assms] by blast
  then show ?thesis using deq_ok [of q1 "length (contents q)"] by force
qed

end

text \<open>A queue that also takes bytes at the front, as long as there is room before the head.\<close>

locale prependable_queue = byte_queue +
  fixes room :: "'a \<Rightarrow> nat"
    and push :: "'a \<Rightarrow> byte list \<Rightarrow> 'a res"
  assumes push_ok: "invar q \<Longrightarrow> length xs \<le> room q \<Longrightarrow>
          \<exists>q'. push q xs = Inr q' \<and> invar q' \<and> contents q' = xs @ contents q"
    and push_full: "invar q \<Longrightarrow> room q < length xs \<Longrightarrow> \<exists>e. push q xs = Inl e"
begin

lemma push_then_deq:
  assumes "invar q" "length xs \<le> room q"
  shows "\<exists>q1 q2. push q xs = Inr q1 \<and> deq q1 (length xs) = Inr q2 \<and> invar q2 \<and> contents q2 = contents q"
proof -
  obtain q1 where q1: "push q xs = Inr q1" "invar q1" "contents q1 = xs @ contents q"
    using push_ok [OF assms] by blast
  then show ?thesis using deq_ok [of q1 "length xs"] by force
qed

end

interpretation bq: prependable_queue buffer_wf content append_data retrieve prependableBytes prepend
proof (unfold_locales, goal_cases)
  case (1 q xs)
  then show ?case by (rule append_data_ok)
next
  case (2 q n)
  then show ?case using retrieve_ok by (simp add: length_content)
next
  case (3 q n)
  then show ?case using retrieve_short by (simp add: length_content)
next
  case (4 q xs)
  then show ?case by (rule prepend_ok)
next
  case (5 q xs)
  then show ?case by (simp add: prepend_def ensure_def)
qed

subsection \<open>Buffers a program can build\<close>

text \<open>\<open>buffer_reach\<close> holds of every buffer that a sequence of calls of the public mutators
  leads to, the constructor first, as long as no assertion fails.\<close>

inductive buffer_reach :: "Buffer \<Rightarrow> bool" where
  reach_new: "new_Buffer n = Inr b \<Longrightarrow> buffer_reach b"
| reach_retrieve: "buffer_reach b \<Longrightarrow> retrieve b n = Inr b' \<Longrightarrow> buffer_reach b'"
| reach_retrieveUntil: "buffer_reach b \<Longrightarrow> retrieveUntil b p = Inr b' \<Longrightarrow> buffer_reach b'"
| reach_retrieveAll: "buffer_reach b \<Longrightarrow> buffer_reach (retrieveAll b)"
| reach_retrieveAsString: "buffer_reach b \<Longrightarrow> retrieveAsString b n = Inr (str, b') \<Longrightarrow> buffer_reach b'"
| reach_ensureWritable: "buffer_reach b \<Longrightarrow> ensureWritableBytes b n = Inr b' \<Longrightarrow> buffer_reach b'"
| reach_append: "buffer_reach b \<Longrightarrow> append_data b xs = Inr b' \<Longrightarrow> buffer_reach b'"
| reach_hasWritten: "buffer_reach b \<Longrightarrow> hasWritten b n = Inr b' \<Longrightarrow> buffer_reach b'"
| reach_unwrite: "buffer_reach b \<Longrightarrow> unwrite b n = Inr b' \<Longrightarrow> buffer_reach b'"
| reach_prepend: "buffer_reach b \<Longrightarrow> prepend b xs = Inr b' \<Longrightarrow> buffer_reach b'"
| reach_shrink: "buffer_reach b \<Longrightarrow> shrink b n = Inr b' \<Longrightarrow> buffer_reach b'"
| reach_swap: "buffer_reach b \<Longrightarrow> buffer_reach c \<Longrightarrow> buffer_reach (fst (swap_buffers b c))"
| reach_readFd: "buffer_reach b \<Longrightarrow> readFd rv b e = Inr (n, e', b') \<Longrightarrow> buffer_reach b'"

lemma retrieve_wf [wf_intros]: "buffer_wf b \<Longrightarrow> retrieve b n = Inr b' \<Longrightarrow> buffer_wf b'"
  using retrieve_ok [of b n] by (auto simp: retrieve_def)

lemma hasWritten_wf [wf_intros]: "buffer_wf b \<Longrightarrow> hasWritten b n = Inr b' \<Longrightarrow> buffer_wf b'"
  by (auto simp: hasWritten_def buffer_wf_def writableBytes_def)

lemma readFd_wf [wf_intros]:
  assumes "buffer_wf b" "readFd rv b e = Inr (n, e', b')"
  shows "buffer_wf b'"
proof (cases "rv (readFd_iov b)")
  case (Inl err)
  then show ?thesis using assms readFd_error [of rv b err e] by simp
next
  case (Inr data)
  then show ?thesis using assms readFd_data [of b rv data e] by auto
qed

lemma buffer_reach_wf: "buffer_reach b \<Longrightarrow> buffer_wf b"
proof (induction rule: buffer_reach.induct)
  case (reach_new n b)
  then show ?case by (auto simp: new_Buffer_def)
next
  case (reach_retrieveUntil b p b')
  then show ?case by (auto simp: retrieveUntil_def intro: wf_intros)
next
  case (reach_retrieveAsString b n str b')
  then show ?case by (auto simp: retrieveAsString_def Let_def intro: wf_intros)
next
  case (reach_ensureWritable b n b')
  then show ?case using ensureWritableBytes_ok [of b n] by auto
next
  case (reach_append b xs b')
  then show ?case using append_data_ok [of b xs] by auto
next
  case (reach_unwrite b n b')
  then show ?case using unwrite_ok [of b n] by (auto simp: unwrite_def)
next
  case (reach_prepend b xs b')
  then show ?case using prepend_ok [of b xs] by (auto simp: prepend_def)
next
  case (reach_shrink b n b')
  then show ?case using shrink_ok [of b n] by auto
next
  case (reach_swap b c)
  then show ?case by (simp add: swap_buffers_def buffer_wf_def)
qed (auto intro: wf_intros)

subsection \<open>Integers\<close>

lemma peekInt32_content:
  assumes "buffer_wf b" "content b = mem_bytes e 4 (hostToNetwork32 e x) @ ys"
  shows "peekInt32 e b = Inr x"
proof -
  have "4 \<le> readableBytes b" using length_content [OF assms(1)] assms(2) by simp
  then show ?thesis using assms content_prefix [OF assms(1), of 4]
    by (simp add: peekInt32_def bytes_mem_mem_bytes)
qed

lemma peekInt16_content:
  assumes "buffer_wf b" "content b = mem_bytes e 2 (hostToNetwork16 e x) @ ys"
  shows "peekInt16 e b = Inr x"
proof -
  have "2 \<le> readableBytes b" using length_content [OF assms(1)] assms(2) by simp
  then show ?thesis using assms content_prefix [OF assms(1), of 2]
    by (simp add: peekInt16_def bytes_mem_mem_bytes)
qed

lemma readInt32_content:
  assumes "buffer_wf b" "content b = mem_bytes e 4 (hostToNetwork32 e x) @ ys"
  shows "\<exists>b'. readInt32 e b = Inr (x, b') \<and> buffer_wf b' \<and> content b' = ys"
proof -
  have "4 \<le> readableBytes b" using length_content [OF assms(1)] assms(2) by simp
  then show ?thesis using retrieve_ok [OF assms(1), of 4] peekInt32_content [OF assms] assms(2)
    by (auto simp: readInt32_def retrieveInt32_def)
qed

lemma readInt16_content:
  assumes "buffer_wf b" "content b = mem_bytes e 2 (hostToNetwork16 e x) @ ys"
  shows "\<exists>b'. readInt16 e b = Inr (x, b') \<and> buffer_wf b' \<and> content b' = ys"
proof -
  have "2 \<le> readableBytes b" using length_content [OF assms(1)] assms(2) by simp
  then show ?thesis using retrieve_ok [OF assms(1), of 2] peekInt16_content [OF assms] assms(2)
    by (auto simp: readInt16_def retrieveInt16_def)
qed

subsection \<open>Growth\<close>

lemma append_growth_aux:
  assumes "buffer_wf b"
  shows "\<exists>b'. append_data b xs = Inr b' \<and> content b' = content b @ xs \<and>
    length (buffer b') =
      (if length xs \<le> writableBytes b \<or>
          length xs + kCheapPrepend \<le> writableBytes b + prependableBytes b
       then length (buffer b) else writerIndex b + length xs) \<and>
    readerIndex b' =
      (if \<not> length xs \<le> writableBytes b \<and>
          length xs + kCheapPrepend \<le> writableBytes b + prependableBytes b
       then kCheapPrepend else readerIndex b)"
proof -
  obtain b' where b': "append_data b xs = Inr b'" "content b' = content b @ xs"
    using append_data_ok [OF assms] by blast
  have le: "readerIndex b \<le> writerIndex b" "writerIndex b \<le> length (buffer b)"
    "kCheapPrepend \<le> length (buffer b)"
    using assms by (simp_all add: buffer_wf_def)
  consider (room) "length xs \<le> writableBytes b"
    | (grow) "writableBytes b < length xs"
        "writableBytes b + prependableBytes b < length xs + kCheapPrepend"
    | (move) "writableBytes b < length xs"
        "length xs + kCheapPrepend \<le> writableBytes b + prependableBytes b"
    by linarith
  then show ?thesis
  proof cases
    case room
    then have "writerIndex b + length xs \<le> length (buffer b)"
      using le by (simp add: writableBytes_def)
    then show ?thesis using room b'
      by (auto simp: append_data_def ensureWritableBytes_def hasWritten_def beginWrite_def
          length_write_at)
  next
    case grow
    then show ?thesis using b' le
      by (auto simp: append_data_def ensureWritableBytes_def makeSpace_def hasWritten_def
          beginWrite_def length_write_at)
  next
    case move
    have "kCheapPrepend + (writerIndex b - readerIndex b) + length xs \<le> length (buffer b)"
      using move le by (auto simp: writableBytes_def prependableBytes_def)
    moreover have "length (subrange (buffer b) (readerIndex b) (writerIndex b)) =
        writerIndex b - readerIndex b"
      using le by (simp add: length_subrange)
    ultimately show ?thesis using move b' le
      by (auto simp: append_data_def ensureWritableBytes_def makeSpace_def hasWritten_def
          beginWrite_def readableBytes_def length_write_at Let_def)
  qed
qed

subsection \<open>Properties\<close>



text \<open>C4: The buffer implements a queue of bytes: from any well-formed buffer a sequence of
  \<open>append\<close> and \<open>retrieve\<close> calls passes its assertions exactly when the same sequence makes
  sense on the list of readable bytes, and then leaves exactly the bytes the list holds.\<close>

theorem buffer_refines_queue:
  assumes "buffer_wf b"
  shows "case spec_qops ops (content b) of
      None \<Rightarrow> \<exists>e. run_qops append_data retrieve ops b = Inl e
    | Some ys \<Rightarrow> \<exists>b'. run_qops append_data retrieve ops b = Inr b' \<and> buffer_wf b' \<and> content b' = ys"
  using assms by (rule bq.run_refines)

theorem buffer_refines_queue_witness:
  "\<exists>b'. run_qops append_data retrieve [Enq ''HTTP'', Deq 1, Enq ''!''] fresh_buffer = Inr b' \<and>
        buffer_wf b' \<and> content b' = ''TTP!''"
  using buffer_refines_queue [OF buffer_wf_fresh, of "[Enq ''HTTP'', Deq 1, Enq ''!'']"] by simp

text \<open>\<open>append\<close> grows the vector only when the free space before and after the readable
  bytes, less the reserved prefix, cannot hold the data; then the vector ends exactly at the
  last byte written. Otherwise the size does not change and the bytes move to the front when
  the room at the end is too small.\<close>

lemma append_growth:
  assumes "buffer_wf b"
  shows "\<exists>b'. append_data b xs = Inr b' \<and> content b' = content b @ xs \<and>
    length (buffer b') =
      (if length xs \<le> writableBytes b \<or>
          length xs + kCheapPrepend \<le> writableBytes b + prependableBytes b
       then length (buffer b) else writerIndex b + length xs) \<and>
    readerIndex b' =
      (if \<not> length xs \<le> writableBytes b \<and>
          length xs + kCheapPrepend \<le> writableBytes b + prependableBytes b
       then kCheapPrepend else readerIndex b)"
  using assms by (rule append_growth_aux)

text \<open>C35: An integer written with \<open>appendInt32\<close> or \<open>appendInt16\<close> behind bytes already in the
  buffer is read back unchanged by \<open>readInt32\<close> or \<open>readInt16\<close> once those bytes are consumed,
  and its bytes in the buffer are the big-endian ones, on a little-endian and on a big-endian
  host.\<close>

theorem buffer_int_roundtrip:
  assumes "buffer_wf b"
  shows "(\<exists>b1 b2 b3. appendInt32 e b x = Inr b1 \<and>
            content b1 = content b @ rev (nat_bytes_le 4 (unat x)) \<and>
            retrieve b1 (readableBytes b) = Inr b2 \<and> readInt32 e b2 = Inr (x, b3) \<and> content b3 = []) \<and>
         (\<exists>b1 b2 b3. appendInt16 e b y = Inr b1 \<and>
            content b1 = content b @ rev (nat_bytes_le 2 (unat y)) \<and>
            retrieve b1 (readableBytes b) = Inr b2 \<and> readInt16 e b2 = Inr (y, b3) \<and> content b3 = [])"
proof -
  let ?w = "mem_bytes e 4 (hostToNetwork32 e x)" and ?v = "mem_bytes e 2 (hostToNetwork16 e y)"
  obtain b1 b2 where b: "append_data b ?w = Inr b1" "retrieve b1 (readableBytes b) = Inr b2"
    "buffer_wf b2" "content b2 = ?w"
    using bq.enq_then_drain [OF assms, of ?w] length_content [OF assms] by auto
  obtain c1 c2 where c: "append_data b ?v = Inr c1" "retrieve c1 (readableBytes b) = Inr c2"
    "buffer_wf c2" "content c2 = ?v"
    using bq.enq_then_drain [OF assms, of ?v] length_content [OF assms] by auto
  have "content b1 = content b @ ?w" "content c1 = content b @ ?v"
    using append_data_content [OF assms] b(1) c(1) by simp_all
  then show ?thesis
    using b c readInt32_content [of b2 e x "[]"] readInt16_content [of c2 e y "[]"]
    by (auto simp: appendInt32_def appendInt16_def mem_bytes_hostToNetwork)
qed

theorem buffer_int_roundtrip_witness:
  "\<exists>b1 b2 b3. appendInt32 LittleEndian fresh_buffer 258 = Inr b1 \<and>
     content b1 = [CHR 0x00, CHR 0x00, CHR 0x01, CHR 0x02] \<and>
     retrieve b1 0 = Inr b2 \<and> readInt32 LittleEndian b2 = Inr (258, b3) \<and> content b3 = []"
proof -
  have "rev (nat_bytes_le 4 258) = [CHR 0x00, CHR 0x00, CHR 0x01, CHR 0x02]" by code_simp
  then show ?thesis using buffer_int_roundtrip [OF buffer_wf_fresh, of LittleEndian 258 0] by simp
qed

text \<open>A 32-bit length put in front of a message with \<open>prependInt32\<close>, as the length-prefixed
  codecs do, is read back by \<open>readInt32\<close>, which leaves the message as it was; with fewer than
  four prependable bytes the assertion of \<open>prepend\<close> fails.\<close>

lemma prepend_int_roundtrip:
  assumes "buffer_wf b"
  shows "if 4 \<le> prependableBytes b
    then \<exists>b1 b2. prependInt32 e b x = Inr b1 \<and> readInt32 e b1 = Inr (x, b2) \<and> content b2 = content b
    else \<exists>err. prependInt32 e b x = Inl err"
proof -
  let ?w = "mem_bytes e 4 (hostToNetwork32 e x)"
  show ?thesis
  proof (cases "4 \<le> prependableBytes b")
    case True
    then obtain b1 where b1: "prepend b ?w = Inr b1" "buffer_wf b1" "content b1 = ?w @ content b"
      using prepend_ok [OF assms, of ?w] by auto
    then show ?thesis using True readInt32_content [OF b1(2,3)] by (auto simp: prependInt32_def)
  next
    case False
    then show ?thesis using bq.push_full [OF assms, of ?w] by (simp add: prependInt32_def)
  qed
qed

text \<open>C34: \<open>readFd\<close> appends exactly the bytes the kernel delivered, in order and whether or not
  they spill into the extra buffer, returns their number, reads at most 128k-1 bytes when the
  extra buffer is in use, and on an error changes nothing but the saved error number.\<close>

theorem readFd_correct:
  assumes "buffer_wf b" and "readv_bounded rv"
  shows "case rv (readFd_iov b) of
      Inl err \<Rightarrow> readFd rv b e = Inr (-1, err, b)
    | Inr data \<Rightarrow> (\<exists>b'. readFd rv b e = Inr (int (length data), e, b') \<and> buffer_wf b' \<and>
          content b' = content b @ data) \<and>
        (writableBytes b < 65536 \<longrightarrow> length data \<le> 128 * 1024 - 1)"
proof (cases "rv (readFd_iov b)")
  case (Inl err)
  then show ?thesis using readFd_error [of rv b err e] by simp
next
  case (Inr data)
  then have "length data \<le> sum_list (readFd_iov b)" using assms(2) by (simp add: readv_bounded_def)
  then have "writableBytes b < 65536 \<Longrightarrow> length data \<le> 128 * 1024 - 1"
    by (auto simp: readFd_iov_def extrabufSize_def)
  then show ?thesis using readFd_data [of b rv data e] assms(1) Inr by simp
qed

theorem readFd_correct_witness:
  "\<exists>b'. readFd (\<lambda>iov. Inr (take (sum_list iov) ''abc'')) fresh_buffer 0 = Inr (3, 0, b') \<and>
        content b' = ''abc''"
  using readFd_correct [OF buffer_wf_fresh, of "\<lambda>iov. Inr (take (sum_list iov) ''abc'')" 0]
  by (auto simp: readv_bounded_def readFd_iov_def extrabufSize_def)

text \<open>\<open>findCRLF\<close> returns the first carriage return, line feed pair among the readable
  bytes, and the null pointer only when there is none.\<close>

lemma findCRLF_first:
  assumes "buffer_wf b"
  shows "case findCRLF b of
      None \<Rightarrow> (\<forall>i. take 2 (drop i (content b)) \<noteq> kCRLF)
    | Some p \<Rightarrow> peek b \<le> p \<and> p + 2 \<le> beginWrite b \<and>
        take 2 (drop (p - peek b) (content b)) = kCRLF \<and>
        (\<forall>i < p - peek b. take 2 (drop i (content b)) \<noteq> kCRLF)"
proof (cases "findCRLF b")
  case None
  then have none: "std_search (content b) kCRLF = length (content b)"
    using assms by (simp add: findCRLF_None_iff)
  have "take 2 (drop i (content b)) \<noteq> kCRLF" for i
  proof (cases "i < length (content b)")
    case True
    then show ?thesis using std_search_minimal [of i "content b" kCRLF] none by simp
  next
    case False
    then show ?thesis by simp
  qed
  then show ?thesis using None by simp
next
  case (Some p)
  note p = findCRLF_Some [OF assms Some]
  then have "take 2 (drop (p - peek b) (content b)) = kCRLF"
    using std_search_match [OF p(4)] by simp
  moreover have "\<forall>i < p - peek b. take 2 (drop i (content b)) \<noteq> kCRLF"
    using std_search_minimal [of _ "content b" kCRLF] p(1) by simp
  ultimately show ?thesis using Some p by simp
qed

text \<open>The size handed to the constructor is not used: the vector always has
  \<open>kCheapPrepend + kInitialSize\<close> bytes, and the constructor's own assertion fails for every
  size but the default one.\<close>

lemma new_Buffer_ignores_size: "new_Buffer n = (if n = 1024 then Inr fresh_buffer
    else Inl (AssertionFailed ''writableBytes() == initialSize''))"
  by (simp add: new_Buffer_def ensure_def kCheapPrepend_def)

text \<open>\<open>shrink\<close> keeps the readable bytes and leaves a vector that is exactly as large as
  the bytes and the reserve need, or as large as a fresh buffer if that is more.\<close>

lemma shrink_exact:
  assumes "buffer_wf b"
  shows "\<exists>b'. shrink b reserve = Inr b' \<and> content b' = content b \<and> readerIndex b' = kCheapPrepend \<and>
    length (buffer b') = kCheapPrepend + max kInitialSize (readableBytes b + reserve)"
proof -
  let ?n = "readableBytes b + reserve"
  let ?o = "if 1024 < ?n then fresh_buffer\<lparr>buffer := vec_resize (buffer fresh_buffer) (8 + ?n)\<rparr>
            else fresh_buffer"
  have ew: "ensureWritableBytes fresh_buffer ?n = Inr ?o"
    by (simp add: ensureWritableBytes_def makeSpace_def kCheapPrepend_def writableBytes_def)
  then have wf: "buffer_wf ?o" and c: "content ?o = []"
    using ensureWritableBytes_ok [OF buffer_wf_fresh, of ?n] by auto
  have sz: "length (buffer ?o) = 8 + max 1024 ?n" "writableBytes ?o = max 1024 ?n" "readerIndex ?o = 8"
    by (auto simp: writableBytes_def max_def)
  obtain o2 where o2: "append_data ?o (content b) = Inr o2" "content o2 = content b"
    "length (buffer o2) = length (buffer ?o)" "readerIndex o2 = 8"
    using append_growth_aux [OF wf, of "content b"] c sz length_content [OF assms] by auto
  have "shrink b reserve = Inr (fst (swap_buffers b o2))"
    unfolding shrink_def by (simp add: new_Buffer_default ew o2(1) toStringPiece_content [OF assms])
  then show ?thesis using o2 sz by (simp add: swap_buffers_def content_def size_defs)
qed

end
