(* ===== verification/StringPiece.thy ===== *)
theory StringPiece
  imports Prelude "HOL-Library.List_Lexorder" "HOL-Library.Char_ord"
begin

section \<open>String views (src/src/StringPiece.h)\<close>

text \<open>
  A \<open>StringPiece\<close> is a pointer and a length. The pointer is modelled by the bytes it points
  to, as far as the memory behind it goes; the null pointer has none. \<open>strlen\<close> reads up to
  the first zero byte.

  The lemmas show that the comparison operators order views as their strings, and what the
  constructor from a \<open>std::string\<close> does to a string with a zero byte inside.
\<close>

record StringPiece =
  sp_ptr :: "byte list"
  sp_length :: int

definition strlen :: "byte list \<Rightarrow> nat" where
  "strlen bs = std_find bs (CHR 0x00)"

definition memcmp :: "byte list \<Rightarrow> byte list \<Rightarrow> nat \<Rightarrow> int" where
  "memcmp a b n = (if take n a = take n b then 0 else if take n a < take n b then -1 else 1)"

definition StringPiece_empty :: StringPiece where
  "StringPiece_empty = \<lparr>sp_ptr = [], sp_length = 0\<rparr>"

text \<open>From a C string: \<open>str\<close> is the text with its final zero byte and what follows it.\<close>

definition StringPiece_cstr :: "byte list \<Rightarrow> StringPiece" where
  "StringPiece_cstr str = \<lparr>sp_ptr = str, sp_length = int (strlen str)\<rparr>"

text \<open>From a \<open>std::string\<close>: \<open>str.data()\<close> is followed by a zero byte.\<close>

definition StringPiece_string :: "string \<Rightarrow> StringPiece" where
  "StringPiece_string str = \<lparr>sp_ptr = str @ [CHR 0x00], sp_length = int (strlen (str @ [CHR 0x00]))\<rparr>"

definition StringPiece_len :: "byte list \<Rightarrow> int \<Rightarrow> StringPiece" where
  "StringPiece_len offset len = \<lparr>sp_ptr = offset, sp_length = len\<rparr>"

definition sp_empty :: "StringPiece \<Rightarrow> bool" where
  "sp_empty p \<longleftrightarrow> sp_length p = 0"

definition sp_clear :: "StringPiece \<Rightarrow> StringPiece" where
  "sp_clear p = p\<lparr>sp_ptr := [], sp_length := 0\<rparr>"

definition sp_set :: "StringPiece \<Rightarrow> byte list \<Rightarrow> int \<Rightarrow> StringPiece" where
  "sp_set p buf len = p\<lparr>sp_ptr := buf, sp_length := len\<rparr>"

definition sp_remove_prefix :: "StringPiece \<Rightarrow> nat \<Rightarrow> StringPiece" where
  "sp_remove_prefix p n = p\<lparr>sp_ptr := drop n (sp_ptr p), sp_length := sp_length p - int n\<rparr>"

definition sp_remove_suffix :: "StringPiece \<Rightarrow> nat \<Rightarrow> StringPiece" where
  "sp_remove_suffix p n = p\<lparr>sp_length := sp_length p - int n\<rparr>"

definition sp_eq :: "StringPiece \<Rightarrow> StringPiece \<Rightarrow> bool" where
  "sp_eq p x \<longleftrightarrow> sp_length p = sp_length x \<and> memcmp (sp_ptr p) (sp_ptr x) (nat (sp_length p)) = 0"

definition sp_neq :: "StringPiece \<Rightarrow> StringPiece \<Rightarrow> bool" where
  "sp_neq p x \<longleftrightarrow> \<not> sp_eq p x"

definition sp_common :: "StringPiece \<Rightarrow> StringPiece \<Rightarrow> int" where
  "sp_common p x =
     memcmp (sp_ptr p) (sp_ptr x) (nat (if sp_length p < sp_length x then sp_length p else sp_length x))"

definition sp_less :: "StringPiece \<Rightarrow> StringPiece \<Rightarrow> bool" where
  "sp_less p x \<longleftrightarrow> (let r = sp_common p x in r < 0 \<or> (r = 0 \<and> sp_length p < sp_length x))"

definition sp_less_eq :: "StringPiece \<Rightarrow> StringPiece \<Rightarrow> bool" where
  "sp_less_eq p x \<longleftrightarrow> (let r = sp_common p x in r < 0 \<or> (r = 0 \<and> sp_length p \<le> sp_length x))"

definition sp_greater_eq :: "StringPiece \<Rightarrow> StringPiece \<Rightarrow> bool" where
  "sp_greater_eq p x \<longleftrightarrow> (let r = sp_common p x in r > 0 \<or> (r = 0 \<and> sp_length p \<ge> sp_length x))"

definition sp_greater :: "StringPiece \<Rightarrow> StringPiece \<Rightarrow> bool" where
  "sp_greater p x \<longleftrightarrow> (let r = sp_common p x in r > 0 \<or> (r = 0 \<and> sp_length p > sp_length x))"

definition sp_compare :: "StringPiece \<Rightarrow> StringPiece \<Rightarrow> int" where
  "sp_compare p x =
     (let r = sp_common p x
      in if r = 0 then (if sp_length p < sp_length x then -1
                        else if sp_length p > sp_length x then 1 else r)
         else r)"

definition as_string :: "StringPiece \<Rightarrow> string" where
  "as_string p = take (nat (sp_length p)) (sp_ptr p)"

definition starts_with :: "StringPiece \<Rightarrow> StringPiece \<Rightarrow> bool" where
  "starts_with p x \<longleftrightarrow>
     sp_length p \<ge> sp_length x \<and> memcmp (sp_ptr p) (sp_ptr x) (nat (sp_length x)) = 0"

definition CopyToString :: "StringPiece \<Rightarrow> string \<Rightarrow> string" where
  "CopyToString p target = take (nat (sp_length p)) (sp_ptr p)"

text \<open>The index is not checked against the length; outside the memory behind the pointer the access has no
  value.\<close>

definition sp_at :: "StringPiece \<Rightarrow> int \<Rightarrow> byte option" where
  "sp_at p i = (if 0 \<le> i \<and> nat i < length (sp_ptr p) then Some (sp_ptr p ! nat i) else None)"

text \<open>\<open>StringArg\<close>: a C string given as such or as the \<open>c_str()\<close> of a \<open>std::string\<close>.\<close>

definition StringArg_cstr :: "byte list \<Rightarrow> byte list" where
  "StringArg_cstr str = str"

definition StringArg_string :: "string \<Rightarrow> byte list" where
  "StringArg_string str = str @ [CHR 0x00]"

text \<open>A view lies inside the memory it points to.\<close>

definition sp_wf :: "StringPiece \<Rightarrow> bool" where
  "sp_wf p \<longleftrightarrow> 0 \<le> sp_length p \<and> nat (sp_length p) \<le> length (sp_ptr p)"

lemma length_as_string: "sp_wf p \<Longrightarrow> length (as_string p) = nat (sp_length p)"
  by (simp add: sp_wf_def as_string_def)

lemma sp_at_wf: "sp_wf p \<Longrightarrow> 0 \<le> i \<Longrightarrow> i < sp_length p \<Longrightarrow> sp_at p i = Some (as_string p ! nat i)"
  by (auto simp: sp_wf_def sp_at_def as_string_def)

lemma CopyToString_as_string: "CopyToString p target = as_string p"
  by (simp add: CopyToString_def as_string_def)

lemma as_string_cstr: "as_string (StringPiece_cstr bs) = takeWhile (\<lambda>c. c \<noteq> CHR 0x00) bs"
  by (simp add: as_string_def StringPiece_cstr_def strlen_def take_std_find)

lemma as_string_string: "as_string (StringPiece_string str) = takeWhile (\<lambda>c. c \<noteq> CHR 0x00) str"
  by (simp add: as_string_def StringPiece_string_def strlen_def take_std_find takeWhile_tail
      del: take_append)

lemma sp_wf_string [simp]: "sp_wf (StringPiece_string str)"
  using std_find_le [of "str @ [CHR 0x00]" "CHR 0x00"]
  by (simp add: sp_wf_def StringPiece_string_def strlen_def)

subsection \<open>Lexicographic order of lists by their common prefix\<close>

lemma list_less_by_prefix:
  fixes xs ys :: "'a::linorder list"
  shows "xs < ys \<longleftrightarrow>
    (let n = min (length xs) (length ys)
     in take n xs < take n ys \<or> (take n xs = take n ys \<and> length xs < length ys))"
proof (induction xs arbitrary: ys)
  case Nil
  then show ?case by (cases ys) auto
next
  case (Cons x xs)
  then show ?case by (cases ys) (auto simp: Let_def)
qed

lemma three_way:
  "(A \<Longrightarrow> \<not> B) \<Longrightarrow>
   sgn (let r = if B then 0 else if A then -1 else (1::int)
        in if r = 0 then (if int m < int n then -1 else if int m > int n then 1 else r) else r) =
   (if A \<or> B \<and> m < n then -1 else if B \<and> m = n then 0 else 1)"
  by (cases A; cases B) auto

lemma sp_common_min:
  assumes "sp_wf p" "sp_wf x"
  shows "sp_common p x =
    (let n = min (length (as_string p)) (length (as_string x))
     in if take n (as_string p) = take n (as_string x) then 0
        else if take n (as_string p) < take n (as_string x) then -1 else 1)"
proof -
  let ?n = "min (length (as_string p)) (length (as_string x))"
  have n: "nat (if sp_length p < sp_length x then sp_length p else sp_length x) = ?n"
    using assms by (auto simp: length_as_string min_def sp_wf_def nat_le_eq_zle)
  have "take ?n (as_string p) = take ?n (sp_ptr p)" "take ?n (as_string x) = take ?n (sp_ptr x)"
    using assms by (simp_all add: length_as_string, simp_all add: as_string_def)
  then show ?thesis unfolding sp_common_def memcmp_def n by (simp add: Let_def)
qed

subsection \<open>Properties\<close>

text \<open>C36: The comparison operators of \<open>StringPiece\<close> agree with the lexicographic order of the
  strings the views stand for: \<open><\<close>, \<open><=\<close>, \<open>>\<close>, \<open>>=\<close> and \<open>==\<close> are that order, and
  \<open>compare\<close> is negative, zero or positive as the first string is smaller, equal or larger.\<close>

theorem StringPiece_order:
  assumes "sp_wf p" "sp_wf x"
  shows "(sp_less p x \<longleftrightarrow> as_string p < as_string x) \<and>
    (sp_less_eq p x \<longleftrightarrow> as_string p \<le> as_string x) \<and>
    (sp_greater p x \<longleftrightarrow> as_string x < as_string p) \<and>
    (sp_greater_eq p x \<longleftrightarrow> as_string x \<le> as_string p) \<and>
    (sp_eq p x \<longleftrightarrow> as_string p = as_string x) \<and>
    sgn (sp_compare p x) =
      (if as_string p < as_string x then -1 else if as_string p = as_string x then 0 else 1)"
proof -
  let ?p = "as_string p" and ?x = "as_string x"
  let ?n = "min (length ?p) (length ?x)"
  note c = sp_common_min [OF assms, unfolded Let_def]
  have len: "sp_length p = int (length ?p)" "sp_length x = int (length ?x)"
    using assms by (simp_all add: length_as_string, simp_all add: sp_wf_def)
  have less: "?p < ?x \<longleftrightarrow> take ?n ?p < take ?n ?x \<or> (take ?n ?p = take ?n ?x \<and> length ?p < length ?x)"
    by (subst list_less_by_prefix) (simp add: Let_def)
  have greater: "?x < ?p \<longleftrightarrow> take ?n ?x < take ?n ?p \<or> (take ?n ?p = take ?n ?x \<and> length ?x < length ?p)"
    by (subst list_less_by_prefix) (auto simp: Let_def min.commute)
  have eq: "?p = ?x \<longleftrightarrow> take ?n ?p = take ?n ?x \<and> length ?p = length ?x"
    by (metis min.idem take_all_iff order_refl)
  have 1: "sp_less p x \<longleftrightarrow> ?p < ?x" unfolding sp_less_def c len less by (auto simp: Let_def)
  have 2: "sp_greater p x \<longleftrightarrow> ?x < ?p"
    unfolding sp_greater_def c len greater by (auto simp: Let_def)
  have 3: "sp_less_eq p x \<longleftrightarrow> ?p < ?x \<or> ?p = ?x"
    unfolding sp_less_eq_def c len less eq by (auto simp: Let_def)
  have 4: "sp_greater_eq p x \<longleftrightarrow> ?x < ?p \<or> ?x = ?p"
    unfolding sp_greater_eq_def c len greater eq_commute [of ?x ?p] eq by (auto simp: Let_def)
  have 5: "sp_eq p x \<longleftrightarrow> ?p = ?x"
  proof
    assume "sp_eq p x"
    then show "?p = ?x" by (auto simp: sp_eq_def memcmp_def as_string_def split: if_splits)
  next
    assume e: "?p = ?x"
    then have "sp_length p = sp_length x" using len by simp
    then show "sp_eq p x" using e by (simp add: sp_eq_def memcmp_def as_string_def)
  qed
  have 6: "sgn (sp_compare p x) = (if ?p < ?x then -1 else if ?p = ?x then 0 else 1)"
    unfolding sp_compare_def c len less eq by (rule three_way) simp
  show ?thesis unfolding le_less using 1 2 3 4 5 6 by blast
qed

theorem StringPiece_order_witness:
  "sp_less (StringPiece_string ''get'') (StringPiece_string ''gets'') \<and>
   \<not> sp_eq (StringPiece_string ''get'') (StringPiece_string ''gets'')"
  using StringPiece_order [OF sp_wf_string sp_wf_string, of "''get''" "''gets''"]
  by (simp add: as_string_string)

text \<open>A view built from a \<open>std::string\<close> stands for the bytes before its first zero byte, so
  it is the whole string exactly when the string holds no zero byte.\<close>

lemma StringPiece_string_truncates:
  "as_string (StringPiece_string str) = takeWhile (\<lambda>c. c \<noteq> CHR 0x00) str \<and>
   (as_string (StringPiece_string str) = str \<longleftrightarrow> CHR 0x00 \<notin> set str)"
  by (auto simp: as_string_string takeWhile_eq_all_conv)

end
