(* ===== verification/Format.thy ===== *)
theory Format
  imports Prelude
begin

section \<open>Formatted output\<close>

text \<open>
  The conversions of \<open>snprintf\<close> that the sources use: \<open>%d\<close>, \<open>%u\<close>, \<open>%zd\<close>, the zero-padded
  \<open>%0Nd\<close> and the blank-padded \<open>%Nd\<close>, and the truncation to the size of the destination.
  The lemmas give the length of a decimal number and show that printing is injective, which
  the connection names and the time stamps rest on.
\<close>

definition digit :: "nat \<Rightarrow> char" where
  "digit n = char_of (48 + n)"

lemma digit_eqs:
  "digit 0 = CHR ''0''" "digit 1 = CHR ''1''" "digit 2 = CHR ''2''" "digit 3 = CHR ''3''" "digit 4 = CHR ''4''"
  "digit 5 = CHR ''5''" "digit 6 = CHR ''6''" "digit 7 = CHR ''7''" "digit 8 = CHR ''8''" "digit 9 = CHR ''9''"
  by code_simp+

fun dec_digits :: "nat \<Rightarrow> string" where
  "dec_digits n = (if n < 10 then [digit n] else dec_digits (n div 10) @ [digit (n mod 10)])"

declare dec_digits.simps [simp del]

definition dec_int :: "int \<Rightarrow> string" where
  "dec_int i = (if i < 0 then CHR ''-'' # dec_digits (nat (- i)) else dec_digits (nat i))"

text \<open>\<open>%0Nd\<close> puts the zeros behind the sign, \<open>%Nd\<close> puts blanks in front.\<close>

definition dec_zero :: "nat \<Rightarrow> int \<Rightarrow> string" where
  "dec_zero w i =
     (if i < 0 then CHR ''-'' # replicate (w - 1 - length (dec_digits (nat (- i)))) (CHR ''0'') @ dec_digits (nat (- i))
      else replicate (w - length (dec_digits (nat i))) (CHR ''0'') @ dec_digits (nat i))"

definition dec_blank :: "nat \<Rightarrow> int \<Rightarrow> string" where
  "dec_blank w i = replicate (w - length (dec_int i)) (CHR '' '') @ dec_int i"

text \<open>\<open>snprintf(buf, n, ...)\<close> stores at most \<open>n - 1\<close> characters and a final zero.\<close>

definition snprintf :: "nat \<Rightarrow> string \<Rightarrow> string" where
  "snprintf n s = take (n - 1) s"

lemma snprintf_fits [simp]: "length s < n \<Longrightarrow> snprintf n s = s"
  by (simp add: snprintf_def)

lemma length_snprintf: "0 < n \<Longrightarrow> length (snprintf n s) < n"
  by (auto simp: snprintf_def min_def)

text \<open>What \<open>%s\<close> prints of the \<open>c_str()\<close> of a string: the text up to its first zero byte.\<close>

definition c_str :: "string \<Rightarrow> string" where
  "c_str s = takeWhile (\<lambda>c. c \<noteq> CHR 0x00) s"

subsection \<open>Reading a number back\<close>

definition dec_value :: "string \<Rightarrow> nat" where
  "dec_value s = foldl (\<lambda>a c. 10 * a + (of_char c - 48)) 0 s"

definition is_digit :: "char \<Rightarrow> bool" where
  "is_digit c \<longleftrightarrow> 48 \<le> (of_char c :: nat) \<and> (of_char c :: nat) \<le> 57"

lemma of_char_digit: "n < 10 \<Longrightarrow> of_char (digit n) = 48 + n"
  by (simp add: digit_def)

lemma is_digit_digit [simp]: "n < 10 \<Longrightarrow> is_digit (digit n)"
  by (simp add: is_digit_def of_char_digit)

lemma dec_value_snoc: "dec_value (s @ [c]) = 10 * dec_value s + (of_char c - 48)"
  by (simp add: dec_value_def)

lemma dec_digits_is_digit: "c \<in> set (dec_digits n) \<Longrightarrow> is_digit c"
proof (induction n arbitrary: c rule: dec_digits.induct)
  case (1 n)
  show ?case
  proof (cases "n < 10")
    case True
    then show ?thesis using "1.prems" by (simp add: dec_digits.simps [of n])
  next
    case False
    then show ?thesis using "1" by (auto simp: dec_digits.simps [of n])
  qed
qed

lemma dec_value_dec_digits [simp]: "dec_value (dec_digits n) = n"
proof (induction n rule: dec_digits.induct)
  case (1 n)
  show ?case
  proof (cases "n < 10")
    case True
    then show ?thesis by (simp add: dec_digits.simps [of n] dec_value_def of_char_digit)
  next
    case False
    then have "dec_value (dec_digits n) = 10 * (n div 10) + n mod 10"
      using "1" by (simp add: dec_digits.simps [of n] dec_value_snoc of_char_digit)
    then show ?thesis by simp
  qed
qed

lemma dec_digits_inject [simp]: "dec_digits a = dec_digits b \<longleftrightarrow> a = b"
  by (metis dec_value_dec_digits)

lemma dec_digits_not_Nil [simp]: "dec_digits n \<noteq> []"
  by (simp add: dec_digits.simps [of n])

lemma non_digit_notin_dec_digits: "\<not> is_digit c \<Longrightarrow> c \<notin> set (dec_digits n)"
  using dec_digits_is_digit by blast

lemma dec_int_inject [simp]: "dec_int a = dec_int b \<longleftrightarrow> a = b"
proof -
  have "CHR ''-'' \<notin> set (dec_digits n)" for n
    by (rule non_digit_notin_dec_digits) (simp add: is_digit_def)
  then have "dec_digits n \<noteq> CHR ''-'' # s" for n s by (metis list.set_intros(1))
  then show ?thesis by (auto simp: dec_int_def nat_eq_iff dest: sym)
qed

lemma length_dec_digits_le: "0 < k \<Longrightarrow> n < 10 ^ k \<Longrightarrow> length (dec_digits n) \<le> k"
proof (induction k arbitrary: n)
  case 0
  then show ?case by simp
next
  case (Suc k)
  show ?case
  proof (cases "n < 10")
    case True
    then show ?thesis by (simp add: dec_digits.simps [of n])
  next
    case False
    then have "0 < k" using Suc.prems by (cases k) auto
    moreover have "n div 10 < 10 ^ k" using Suc.prems by (simp add: less_mult_imp_div_less)
    ultimately show ?thesis using Suc.IH False by (simp add: dec_digits.simps [of n])
  qed
qed

lemma dec_value_zeros: "dec_value (replicate k (CHR ''0'') @ s) = dec_value s"
  by (induction k) (simp_all add: dec_value_def)

lemma dec_zero_nonneg: "0 \<le> i \<Longrightarrow> dec_value (dec_zero w i) = nat i"
  by (simp add: dec_zero_def dec_value_zeros)

lemma length_dec_zero:
  "0 \<le> i \<Longrightarrow> 0 < w \<Longrightarrow> i < 10 ^ w \<Longrightarrow> length (dec_zero w i) = w"
proof -
  assume a: "0 \<le> i" "0 < w" "i < 10 ^ w"
  then have "nat i < 10 ^ w" by (simp add: nat_less_iff)
  then have "length (dec_digits (nat i)) \<le> w" using a by (intro length_dec_digits_le)
  then show ?thesis using a by (simp add: dec_zero_def)
qed

lemma dec_zero_inject:
  "0 \<le> i \<Longrightarrow> 0 \<le> j \<Longrightarrow> dec_zero w i = dec_zero w j \<longleftrightarrow> i = j"
  by (metis dec_zero_nonneg eq_nat_nat_iff)

subsection \<open>Characters in a string\<close>

text \<open>\<open>string::find\<close> and \<open>string::rfind\<close> of a character; \<open>None\<close> is \<open>npos\<close>.\<close>

definition str_find :: "string \<Rightarrow> char \<Rightarrow> nat option" where
  "str_find s c = (let i = std_find s c in if i = length s then None else Some i)"

definition str_rfind :: "string \<Rightarrow> char \<Rightarrow> nat option" where
  "str_rfind s c = map_option (\<lambda>i. length s - 1 - i) (str_find (rev s) c)"

lemma str_rfind_last: "c \<notin> set ys \<Longrightarrow> str_rfind (xs @ c # ys) c = Some (length xs)"
  using std_find_first [of c "rev ys" "rev xs"] by (simp add: str_rfind_def str_find_def)

end
