(* ===== verification/Timestamp.thy ===== *)
theory Timestamp
  imports Complex_Main Format
begin

section \<open>Time stamps (src/src/Timestamp.h, src/src/Timestamp.cpp)\<close>

text \<open>
  A time stamp is a count of microseconds since the epoch. The operators \<open><\<close> and \<open>==\<close> of the
  header make it a linear order, declared as an instance of the library's class so that
  ordered sets of time stamps are those of the library.

  A \<open>double\<close> is the rational number it stands for; the arithmetic of \<open>double\<close> rounds, so the
  operations that multiply or divide take the rounding function \<open>rnd\<close> of the floating-point
  unit as an argument. Counts are mathematical integers: a 64-bit count of microseconds
  overflows some 290 thousand years from the epoch.
\<close>

datatype Timestamp = Timestamp (microSecondsSinceEpoch: int)

text \<open>The comparison operators, which order the keys of the timer queue.\<close>

definition Timestamp_less :: "Timestamp \<Rightarrow> Timestamp \<Rightarrow> bool" where
  "Timestamp_less lhs rhs \<longleftrightarrow> microSecondsSinceEpoch lhs < microSecondsSinceEpoch rhs"

definition Timestamp_eq :: "Timestamp \<Rightarrow> Timestamp \<Rightarrow> bool" where
  "Timestamp_eq lhs rhs \<longleftrightarrow> microSecondsSinceEpoch lhs = microSecondsSinceEpoch rhs"

declare Timestamp_less_def [simp]

lemma Timestamp_eq_iff [simp]: "Timestamp_eq lhs rhs \<longleftrightarrow> lhs = rhs"
  by (auto simp: Timestamp_eq_def intro: Timestamp.expand)

instantiation Timestamp :: linorder
begin

definition less_eq_Timestamp :: "Timestamp \<Rightarrow> Timestamp \<Rightarrow> bool" where
  "less_eq_Timestamp lhs rhs \<longleftrightarrow> microSecondsSinceEpoch lhs \<le> microSecondsSinceEpoch rhs"

definition less_Timestamp :: "Timestamp \<Rightarrow> Timestamp \<Rightarrow> bool" where
  "less_Timestamp lhs rhs \<longleftrightarrow> Timestamp_less lhs rhs"

instance
  by standard (auto simp: less_eq_Timestamp_def less_Timestamp_def intro: Timestamp.expand)

end

definition kMicroSecondsPerSecond :: int where
  "kMicroSecondsPerSecond = 1000 * 1000"

definition Timestamp_invalid :: Timestamp where
  "Timestamp_invalid = Timestamp 0"

definition Timestamp_valid :: "Timestamp \<Rightarrow> bool" where
  "Timestamp_valid t \<longleftrightarrow> microSecondsSinceEpoch t > 0"

definition secondsSinceEpoch :: "Timestamp \<Rightarrow> int" where
  "secondsSinceEpoch t = microSecondsSinceEpoch t sdiv kMicroSecondsPerSecond"

definition fromUnixTime :: "int \<Rightarrow> int \<Rightarrow> Timestamp" where
  "fromUnixTime t microseconds = Timestamp (t * kMicroSecondsPerSecond + microseconds)"

text \<open>\<open>now()\<close> reads \<open>gettimeofday\<close>, whose \<open>timeval\<close> is the argument.\<close>

definition Timestamp_now :: "int \<times> int \<Rightarrow> Timestamp" where
  "Timestamp_now tv = (case tv of (tv_sec, tv_usec) \<Rightarrow> Timestamp (tv_sec * kMicroSecondsPerSecond + tv_usec))"

definition timeDifference :: "(rat \<Rightarrow> rat) \<Rightarrow> Timestamp \<Rightarrow> Timestamp \<Rightarrow> rat" where
  "timeDifference rnd high low =
     (let diff = microSecondsSinceEpoch high - microSecondsSinceEpoch low
      in rnd (rnd (of_int diff) / of_int kMicroSecondsPerSecond))"

text \<open>The cast of a \<open>double\<close> to an integer truncates towards zero.\<close>

definition trunc :: "rat \<Rightarrow> int" where
  "trunc x = (if 0 \<le> x then \<lfloor>x\<rfloor> else \<lceil>x\<rceil>)"

definition addTime :: "(rat \<Rightarrow> rat) \<Rightarrow> Timestamp \<Rightarrow> rat \<Rightarrow> Timestamp" where
  "addTime rnd timestamp seconds =
     (let delta = trunc (rnd (seconds * of_int kMicroSecondsPerSecond))
      in Timestamp (microSecondsSinceEpoch timestamp + delta))"

definition toString :: "Timestamp \<Rightarrow> string" where
  "toString t =
     (let seconds = microSecondsSinceEpoch t sdiv kMicroSecondsPerSecond;
          microseconds = microSecondsSinceEpoch t smod kMicroSecondsPerSecond
      in snprintf 32 (dec_int seconds @ ''.'' @ dec_zero 6 microseconds))"

text \<open>The broken-down time of C, as \<open>localtime_r\<close> and \<open>gmtime_r\<close> fill it in.\<close>

record tm =
  tm_sec :: int
  tm_min :: int
  tm_hour :: int
  tm_mday :: int
  tm_mon :: int
  tm_year :: int
  tm_wday :: int
  tm_yday :: int
  tm_isdst :: int
  tm_gmtoff :: int
  tm_zone :: string

definition toFormattedString :: "(int \<Rightarrow> tm) \<Rightarrow> Timestamp \<Rightarrow> bool \<Rightarrow> string" where
  "toFormattedString localtime_r t showMicroseconds =
     (let seconds = microSecondsSinceEpoch t sdiv kMicroSecondsPerSecond;
          tm_time = localtime_r seconds;
          date = dec_blank 4 (tm_year tm_time + 1900) @ dec_zero 2 (tm_mon tm_time + 1) @
                 dec_zero 2 (tm_mday tm_time) @ '' '' @ dec_zero 2 (tm_hour tm_time) @ '':'' @
                 dec_zero 2 (tm_min tm_time) @ '':'' @ dec_zero 2 (tm_sec tm_time)
      in if showMicroseconds
         then snprintf 64 (date @ ''.'' @ dec_zero 6 (microSecondsSinceEpoch t smod kMicroSecondsPerSecond))
         else snprintf 64 date)"

subsection \<open>Lemmas\<close>

lemma micro_inject: "microSecondsSinceEpoch a = microSecondsSinceEpoch b \<longleftrightarrow> a = b"
  by (auto intro: Timestamp.expand)

lemma less_Timestamp_simp [simp]: "Timestamp a < Timestamp b \<longleftrightarrow> a < b"
  and less_eq_Timestamp_simp [simp]: "Timestamp a \<le> Timestamp b \<longleftrightarrow> a \<le> b"
  by (simp_all add: less_Timestamp_def less_eq_Timestamp_def)

lemma trunc_of_int [simp]: "trunc (of_int i) = i"
  by (simp add: trunc_def)

lemma trunc_nonneg: "0 \<le> x \<Longrightarrow> 0 \<le> trunc x"
  by (simp add: trunc_def)

subsection \<open>Properties\<close>

text \<open>For every time from the epoch on that fits 64 bits, \<open>toString\<close> is the count of
  seconds, a point and exactly six digits of microseconds, is not cut off by its 32-byte
  buffer, and determines the time stamp.\<close>

lemma toString_exact:
  assumes "0 \<le> microSecondsSinceEpoch t" "microSecondsSinceEpoch t < 2 ^ 63"
  shows "toString t = dec_digits (nat (microSecondsSinceEpoch t div 1000000)) @ ''.'' @
      dec_zero 6 (microSecondsSinceEpoch t mod 1000000) \<and>
    length (dec_zero 6 (microSecondsSinceEpoch t mod 1000000)) = 6 \<and>
    Timestamp (1000000 * int (dec_value (takeWhile (\<lambda>c. c \<noteq> CHR ''.'') (toString t))) +
      int (dec_value (tl (dropWhile (\<lambda>c. c \<noteq> CHR ''.'') (toString t))))) = t"
proof -
  let ?m = "microSecondsSinceEpoch t"
  have six: "length (dec_zero 6 (?m mod 1000000)) = 6" by (intro length_dec_zero) simp_all
  have "?m div 1000000 < 10 ^ 13" using assms by simp
  then have "nat (?m div 1000000) < 10 ^ 13" by simp
  then have "length (dec_digits (nat (?m div 1000000))) \<le> 13" by (intro length_dec_digits_le) simp_all
  moreover have "dec_int (?m div 1000000) = dec_digits (nat (?m div 1000000))"
    using assms by (simp add: dec_int_def pos_imp_zdiv_neg_iff)
  ultimately have s: "toString t = dec_digits (nat (?m div 1000000)) @ ''.'' @ dec_zero 6 (?m mod 1000000)"
    using assms six by (simp add: toString_def kMicroSecondsPerSecond_def sdiv_nonneg smod_nonneg)
  have dot: "CHR ''.'' \<notin> set (dec_digits n)" for n
    by (rule non_digit_notin_dec_digits) (simp add: is_digit_def)
  then have "takeWhile (\<lambda>c. c \<noteq> CHR ''.'') (toString t) = dec_digits (nat (?m div 1000000))"
    "dropWhile (\<lambda>c. c \<noteq> CHR ''.'') (toString t) = ''.'' @ dec_zero 6 (?m mod 1000000)"
    unfolding s by (simp_all add: takeWhile_append dropWhile_append)
  then show ?thesis using s six assms
    by (simp add: dec_zero_nonneg pos_imp_zdiv_nonneg_iff flip: micro_inject)
qed

end
