(* ===== verification/OrdSet.thy ===== *)
theory OrdSet
  imports Prelude
begin

section \<open>Ordered sets\<close>

text \<open>
  \<open>std::set\<close> as the list of its elements in iteration order: strictly increasing. \<open>insert\<close>
  and \<open>erase\<close> return what the C++ operations return beside the new set. The lemmas relate
  each operation to the set of elements and show that it keeps the order.
\<close>

definition oset :: "'a::linorder list \<Rightarrow> bool" where
  "oset xs \<longleftrightarrow> sorted_wrt (<) xs"

definition oset_insert :: "'a::linorder \<Rightarrow> 'a list \<Rightarrow> 'a list \<times> bool" where
  "oset_insert x xs = (if x \<in> set xs then (xs, False) else (insort x xs, True))"

definition oset_erase :: "'a::linorder \<Rightarrow> 'a list \<Rightarrow> 'a list \<times> nat" where
  "oset_erase x xs = (if x \<in> set xs then (remove1 x xs, 1) else (xs, 0))"

text \<open>\<open>lower_bound(x)\<close> splits the set into the elements below \<open>x\<close> and the others.\<close>

definition oset_below :: "'a::linorder \<Rightarrow> 'a list \<Rightarrow> 'a list" where
  "oset_below x xs = takeWhile (\<lambda>y. y < x) xs"

definition oset_from :: "'a::linorder \<Rightarrow> 'a list \<Rightarrow> 'a list" where
  "oset_from x xs = dropWhile (\<lambda>y. y < x) xs"

lemma oset_iff: "oset xs \<longleftrightarrow> sorted xs \<and> distinct xs"
  by (simp add: oset_def strict_sorted_iff)

lemma oset_Nil [simp]: "oset []"
  by (simp add: oset_def)

lemma oset_distinct: "oset xs \<Longrightarrow> distinct xs"
  by (simp add: oset_iff)

lemma oset_insort: "oset xs \<Longrightarrow> x \<notin> set xs \<Longrightarrow> oset (insort x xs)"
  by (simp add: oset_iff sorted_insort distinct_insort)

lemma oset_remove1: "oset xs \<Longrightarrow> oset (remove1 x xs)"
  by (simp add: oset_iff sorted_remove1)

lemma set_remove1_oset: "oset xs \<Longrightarrow> set (remove1 x xs) = set xs - {x}"
  by (simp add: oset_distinct)

lemma oset_split: "xs = oset_below x xs @ oset_from x xs"
  by (simp add: oset_below_def oset_from_def)

lemma oset_below_oset: "oset xs \<Longrightarrow> oset (oset_below x xs)"
  using sorted_wrt_append [of "(<)" "oset_below x xs" "oset_from x xs"] oset_split [of xs x]
  by (simp add: oset_def)

lemma oset_from_oset: "oset xs \<Longrightarrow> oset (oset_from x xs)"
  using sorted_wrt_append [of "(<)" "oset_below x xs" "oset_from x xs"] oset_split [of xs x]
  by (simp add: oset_def)

lemma set_oset_below: "oset xs \<Longrightarrow> set (oset_below x xs) = {y \<in> set xs. y < x}"
proof (induction xs)
  case Nil
  then show ?case by (simp add: oset_below_def)
next
  case (Cons a xs)
  then have xs: "oset xs" "\<forall>y \<in> set xs. a < y" by (auto simp: oset_def)
  show ?case
  proof (cases "a < x")
    case True
    then show ?thesis using Cons.IH [OF xs(1)] by (auto simp: oset_below_def)
  next
    case False
    then have "\<not> y < x" if "y \<in> set (a # xs)" for y
      using xs(2) that less_trans [of a y x] by auto
    then show ?thesis using False by (fastforce simp: oset_below_def)
  qed
qed

lemma set_oset_from: "oset xs \<Longrightarrow> set (oset_from x xs) = {y \<in> set xs. x \<le> y}"
proof (induction xs)
  case Nil
  then show ?case by (simp add: oset_from_def)
next
  case (Cons a xs)
  then have xs: "oset xs" "\<forall>y \<in> set xs. a < y" by (auto simp: oset_def)
  show ?case
  proof (cases "a < x")
    case True
    then show ?thesis using Cons.IH [OF xs(1)] by (auto simp: oset_from_def)
  next
    case False
    then have "x \<le> y" if "y \<in> set (a # xs)" for y
      using xs(2) that by (auto intro: less_imp_le order_trans)
    then show ?thesis using False by (fastforce simp: oset_from_def)
  qed
qed

lemma oset_hd_least: "oset xs \<Longrightarrow> y \<in> set xs \<Longrightarrow> hd xs \<le> y"
  by (cases xs) (auto simp: oset_def)

end
