(* ===== verification/TimerQueue.thy ===== *)
theory TimerQueue
  imports Timestamp OrdSet
begin

section \<open>Timers (src/src/Timer.h, src/src/Timer.cpp, src/src/TimerId.h, src/src/TimerQueue.h, src/src/TimerQueue.cpp)\<close>

text \<open>
  The timer queue of an event loop. A \<open>Timer*\<close> is an address of an explicit heap, since the
  queue hands out raw pointers, frees timers itself and must not touch a freed one: reading an
  address with no object is \<open>UndefinedBehaviour\<close>. \<open>new\<close> is the argument \<open>alloc\<close>, which
  returns no address when memory is exhausted. The two sets of the class are ordered sets of
  pairs; \<open>timerfdSetting\<close> is the relative time last handed to \<open>timerfd_settime\<close>. The clock
  reading and the rounding of \<open>double\<close> are arguments.

  A user's callback reaches the queue only through \<open>addTimer\<close> and \<open>cancel\<close>; what one does is
  the argument \<open>script\<close>, a list of such calls that may depend on the queue.
\<close>

record 'cb Timer =
  callback :: 'cb
  expiration :: Timestamp
  interval :: rat
  repeat :: bool
  sequence :: int

type_synonym TimerId = "nat \<times> int"

record 'cb TimerQueue =
  heap :: "nat \<rightharpoonup> 'cb Timer"
  timers :: "(Timestamp \<times> nat) list"
  activeTimers :: "(nat \<times> int) list"
  callingExpiredTimers :: bool
  cancelingTimers :: "(nat \<times> int) list"
  numCreated :: int
  timerfdSetting :: "(int \<times> int) option"

definition UINTPTR_MAX :: nat where "UINTPTR_MAX = 2 ^ 64 - 1"

definition new_TimerQueue :: "'cb TimerQueue" where
  "new_TimerQueue =
     \<lparr>heap = Map.empty, timers = [], activeTimers = [], callingExpiredTimers = False,
      cancelingTimers = [], numCreated = 0, timerfdSetting = None\<rparr>"

definition new_Timer :: "'cb \<Rightarrow> Timestamp \<Rightarrow> rat \<Rightarrow> int \<Rightarrow> 'cb Timer" where
  "new_Timer cb when iv s_numCreated =
     \<lparr>callback = cb, expiration = when, interval = iv, repeat = (iv > 0),
      sequence = s_numCreated + 1\<rparr>"

definition Timer_restart :: "(rat \<Rightarrow> rat) \<Rightarrow> 'cb Timer \<Rightarrow> Timestamp \<Rightarrow> 'cb Timer" where
  "Timer_restart rnd t now =
     (if repeat t then t\<lparr>expiration := addTime rnd now (interval t)\<rparr>
      else t\<lparr>expiration := Timestamp_invalid\<rparr>)"

definition deref :: "'cb TimerQueue \<Rightarrow> nat \<Rightarrow> ('cb Timer \<Rightarrow> 'a res) \<Rightarrow> 'a res" where
  "deref q a k = (case heap q a of None \<Rightarrow> Inl (UndefinedBehaviour ''freed Timer'') | Some t \<Rightarrow> k t)"

definition sizes_agree :: "'cb TimerQueue \<Rightarrow> bool" where
  "sizes_agree q \<longleftrightarrow> length (timers q) = length (activeTimers q)"

subsection \<open>The kernel timer\<close>

definition howMuchTimeFromNow :: "Timestamp \<Rightarrow> Timestamp \<Rightarrow> int \<times> int" where
  "howMuchTimeFromNow now when =
     (let d = microSecondsSinceEpoch when - microSecondsSinceEpoch now;
          microseconds = (if d < 100 then 100 else d)
      in (microseconds sdiv kMicroSecondsPerSecond, (microseconds smod kMicroSecondsPerSecond) * 1000))"

definition resetTimerfd :: "Timestamp \<Rightarrow> 'cb TimerQueue \<Rightarrow> Timestamp \<Rightarrow> 'cb TimerQueue" where
  "resetTimerfd now q when = q\<lparr>timerfdSetting := Some (howMuchTimeFromNow now when)\<rparr>"

subsection \<open>Insertion and cancellation\<close>

definition tq_insert :: "'cb TimerQueue \<Rightarrow> nat \<Rightarrow> (bool \<times> 'cb TimerQueue) res" where
  "tq_insert q a =
     ensure (sizes_agree q) ''timers_.size() == activeTimers_.size()''
     (deref q a (\<lambda>t.
      let when = expiration t;
          earliestChanged =
            (case timers q of [] \<Rightarrow> True
             | it # _ \<Rightarrow> microSecondsSinceEpoch when > microSecondsSinceEpoch (fst it))
      in case oset_insert (when, a) (timers q) of (ts, ins) \<Rightarrow>
         ensure ins ''result.second''
         (case oset_insert (a, sequence t) (activeTimers q) of (acts, ins') \<Rightarrow>
          ensure ins' ''result.second''
          (let q' = q\<lparr>timers := ts, activeTimers := acts\<rparr>
           in ensure (sizes_agree q') ''timers_.size() == activeTimers_.size()''
              (Inr (earliestChanged, q'))))))"

definition addTimerInLoop :: "Timestamp \<Rightarrow> 'cb TimerQueue \<Rightarrow> nat \<Rightarrow> 'cb TimerQueue res" where
  "addTimerInLoop now q a =
     rbind (tq_insert q a) (\<lambda>(earliestChanged, q').
       if earliestChanged then deref q' a (\<lambda>t. Inr (resetTimerfd now q' (expiration t)))
       else Inr q')"

text \<open>\<open>addTimer\<close> from the loop's own thread, where \<open>runInLoop\<close> calls at once.\<close>

definition addTimer ::
  "((nat \<rightharpoonup> 'cb Timer) \<Rightarrow> nat option) \<Rightarrow> Timestamp \<Rightarrow> 'cb TimerQueue \<Rightarrow> 'cb \<Rightarrow> Timestamp \<Rightarrow> rat \<Rightarrow>
   (TimerId \<times> 'cb TimerQueue) res" where
  "addTimer alloc now q cb when iv =
     (case alloc (heap q) of None \<Rightarrow> Inl BadAlloc
      | Some a \<Rightarrow>
          (let t = new_Timer cb when iv (numCreated q);
               q1 = q\<lparr>heap := (heap q)(a \<mapsto> t), numCreated := numCreated q + 1\<rparr>
           in rbind (addTimerInLoop now q1 a) (\<lambda>q2. Inr ((a, sequence t), q2))))"

definition cancelInLoop :: "'cb TimerQueue \<Rightarrow> TimerId \<Rightarrow> 'cb TimerQueue res" where
  "cancelInLoop q timerId =
     ensure (sizes_agree q) ''timers_.size() == activeTimers_.size()''
     (rbind
       (if timerId \<in> set (activeTimers q)
        then deref q (fst timerId) (\<lambda>t.
          case oset_erase (expiration t, fst timerId) (timers q) of (ts, n) \<Rightarrow>
            ensure (n = 1) ''n == 1''
            (Inr (q\<lparr>timers := ts, heap := (heap q)(fst timerId := None),
                    activeTimers := fst (oset_erase timerId (activeTimers q))\<rparr>)))
        else if callingExpiredTimers q
        then Inr (q\<lparr>cancelingTimers := fst (oset_insert timerId (cancelingTimers q))\<rparr>)
        else Inr q)
       (\<lambda>q'. ensure (sizes_agree q') ''timers_.size() == activeTimers_.size()'' (Inr q')))"

subsection \<open>Expiry\<close>

fun erase_active :: "(Timestamp \<times> nat) list \<Rightarrow> 'cb TimerQueue \<Rightarrow> 'cb TimerQueue res" where
  "erase_active [] q = Inr q"
| "erase_active ((_, a) # es) q =
     deref q a (\<lambda>t.
       case oset_erase (a, sequence t) (activeTimers q) of (acts, n) \<Rightarrow>
         ensure (n = 1) ''n == 1'' (erase_active es (q\<lparr>activeTimers := acts\<rparr>)))"

definition getExpired :: "'cb TimerQueue \<Rightarrow> Timestamp \<Rightarrow> ((Timestamp \<times> nat) list \<times> 'cb TimerQueue) res" where
  "getExpired q now =
     ensure (sizes_agree q) ''timers_.size() == activeTimers_.size()''
     (let sentry = (now, UINTPTR_MAX);
          expired = oset_below sentry (timers q);
          rest = oset_from sentry (timers q)
      in ensure (rest = [] \<or> now < fst (hd rest)) ''end == timers_.end() || now < end->first''
         (rbind (erase_active expired (q\<lparr>timers := rest\<rparr>)) (\<lambda>q'.
            ensure (sizes_agree q') ''timers_.size() == activeTimers_.size()''
            (Inr (expired, q')))))"

datatype 'cb tq_call = CallAdd 'cb Timestamp rat | CallCancel TimerId

fun run_calls ::
  "((nat \<rightharpoonup> 'cb Timer) \<Rightarrow> nat option) \<Rightarrow> ('cb TimerQueue \<Rightarrow> Timestamp) \<Rightarrow> 'cb tq_call list \<Rightarrow> 'cb TimerQueue \<Rightarrow> 'cb TimerQueue res" where
  "run_calls alloc clk [] q = Inr q"
| "run_calls alloc clk (CallAdd cb when iv # cs) q =
     rbind (addTimer alloc (clk q) q cb when iv) (\<lambda>(_, q'). run_calls alloc clk cs q')"
| "run_calls alloc clk (CallCancel tid # cs) q =
     rbind (cancelInLoop q tid) (run_calls alloc clk cs)"

fun run_expired ::
  "('cb \<Rightarrow> 'cb TimerQueue \<Rightarrow> 'cb tq_call list) \<Rightarrow> ((nat \<rightharpoonup> 'cb Timer) \<Rightarrow> nat option) \<Rightarrow> ('cb TimerQueue \<Rightarrow> Timestamp) \<Rightarrow>
   (Timestamp \<times> nat) list \<Rightarrow> 'cb TimerQueue \<Rightarrow> 'cb TimerQueue res" where
  "run_expired script alloc clk [] q = Inr q"
| "run_expired script alloc clk ((_, a) # es) q =
     deref q a (\<lambda>t. rbind (run_calls alloc clk (script (callback t) q) q)
                          (run_expired script alloc clk es))"

fun reset_each :: "(rat \<Rightarrow> rat) \<Rightarrow> Timestamp \<Rightarrow> (Timestamp \<times> nat) list \<Rightarrow> 'cb TimerQueue \<Rightarrow> 'cb TimerQueue res" where
  "reset_each rnd now [] q = Inr q"
| "reset_each rnd now ((_, a) # es) q =
     deref q a (\<lambda>t.
       if repeat t \<and> (a, sequence t) \<notin> set (cancelingTimers q)
       then rbind (tq_insert (q\<lparr>heap := (heap q)(a \<mapsto> Timer_restart rnd t now)\<rparr>) a)
                  (\<lambda>(_, q'). reset_each rnd now es q')
       else reset_each rnd now es (q\<lparr>heap := (heap q)(a := None)\<rparr>))"

definition tq_reset ::
  "(rat \<Rightarrow> rat) \<Rightarrow> ('cb TimerQueue \<Rightarrow> Timestamp) \<Rightarrow> 'cb TimerQueue \<Rightarrow> (Timestamp \<times> nat) list \<Rightarrow> Timestamp \<Rightarrow> 'cb TimerQueue res" where
  "tq_reset rnd clk q expired now =
     rbind (reset_each rnd now expired q) (\<lambda>q'.
     rbind (case timers q' of [] \<Rightarrow> Inr Timestamp_invalid
            | (_, a) # _ \<Rightarrow> deref q' a (\<lambda>t. Inr (expiration t))) (\<lambda>nextExpire.
     Inr (if Timestamp_valid nextExpire then resetTimerfd (clk q') q' nextExpire else q')))"

definition tq_handleRead ::
  "(rat \<Rightarrow> rat) \<Rightarrow> ('cb \<Rightarrow> 'cb TimerQueue \<Rightarrow> 'cb tq_call list) \<Rightarrow> ((nat \<rightharpoonup> 'cb Timer) \<Rightarrow> nat option) \<Rightarrow>
   ('cb TimerQueue \<Rightarrow> Timestamp) \<Rightarrow> Timestamp \<Rightarrow> 'cb TimerQueue \<Rightarrow> 'cb TimerQueue res" where
  "tq_handleRead rnd script alloc clk now q =
     rbind (getExpired q now) (\<lambda>(expired, q1).
     rbind (run_expired script alloc clk expired (q1\<lparr>callingExpiredTimers := True, cancelingTimers := []\<rparr>)) (\<lambda>q2.
     tq_reset rnd clk (q2\<lparr>callingExpiredTimers := False\<rparr>) expired now))"

text \<open>The destructor frees every timer that is still queued.\<close>

definition delete_TimerQueue :: "'cb TimerQueue \<Rightarrow> 'cb TimerQueue" where
  "delete_TimerQueue q = fold (\<lambda>(_, a) q. q\<lparr>heap := (heap q)(a := None)\<rparr>) (timers q) q"

subsection \<open>The invariant\<close>

text \<open>The two sets hold the same timers, one by expiry and one by address; every timer in
  them is alive.\<close>

definition tq_ok :: "'cb TimerQueue \<Rightarrow> bool" where
  "tq_ok q \<longleftrightarrow>
     oset (timers q) \<and> oset (activeTimers q) \<and>
     (\<forall>(w, a) \<in> set (timers q).
        \<exists>t. heap q a = Some t \<and> expiration t = w \<and> (a, sequence t) \<in> set (activeTimers q)) \<and>
     (\<forall>(a, s) \<in> set (activeTimers q).
        \<exists>t. heap q a = Some t \<and> sequence t = s \<and> (expiration t, a) \<in> set (timers q)) \<and>
     (\<forall>a \<in> dom (heap q). a < UINTPTR_MAX)"

text \<open>Timers that are alive but in neither set: those whose callbacks are being run.\<close>

definition off_queue :: "'cb TimerQueue \<Rightarrow> nat list \<Rightarrow> bool" where
  "off_queue q as \<longleftrightarrow>
     distinct as \<and> (\<forall>a \<in> set as. a \<in> dom (heap q) \<and> a \<notin> snd ` set (timers q))"

definition allocator_ok :: "((nat \<rightharpoonup> 'cb Timer) \<Rightarrow> nat option) \<Rightarrow> bool" where
  "allocator_ok alloc \<longleftrightarrow> (\<forall>h a. alloc h = Some a \<longrightarrow> h a = None \<and> a < UINTPTR_MAX)"

lemma deref_Some [simp]: "heap q a = Some t \<Longrightarrow> deref q a k = k t"
  by (simp add: deref_def)

lemma tq_ok_new [simp]: "tq_ok new_TimerQueue"
  by (simp add: tq_ok_def new_TimerQueue_def)

lemma tq_okD:
  assumes "tq_ok q"
  shows "oset (timers q)" "oset (activeTimers q)"
    "(w, a) \<in> set (timers q) \<Longrightarrow>
       \<exists>t. heap q a = Some t \<and> expiration t = w \<and> (a, sequence t) \<in> set (activeTimers q)"
    "(a, sq) \<in> set (activeTimers q) \<Longrightarrow>
       \<exists>t. heap q a = Some t \<and> sequence t = sq \<and> (expiration t, a) \<in> set (timers q)"
    "heap q a = Some t \<Longrightarrow> a < UINTPTR_MAX"
  using assms by (auto simp: tq_ok_def)

lemma tq_okI:
  assumes "oset (timers q)" "oset (activeTimers q)"
    "\<And>w a. (w, a) \<in> set (timers q) \<Longrightarrow>
       \<exists>t. heap q a = Some t \<and> expiration t = w \<and> (a, sequence t) \<in> set (activeTimers q)"
    "\<And>a sq. (a, sq) \<in> set (activeTimers q) \<Longrightarrow>
       \<exists>t. heap q a = Some t \<and> sequence t = sq \<and> (expiration t, a) \<in> set (timers q)"
    "\<And>a t. heap q a = Some t \<Longrightarrow> a < UINTPTR_MAX"
  shows "tq_ok q"
  using assms by (auto simp: tq_ok_def)

lemma tq_ok_timers_addr:
  assumes "tq_ok q" "heap q a = Some t"
  shows "a \<in> snd ` set (timers q) \<longleftrightarrow> (expiration t, a) \<in> set (timers q)"
  using tq_okD(3) [OF assms(1), of _ a] assms(2) by force

lemma tq_ok_same_addresses: "tq_ok q \<Longrightarrow> snd ` set (timers q) = fst ` set (activeTimers q)"
  by (force simp: tq_ok_def)

lemma tq_ok_sizes_agree:
  assumes "tq_ok q"
  shows "sizes_agree q"
proof -
  have "inj_on snd (set (timers q))"
    by (rule inj_onI) (metis tq_okD(3) [OF assms] option.inject prod.collapse)
  moreover have "inj_on fst (set (activeTimers q))"
    by (rule inj_onI) (metis tq_okD(4) [OF assms] option.inject prod.collapse)
  ultimately have "card (set (timers q)) = card (set (activeTimers q))"
    using tq_ok_same_addresses [OF assms] by (metis card_image)
  then show ?thesis
    using oset_distinct [OF tq_okD(1) [OF assms]] oset_distinct [OF tq_okD(2) [OF assms]]
    by (simp add: sizes_agree_def distinct_card)
qed

lemma tq_ok_cong:
  "timers q' = timers q \<Longrightarrow> activeTimers q' = activeTimers q \<Longrightarrow> heap q' = heap q \<Longrightarrow> tq_ok q' = tq_ok q"
  by (simp add: tq_ok_def)

lemma off_queue_cong:
  "timers q' = timers q \<Longrightarrow> heap q' = heap q \<Longrightarrow> off_queue q' as = off_queue q as"
  by (simp add: off_queue_def)

text \<open>Changing an object that is in neither set keeps the invariant.\<close>

lemma tq_ok_heap_update:
  assumes "tq_ok q" "a \<notin> snd ` set (timers q)" "a < UINTPTR_MAX"
  shows "tq_ok (q\<lparr>heap := (heap q)(a := v)\<rparr>)"
proof -
  have n: "(w, a) \<notin> set (timers q)" "(a, sq) \<notin> set (activeTimers q)" for w sq
    using assms tq_ok_same_addresses [OF assms(1)] by force+
  show ?thesis
  proof (rule tq_okI, goal_cases)
    case (3 w b)
    then show ?case using n tq_okD(3) [OF assms(1), of w b] by auto
  next
    case (4 b sq)
    then show ?case using n tq_okD(4) [OF assms(1), of b sq] by auto
  next
    case (5 b t)
    then show ?case using assms(3) tq_okD(5) [OF assms(1), of b t] by (simp split: if_splits)
  qed (use tq_okD [OF assms(1)] in simp_all)
qed

lemma tq_insert_ok:
  assumes q: "tq_ok q" and t: "heap q a = Some t" and off: "a \<notin> snd ` set (timers q)"
  shows "\<exists>ec q'. tq_insert q a = Inr (ec, q') \<and> tq_ok q' \<and>
    q' = q\<lparr>timers := insort (expiration t, a) (timers q),
           activeTimers := insort (a, sequence t) (activeTimers q)\<rparr> \<and>
    (ec \<longleftrightarrow> timers q = [] \<or> expiration t > fst (hd (timers q)))"
proof -
  let ?q = "q\<lparr>timers := insort (expiration t, a) (timers q),
             activeTimers := insort (a, sequence t) (activeTimers q)\<rparr>"
  have n1: "(expiration t, a) \<notin> set (timers q)" using off by force
  have n2: "(a, sequence t) \<notin> set (activeTimers q)"
    using off tq_ok_same_addresses [OF q] by force
  have ok: "tq_ok ?q"
    using q t n1 n2 unfolding tq_ok_def by (auto simp: oset_insort set_insort_key)
  then have "sizes_agree ?q" by (rule tq_ok_sizes_agree)
  then show ?thesis
    using ok n1 n2 t tq_ok_sizes_agree [OF q]
    by (auto simp: tq_insert_def oset_insert_def Let_def less_Timestamp_def split: list.split)
qed

lemma addTimerInLoop_ok:
  assumes "tq_ok q" "heap q a = Some t" "a \<notin> snd ` set (timers q)"
  shows "\<exists>q'. addTimerInLoop now q a = Inr q' \<and> tq_ok q' \<and> heap q' = heap q \<and>
    set (timers q') = insert (expiration t, a) (set (timers q)) \<and>
    callingExpiredTimers q' = callingExpiredTimers q \<and> cancelingTimers q' = cancelingTimers q"
proof -
  obtain ec q' where q': "tq_insert q a = Inr (ec, q')" "tq_ok q'"
    "q' = q\<lparr>timers := insort (expiration t, a) (timers q),
           activeTimers := insort (a, sequence t) (activeTimers q)\<rparr>"
    using tq_insert_ok [OF assms] by blast
  have "tq_ok (resetTimerfd now q' w)" for w
    using q'(2) by (simp add: resetTimerfd_def tq_ok_def)
  then show ?thesis using q' assms(2)
    by (auto simp: addTimerInLoop_def resetTimerfd_def set_insort_key)
qed

lemma addTimer_ok:
  assumes "tq_ok q" "allocator_ok alloc" "alloc (heap q) = Some a"
  shows "\<exists>q'. addTimer alloc now q cb when iv = Inr ((a, numCreated q + 1), q') \<and> tq_ok q' \<and>
    heap q' = (heap q)(a \<mapsto> new_Timer cb when iv (numCreated q)) \<and> heap q a = None \<and>
    set (timers q') = insert (when, a) (set (timers q)) \<and>
    callingExpiredTimers q' = callingExpiredTimers q \<and> cancelingTimers q' = cancelingTimers q"
proof -
  let ?t = "new_Timer cb when iv (numCreated q)"
  let ?q1 = "q\<lparr>heap := (heap q)(a \<mapsto> ?t), numCreated := numCreated q + 1\<rparr>"
  have a: "heap q a = None" "a < UINTPTR_MAX" using assms(2,3) by (auto simp: allocator_ok_def)
  then have off: "a \<notin> snd ` set (timers q)" using tq_okD(3) [OF assms(1)] by force
  have "tq_ok (q\<lparr>heap := (heap q)(a \<mapsto> ?t)\<rparr>)" using assms(1) off a(2) by (rule tq_ok_heap_update)
  then have "tq_ok ?q1" by (simp add: tq_ok_def)
  then obtain q' where "addTimerInLoop now ?q1 a = Inr q'" "tq_ok q'" "heap q' = heap ?q1"
    "set (timers q') = insert (expiration ?t, a) (set (timers q))"
    "callingExpiredTimers q' = callingExpiredTimers q" "cancelingTimers q' = cancelingTimers q"
    using addTimerInLoop_ok [of ?q1 a ?t now] off by auto
  then show ?thesis using assms(3) a by (simp add: addTimer_def new_Timer_def)
qed

lemma cancelInLoop_active:
  assumes q: "tq_ok q" and tid: "(a, sq) \<in> set (activeTimers q)"
  shows "\<exists>q'. cancelInLoop q (a, sq) = Inr q' \<and> tq_ok q' \<and> heap q' = (heap q)(a := None) \<and>
    set (timers q') = {e \<in> set (timers q). snd e \<noteq> a} \<and>
    callingExpiredTimers q' = callingExpiredTimers q \<and> cancelingTimers q' = cancelingTimers q"
proof -
  obtain t where t: "heap q a = Some t" "sequence t = sq" "(expiration t, a) \<in> set (timers q)"
    using tq_okD(4) [OF q tid] by blast
  let ?q = "q\<lparr>timers := remove1 (expiration t, a) (timers q), heap := (heap q)(a := None),
              activeTimers := remove1 (a, sq) (activeTimers q)\<rparr>"
  note o = tq_okD(1,2) [OF q]
  have st: "set (remove1 (expiration t, a) (timers q)) = {e \<in> set (timers q). snd e \<noteq> a}"
  proof (rule set_eqI)
    fix e
    have "e \<in> set (timers q) \<Longrightarrow> snd e = a \<Longrightarrow> fst e = expiration t"
      using tq_okD(3) [OF q, of "fst e" a] t(1) by (cases e) auto
    then show "e \<in> set (remove1 (expiration t, a) (timers q)) \<longleftrightarrow> e \<in> {e \<in> set (timers q). snd e \<noteq> a}"
      by (cases e) (auto simp: set_remove1_oset [OF o(1)])
  qed
  have sa: "set (remove1 (a, sq) (activeTimers q)) = {e \<in> set (activeTimers q). fst e \<noteq> a}"
  proof (rule set_eqI)
    fix e
    have "e \<in> set (activeTimers q) \<Longrightarrow> fst e = a \<Longrightarrow> snd e = sq"
      using tq_okD(4) [OF q, of a "snd e"] t(1,2) by (cases e) auto
    then show "e \<in> set (remove1 (a, sq) (activeTimers q)) \<longleftrightarrow> e \<in> {e \<in> set (activeTimers q). fst e \<noteq> a}"
      by (cases e) (auto simp: set_remove1_oset [OF o(2)])
  qed
  have ok: "tq_ok ?q"
  proof (rule tq_okI, goal_cases)
    case (3 w b)
    then show ?case using tq_okD(3) [OF q, of w b] by (auto simp: st sa)
  next
    case (4 b sq')
    then show ?case using tq_okD(4) [OF q, of b sq'] by (auto simp: st sa)
  next
    case (5 b t')
    then show ?case using tq_okD(5) [OF q, of b t'] by (simp split: if_splits)
  qed (use o oset_remove1 in simp_all)
  then have "sizes_agree ?q" by (rule tq_ok_sizes_agree)
  then have "cancelInLoop q (a, sq) = Inr ?q"
    using tid t tq_ok_sizes_agree [OF q] by (simp add: cancelInLoop_def oset_erase_def)
  then show ?thesis using ok st by simp
qed

lemma cancelInLoop_inactive:
  assumes "tq_ok q" "tid \<notin> set (activeTimers q)"
  shows "cancelInLoop q tid =
    Inr (if callingExpiredTimers q
         then q\<lparr>cancelingTimers := fst (oset_insert tid (cancelingTimers q))\<rparr> else q)"
  using assms tq_ok_sizes_agree [OF assms(1)] by (simp add: cancelInLoop_def sizes_agree_def)

subsection \<open>Callbacks\<close>

text \<open>What a callback's calls keep of the timers \<open>as\<close> that are out of the queue while
  callbacks run, and that they lose track of no timer.\<close>

definition no_leak :: "'cb TimerQueue \<Rightarrow> nat list \<Rightarrow> bool" where
  "no_leak q as \<longleftrightarrow> dom (heap q) = snd ` set (timers q) \<union> set as"

definition keeps :: "nat list \<Rightarrow> 'cb TimerQueue \<Rightarrow> 'cb TimerQueue \<Rightarrow> bool" where
  "keeps as q q' \<longleftrightarrow>
     tq_ok q' \<and> off_queue q' as \<and> (\<forall>a \<in> set as. heap q' a = heap q a) \<and>
     (no_leak q as \<longrightarrow> no_leak q' as) \<and>
     callingExpiredTimers q' = callingExpiredTimers q \<and>
     set (cancelingTimers q) \<subseteq> set (cancelingTimers q')"

lemma keeps_refl: "tq_ok q \<Longrightarrow> off_queue q as \<Longrightarrow> keeps as q q"
  by (simp add: keeps_def)

lemma keeps_trans: "keeps as q q1 \<Longrightarrow> keeps as q1 q2 \<Longrightarrow> keeps as q q2"
  by (auto simp: keeps_def)

lemma keepsD: "keeps as q q' \<Longrightarrow> tq_ok q'" "keeps as q q' \<Longrightarrow> off_queue q' as"
  by (simp_all add: keeps_def)

lemma set_oset_insert [simp]: "set (fst (oset_insert x xs)) = insert x (set xs)"
  by (auto simp: oset_insert_def set_insort_key)

lemma addTimer_keeps:
  assumes q: "tq_ok q" "off_queue q as" and al: "allocator_ok alloc"
    and add: "addTimer alloc now q cb wh iv = r"
  shows "r = Inl BadAlloc \<or> (\<exists>tid q'. r = Inr (tid, q') \<and> keeps as q q')"
proof (cases "alloc (heap q)")
  case None
  then show ?thesis using add by (auto simp: addTimer_def)
next
  case (Some b)
  obtain q1 where q1: "addTimer alloc now q cb wh iv = Inr ((b, numCreated q + 1), q1)" "tq_ok q1"
    "heap q1 = (heap q)(b \<mapsto> new_Timer cb wh iv (numCreated q))" "heap q b = None"
    "set (timers q1) = insert (wh, b) (set (timers q))"
    "callingExpiredTimers q1 = callingExpiredTimers q" "cancelingTimers q1 = cancelingTimers q"
    using addTimer_ok [OF q(1) al Some] by blast
  have b: "b \<notin> set as" using q(2) q1(4) by (auto simp: off_queue_def)
  then have "off_queue q1 as" using q(2) q1(3,5) by (auto simp: off_queue_def)
  moreover have "no_leak q as \<longrightarrow> no_leak q1 as" using q1(3,5) by (auto simp: no_leak_def)
  moreover have "\<forall>a \<in> set as. heap q1 a = heap q a" using b q1(3) by auto
  ultimately have "keeps as q q1" using q1(2,6,7) by (simp add: keeps_def)
  then show ?thesis using q1(1) add by blast
qed

lemma cancelInLoop_keeps:
  assumes q: "tq_ok q" "off_queue q as"
  shows "\<exists>q'. cancelInLoop q tid = Inr q' \<and> keeps as q q' \<and>
    (callingExpiredTimers q \<and> fst tid \<in> set as \<longrightarrow> tid \<in> set (cancelingTimers q'))"
proof (cases "tid \<in> set (activeTimers q)")
  case True
  obtain b sq where tid: "tid = (b, sq)" by (cases tid)
  obtain q1 where q1: "cancelInLoop q (b, sq) = Inr q1" "tq_ok q1"
    "heap q1 = (heap q)(b := None)" "set (timers q1) = {e \<in> set (timers q). snd e \<noteq> b}"
    "callingExpiredTimers q1 = callingExpiredTimers q" "cancelingTimers q1 = cancelingTimers q"
    using cancelInLoop_active [OF q(1)] True tid by blast
  have "b \<in> snd ` set (timers q)" using True tid tq_ok_same_addresses [OF q(1)] by force
  then have b: "b \<notin> set as" using q(2) by (auto simp: off_queue_def)
  then have "off_queue q1 as" "\<forall>a \<in> set as. heap q1 a = heap q a"
    using q(2) q1(3,4) by (auto simp: off_queue_def)
  moreover have "no_leak q1 as" if l: "no_leak q as"
  proof -
    have "snd ` set (timers q1) = snd ` set (timers q) - {b}" using q1(4) by auto
    then show ?thesis using l b q1(3) by (simp add: no_leak_def insert_Diff_if Un_Diff)
  qed
  ultimately have "keeps as q q1" using q1 by (simp add: keeps_def)
  then show ?thesis using q1(1) tid b by auto
next
  case False
  then show ?thesis using cancelInLoop_inactive [OF q(1) False] q
    by (auto simp: keeps_def tq_ok_def off_queue_def no_leak_def)
qed

lemma run_calls_ok:
  assumes "tq_ok q" "off_queue q as" "allocator_ok alloc"
  shows "case run_calls alloc clk cs q of
      Inl e \<Rightarrow> e = BadAlloc
    | Inr q' \<Rightarrow> keeps as q q' \<and>
        (\<forall>tid. callingExpiredTimers q \<and> fst tid \<in> set as \<and> CallCancel tid \<in> set cs \<longrightarrow>
               tid \<in> set (cancelingTimers q'))"
  using assms(1,2)
proof (induction cs arbitrary: q)
  case Nil
  then show ?case by (simp add: keeps_refl)
next
  case (Cons c cs)
  show ?case
  proof (cases c)
    case (CallAdd cb wh iv)
    consider "addTimer alloc (clk q) q cb wh iv = Inl BadAlloc"
      | tid q1 where "addTimer alloc (clk q) q cb wh iv = Inr (tid, q1)" "keeps as q q1"
      using addTimer_keeps [OF Cons.prems assms(3) refl] by blast
    then show ?thesis
    proof cases
      case 1
      then show ?thesis using CallAdd by simp
    next
      case 2
      then show ?thesis using Cons.IH [OF keepsD [OF 2(2)]] CallAdd keeps_trans [OF 2(2)] 2(2)
        by (auto simp: keeps_def split: sum.splits)
    qed
  next
    case (CallCancel tid)
    obtain q1 where q1: "cancelInLoop q tid = Inr q1" "keeps as q q1"
      "callingExpiredTimers q \<and> fst tid \<in> set as \<longrightarrow> tid \<in> set (cancelingTimers q1)"
      using cancelInLoop_keeps [OF Cons.prems] by blast
    then show ?thesis using Cons.IH [OF keepsD [OF q1(2)]] CallCancel keeps_trans [OF q1(2)]
      by (auto simp: keeps_def split: sum.splits)
  qed
qed

lemma run_expired_ok:
  assumes "tq_ok q" "off_queue q as" "allocator_ok alloc" "snd ` set es \<subseteq> set as"
  shows "case run_expired script alloc clk es q of
      Inl e \<Rightarrow> e = BadAlloc
    | Inr q' \<Rightarrow> keeps as q q' \<and>
        (\<forall>w a t. callingExpiredTimers q \<and> (w, a) \<in> set es \<and> heap q a = Some t \<and>
           (\<forall>p. CallCancel (a, sequence t) \<in> set (script (callback t) p)) \<longrightarrow>
           (a, sequence t) \<in> set (cancelingTimers q'))"
  using assms(1,2,4)
proof (induction es arbitrary: q)
  case Nil
  then show ?case by (simp add: keeps_refl)
next
  case (Cons e es)
  obtain w a where e: "e = (w, a)" by (cases e)
  have a: "a \<in> set as" using Cons.prems(3) e by auto
  then obtain t where t: "heap q a = Some t" using Cons.prems(2) by (auto simp: off_queue_def)
  note calls = run_calls_ok [OF Cons.prems(1,2) assms(3), where clk = clk and cs = "script (callback t) q"]
  show ?case
  proof (cases "run_calls alloc clk (script (callback t) q) q")
    case (Inl err)
    then show ?thesis using calls e t by simp
  next
    case (Inr q1)
    then have q1: "keeps as q q1"
      "\<And>tid. callingExpiredTimers q \<Longrightarrow> fst tid \<in> set as \<Longrightarrow> CallCancel tid \<in> set (script (callback t) q) \<Longrightarrow>
         tid \<in> set (cancelingTimers q1)"
      using calls by auto
    have sub: "snd ` set es \<subseteq> set as" using Cons.prems(3) by auto
    have step: "run_expired script alloc clk (e # es) q = run_expired script alloc clk es q1"
      using e t Inr by simp
    show ?thesis
    proof (cases "run_expired script alloc clk es q1")
      case (Inl err)
      then show ?thesis using Cons.IH [OF keepsD [OF q1(1)] sub] step by simp
    next
      case (Inr q2)
      then have q2: "keeps as q1 q2"
        "\<And>w a t. callingExpiredTimers q1 \<Longrightarrow> (w, a) \<in> set es \<Longrightarrow> heap q1 a = Some t \<Longrightarrow>
           \<forall>p. CallCancel (a, sequence t) \<in> set (script (callback t) p) \<Longrightarrow>
           (a, sequence t) \<in> set (cancelingTimers q2)"
        using Cons.IH [OF keepsD [OF q1(1)] sub] by auto
      have "(b, sequence u) \<in> set (cancelingTimers q2)"
        if c: "callingExpiredTimers q" and m: "(v, b) \<in> set (e # es)" and u: "heap q b = Some u"
          and s: "\<forall>p. CallCancel (b, sequence u) \<in> set (script (callback u) p)" for v b u
      proof (cases "(v, b) = e")
        case True
        then show ?thesis using q1(2) [of "(a, sequence t)"] a c s u t e q2(1)
          by (auto simp: keeps_def)
      next
        case False
        then have "(v, b) \<in> set es" "b \<in> set as" using m sub by auto
        then show ?thesis using q2(2) [of v b u] q1(1) c s u by (simp add: keeps_def)
      qed
      then show ?thesis using step Inr keeps_trans [OF q1(1) q2(1)] by auto
    qed
  qed
qed

subsection \<open>Expiry\<close>

definition active_key :: "'cb TimerQueue \<Rightarrow> Timestamp \<times> nat \<Rightarrow> nat \<times> int" where
  "active_key q e = (snd e, sequence (the (heap q (snd e))))"

lemma erase_active_ok:
  assumes "oset (activeTimers q)" "\<And>e. e \<in> set es \<Longrightarrow> snd e \<in> dom (heap q) \<and> active_key q e \<in> set (activeTimers q)"
    "distinct (map snd es)"
  shows "\<exists>acts. erase_active es q = Inr (q\<lparr>activeTimers := acts\<rparr>) \<and> oset acts \<and>
    set acts = set (activeTimers q) - active_key q ` set es"
  using assms
proof (induction es arbitrary: q)
  case Nil
  then show ?case by (intro exI [of _ "activeTimers q"]) simp
next
  case (Cons e es)
  obtain w a where e: "e = (w, a)" by (cases e)
  obtain t where t: "heap q a = Some t" using Cons.prems(2) [of e] e by auto
  let ?q1 = "q\<lparr>activeTimers := remove1 (a, sequence t) (activeTimers q)\<rparr>"
  have key: "active_key q e = (a, sequence t)" using e t by (simp add: active_key_def)
  then have mem: "(a, sequence t) \<in> set (activeTimers q)" using Cons.prems(2) [of e] by simp
  have k1: "active_key ?q1 = active_key q" by (simp add: active_key_def fun_eq_iff)
  have set1: "set (activeTimers ?q1) = set (activeTimers q) - {(a, sequence t)}"
    by (simp add: set_remove1_oset [OF Cons.prems(1)])
  have es: "snd e' \<in> dom (heap ?q1) \<and> active_key ?q1 e' \<in> set (activeTimers ?q1)"
    if "e' \<in> set es" for e'
  proof -
    have "snd e' \<noteq> a" using Cons.prems(3) that e by auto
    then show ?thesis using Cons.prems(2) [of e'] that
      unfolding set1 k1 by (auto simp: active_key_def)
  qed
  have o1: "oset (activeTimers ?q1)" using oset_remove1 [OF Cons.prems(1)] by simp
  have d1: "distinct (map snd es)" using Cons.prems(3) by simp
  obtain acts where "erase_active es ?q1 = Inr (?q1\<lparr>activeTimers := acts\<rparr>)" "oset acts"
    "set acts = set (activeTimers ?q1) - active_key ?q1 ` set es"
    using Cons.IH [OF o1 es d1] by blast
  then have "erase_active es ?q1 = Inr (q\<lparr>activeTimers := acts\<rparr>)" "oset acts"
    "set acts = set (activeTimers q) - active_key q ` set (e # es)"
    unfolding set1 k1 by (auto simp: key)
  then show ?case using e t mem by (intro exI [of _ acts]) (simp add: oset_erase_def)
qed

lemma expired_iff:
  "a < UINTPTR_MAX \<Longrightarrow> (w, a) < (now, UINTPTR_MAX) \<longleftrightarrow> w \<le> (now :: Timestamp)"
  by (auto simp: less_prod_def)

lemma oset_below_filter: "oset xs \<Longrightarrow> oset_below x xs = filter (\<lambda>y. y < x) xs"
  unfolding oset_below_def
  by (rule takeWhile_eq_filter) (use set_oset_from [of xs x] in \<open>auto simp: oset_from_def\<close>)

lemma oset_from_filter: "oset xs \<Longrightarrow> oset_from x xs = filter (\<lambda>y. \<not> y < x) xs"
proof -
  assume xs: "oset xs"
  have "filter (\<lambda>y. \<not> y < x) xs = filter (\<lambda>y. \<not> y < x) (oset_below x xs) @ filter (\<lambda>y. \<not> y < x) (oset_from x xs)"
    by (metis filter_append oset_split)
  also have "\<dots> = oset_from x xs"
    using set_oset_below [OF xs, of x] set_oset_from [OF xs, of x]
    by (auto simp: filter_empty_conv filter_id_conv not_less)
  finally show ?thesis by simp
qed

text \<open>What an expired timer becomes once its callback has run.\<close>

definition reset_obj :: "(rat \<Rightarrow> rat) \<Rightarrow> Timestamp \<Rightarrow> 'cb TimerQueue \<Rightarrow> nat \<Rightarrow> 'cb Timer option" where
  "reset_obj rnd now q a =
     (case heap q a of None \<Rightarrow> None
      | Some t \<Rightarrow> if repeat t \<and> (a, sequence t) \<notin> set (cancelingTimers q)
                  then Some (Timer_restart rnd t now) else None)"

text \<open>What is left when the timers that are due are taken out of both sets.\<close>

lemma tq_ok_split:
  assumes q: "tq_ok q" and a: "oset acts"
    "set acts = set (activeTimers q) - active_key q ` set (filter (\<lambda>e. fst e \<le> now) (timers q))"
  shows "tq_ok (q\<lparr>timers := filter (\<lambda>e. \<not> fst e \<le> now) (timers q), activeTimers := acts\<rparr>)"
proof (rule tq_okI, goal_cases)
  case 1
  then show ?case using tq_okD(1) [OF q] by (simp add: oset_def sorted_wrt_filter)
next
  case 2
  then show ?case using a(1) by simp
next
  case (3 w b)
  then obtain t where t: "heap q b = Some t" "expiration t = w" "(b, sequence t) \<in> set (activeTimers q)"
    using tq_okD(3) [OF q, of w b] by auto
  have "\<not> w \<le> now" using 3 by simp
  moreover have "w' = w" if "(w', b) \<in> set (timers q)" for w'
    using tq_okD(3) [OF q that] t by auto
  ultimately have "(b, sequence t) \<notin> active_key q ` set (filter (\<lambda>e. fst e \<le> now) (timers q))"
    by (auto simp: active_key_def)
  then show ?case using t a(2) by simp
next
  case (4 b sq)
  then have m: "(b, sq) \<in> set (activeTimers q)" "(b, sq) \<notin> active_key q ` set (filter (\<lambda>e. fst e \<le> now) (timers q))"
    using a(2) by auto
  then obtain t where t: "heap q b = Some t" "sequence t = sq" "(expiration t, b) \<in> set (timers q)"
    using tq_okD(4) [OF q] by blast
  have "active_key q (expiration t, b) = (b, sq)" using t by (simp add: active_key_def)
  then have "(expiration t, b) \<notin> set (filter (\<lambda>e. fst e \<le> now) (timers q))" using m(2) by (metis image_eqI)
  then show ?case using t by auto
next
  case (5 b t)
  then show ?case using tq_okD(5) [OF q, of b t] by simp
qed

lemma getExpired_exact_aux:
  assumes q: "tq_ok q"
  shows "\<exists>acts. getExpired q now =
      Inr (filter (\<lambda>e. fst e \<le> now) (timers q),
           q\<lparr>timers := filter (\<lambda>e. \<not> fst e \<le> now) (timers q), activeTimers := acts\<rparr>) \<and>
    tq_ok (q\<lparr>timers := filter (\<lambda>e. \<not> fst e \<le> now) (timers q), activeTimers := acts\<rparr>)"
proof -
  let ?s = "(now, UINTPTR_MAX)"
  let ?ex = "filter (\<lambda>e. fst e \<le> now) (timers q)"
  let ?re = "filter (\<lambda>e. \<not> fst e \<le> now) (timers q)"
  let ?q1 = "q\<lparr>timers := ?re\<rparr>"
  have cmp: "e < ?s \<longleftrightarrow> fst e \<le> now" if m: "e \<in> set (timers q)" for e
  proof -
    obtain t where "heap q (snd e) = Some t" using tq_okD(3) [OF q, of "fst e" "snd e"] m by auto
    then show ?thesis using expired_iff [of "snd e" "fst e" now] tq_okD(5) [OF q, of "snd e" t] by simp
  qed
  have ex: "oset_below ?s (timers q) = ?ex"
    unfolding oset_below_filter [OF tq_okD(1) [OF q]] by (rule filter_cong) (use cmp in auto)
  have re: "oset_from ?s (timers q) = ?re"
    unfolding oset_from_filter [OF tq_okD(1) [OF q]] by (rule filter_cong) (use cmp in auto)
  have inj: "inj_on snd (set (timers q))"
    by (rule inj_onI) (metis tq_okD(3) [OF q] option.inject prod.collapse)
  have d: "distinct (map snd ?ex)"
    using oset_distinct [OF tq_okD(1) [OF q]] inj by (auto simp: distinct_map inj_on_def)
  have k: "snd e \<in> dom (heap ?q1) \<and> active_key ?q1 e \<in> set (activeTimers ?q1)" if "e \<in> set ?ex" for e
    using tq_okD(3) [OF q, of "fst e" "snd e"] that by (auto simp: active_key_def)
  have o1: "oset (activeTimers ?q1)" using tq_okD(2) [OF q] by simp
  obtain acts where a: "erase_active ?ex ?q1 = Inr (?q1\<lparr>activeTimers := acts\<rparr>)" "oset acts"
    "set acts = set (activeTimers ?q1) - active_key ?q1 ` set ?ex"
    using erase_active_ok [OF o1 k d] by blast
  have "active_key ?q1 = active_key q" by (rule ext) (simp add: active_key_def)
  then have ok: "tq_ok (q\<lparr>timers := ?re, activeTimers := acts\<rparr>)" using tq_ok_split [OF q a(2), of now] a(3) by simp
  have "?re = [] \<or> now < fst (hd ?re)"
    using hd_in_set [of ?re] by (metis (no_types, lifting) mem_Collect_eq not_le set_filter)
  then have "getExpired q now = Inr (?ex, q\<lparr>timers := ?re, activeTimers := acts\<rparr>)"
    using a(1) tq_ok_sizes_agree [OF q] tq_ok_sizes_agree [OF ok]
    by (simp add: getExpired_def Let_def ex re)
  then show ?thesis using ok by blast
qed

text \<open>One round of the loop of \<open>reset\<close>: the timer of the entry is queued again or freed.\<close>

lemma reset_each_first:
  assumes q: "tq_ok q" and off: "off_queue q (a # map snd es)"
  shows "\<exists>q1. reset_each rnd now ((w, a) # es) q = reset_each rnd now es q1 \<and> tq_ok q1 \<and>
    heap q1 = (heap q)(a := reset_obj rnd now q a) \<and>
    set (timers q1) = set (timers q) \<union> {(expiration t, a) | t. reset_obj rnd now q a = Some t} \<and>
    cancelingTimers q1 = cancelingTimers q \<and> callingExpiredTimers q1 = callingExpiredTimers q \<and>
    timerfdSetting q1 = timerfdSetting q"
proof -
  obtain t where t: "heap q a = Some t" using off by (auto simp: off_queue_def)
  have n: "a \<notin> snd ` set (timers q)" using off by (auto simp: off_queue_def)
  let ?keep = "repeat t \<and> (a, sequence t) \<notin> set (cancelingTimers q)"
  let ?t' = "Timer_restart rnd t now"
  let ?q0 = "q\<lparr>heap := (heap q)(a := (if ?keep then Some ?t' else None))\<rparr>"
  have q0: "tq_ok ?q0" using q n tq_okD(5) [OF q t] by (rule tq_ok_heap_update)
  show ?thesis
  proof (cases ?keep)
    case True
    then obtain ec q1 where "tq_insert ?q0 a = Inr (ec, q1)" "tq_ok q1"
      "q1 = ?q0\<lparr>timers := insort (expiration ?t', a) (timers ?q0),
           activeTimers := insort (a, sequence ?t') (activeTimers ?q0)\<rparr>"
      using tq_insert_ok [OF q0, of a ?t'] n by auto
    then show ?thesis using True t by (intro exI [of _ q1]) (auto simp: set_insort_key reset_obj_def)
  next
    case False
    then show ?thesis using q0 t by (intro exI [of _ ?q0]) (auto simp: reset_obj_def)
  qed
qed

lemma reset_obj_cong:
  "heap q1 b = heap q b \<Longrightarrow> cancelingTimers q1 = cancelingTimers q \<Longrightarrow> reset_obj rnd now q1 b = reset_obj rnd now q b"
  by (simp add: reset_obj_def split: option.split)

lemma reset_each_ok:
  assumes "tq_ok q" "off_queue q (map snd es)"
  shows "\<exists>q'. reset_each rnd now es q = Inr q' \<and> tq_ok q' \<and>
    (\<forall>a. heap q' a = (if a \<in> snd ` set es then reset_obj rnd now q a else heap q a)) \<and>
    set (timers q') = set (timers q) \<union>
      {(expiration t, a) | t a. a \<in> snd ` set es \<and> reset_obj rnd now q a = Some t} \<and>
    cancelingTimers q' = cancelingTimers q \<and> callingExpiredTimers q' = callingExpiredTimers q \<and>
    timerfdSetting q' = timerfdSetting q"
  using assms
proof (induction es arbitrary: q)
  case Nil
  then show ?case by simp
next
  case (Cons e es)
  obtain w a where e: "e = (w, a)" by (cases e)
  have off: "a \<notin> snd ` set (timers q)" "a \<notin> snd ` set es"
    using Cons.prems(2) e by (auto simp: off_queue_def image_iff)
  obtain q1 where q1: "reset_each rnd now (e # es) q = reset_each rnd now es q1" "tq_ok q1"
      "heap q1 = (heap q)(a := reset_obj rnd now q a)"
      "set (timers q1) = set (timers q) \<union> {(expiration t, a) | t. reset_obj rnd now q a = Some t}"
      "cancelingTimers q1 = cancelingTimers q" "callingExpiredTimers q1 = callingExpiredTimers q"
      "timerfdSetting q1 = timerfdSetting q"
    using reset_each_first [OF Cons.prems(1), of a es rnd now w] Cons.prems(2) e by auto
  have o1: "off_queue q1 (map snd es)"
    using Cons.prems(2) off q1(3,4) e by (auto simp: off_queue_def intro: rev_image_eqI)
  have same: "reset_obj rnd now q1 b = reset_obj rnd now q b" if "b \<in> snd ` set es" for b
    using that off(2) q1(3,5) by (intro reset_obj_cong) auto
  obtain q' where q': "reset_each rnd now es q1 = Inr q'" "tq_ok q'"
    "\<forall>b. heap q' b = (if b \<in> snd ` set es then reset_obj rnd now q1 b else heap q1 b)"
    "set (timers q') = set (timers q1) \<union>
      {(expiration t, b) | t b. b \<in> snd ` set es \<and> reset_obj rnd now q1 b = Some t}"
    "cancelingTimers q' = cancelingTimers q1" "callingExpiredTimers q' = callingExpiredTimers q1"
    "timerfdSetting q' = timerfdSetting q1"
    using Cons.IH [OF q1(2) o1] by blast
  have "heap q' b = (if b \<in> snd ` set (e # es) then reset_obj rnd now q b else heap q b)" for b
    using q'(3) q1(3) same off(2) e by (cases "b = a") simp_all
  moreover have "{(expiration t, b) | t b. b \<in> snd ` set es \<and> reset_obj rnd now q1 b = Some t} =
      {(expiration t, b) | t b. b \<in> snd ` set es \<and> reset_obj rnd now q b = Some t}"
    by (rule Collect_cong) (use same in metis)
  then have "set (timers q') = set (timers q) \<union>
      {(expiration t, b) | t b. b \<in> snd ` set (e # es) \<and> reset_obj rnd now q b = Some t}"
    unfolding q'(4) q1(4) list.set image_insert e snd_conv by blast
  ultimately show ?case using q1 q' by simp
qed

definition next_armed :: "'cb TimerQueue \<Rightarrow> bool" where
  "next_armed q \<longleftrightarrow>
     (timers q \<noteq> [] \<and> Timestamp_valid (fst (hd (timers q))) \<longrightarrow>
        (\<exists>clock. timerfdSetting q = Some (howMuchTimeFromNow clock (fst (hd (timers q))))))"

lemma tq_reset_ok:
  assumes q: "tq_ok q" and off: "off_queue q (map snd es)"
  shows "\<exists>q'. tq_reset rnd clk q es now = Inr q' \<and> tq_ok q' \<and>
    (\<forall>a. heap q' a = (if a \<in> snd ` set es then reset_obj rnd now q a else heap q a)) \<and>
    set (timers q') = set (timers q) \<union>
      {(expiration t, a) | t a. a \<in> snd ` set es \<and> reset_obj rnd now q a = Some t} \<and>
    callingExpiredTimers q' = callingExpiredTimers q \<and>
    (no_leak q (map snd es) \<longrightarrow> no_leak q' []) \<and> next_armed q'"
proof -
  obtain q3 where q3: "reset_each rnd now es q = Inr q3" "tq_ok q3"
    "\<forall>a. heap q3 a = (if a \<in> snd ` set es then reset_obj rnd now q a else heap q a)"
    "set (timers q3) = set (timers q) \<union>
      {(expiration t, a) | t a. a \<in> snd ` set es \<and> reset_obj rnd now q a = Some t}"
    "callingExpiredTimers q3 = callingExpiredTimers q"
    using reset_each_ok [OF q off, of rnd now] by blast
  have leak: "no_leak q3 []" if l: "no_leak q (map snd es)"
  proof -
    have "a \<in> dom (heap q3) \<longleftrightarrow> a \<in> snd ` set (timers q3)" for a
    proof (cases "a \<in> snd ` set es")
      case True
      then have "a \<notin> snd ` set (timers q)" using off by (auto simp: off_queue_def)
      then have "a \<in> snd ` set (timers q3) \<longleftrightarrow> (\<exists>t. reset_obj rnd now q a = Some t)"
        unfolding q3(4) image_Un using True by force
      then show ?thesis using True q3(3) by (simp add: dom_def)
    next
      case False
      then have "a \<in> snd ` set (timers q3) \<longleftrightarrow> a \<in> snd ` set (timers q)"
        unfolding q3(4) image_Un by force
      then show ?thesis using False l q3(3) by (auto simp: no_leak_def dom_def)
    qed
    then show ?thesis by (auto simp: no_leak_def)
  qed
  let ?arm = "timers q3 \<noteq> [] \<and> Timestamp_valid (fst (hd (timers q3)))"
  let ?q' = "if ?arm then resetTimerfd (clk q3) q3 (fst (hd (timers q3))) else q3"
  have "tq_reset rnd clk q es now = Inr ?q'"
  proof (cases "timers q3")
    case Nil
    then show ?thesis using q3(1) by (simp add: tq_reset_def Timestamp_valid_def Timestamp_invalid_def)
  next
    case (Cons e es)
    obtain w a where e: "e = (w, a)" by (cases e)
    then obtain t where "heap q3 a = Some t" "expiration t = w"
      using tq_okD(3) [OF q3(2), of w a] Cons by auto
    then show ?thesis using q3(1) Cons e by (simp add: tq_reset_def)
  qed
  moreover have "tq_ok ?q'" using q3(2) by (simp add: resetTimerfd_def tq_ok_def)
  moreover have "timers ?q' = timers q3" "heap ?q' = heap q3"
    "callingExpiredTimers ?q' = callingExpiredTimers q3" by (simp_all add: resetTimerfd_def)
  moreover have "next_armed ?q'" by (auto simp: next_armed_def resetTimerfd_def)
  ultimately show ?thesis using q3(3-5) leak
    by (intro exI [of _ ?q']) (simp add: no_leak_def)
qed

text \<open>The state in which the callbacks of one expiry round start.\<close>

lemma getExpired_start:
  assumes q: "tq_ok q"
  shows "\<exists>q1. getExpired q now = Inr (filter (\<lambda>e. fst e \<le> now) (timers q), q1) \<and>
    tq_ok (q1\<lparr>callingExpiredTimers := True, cancelingTimers := []\<rparr>) \<and>
    off_queue (q1\<lparr>callingExpiredTimers := True, cancelingTimers := []\<rparr>) (map snd (filter (\<lambda>e. fst e \<le> now) (timers q))) \<and>
    (no_leak q [] \<longrightarrow> no_leak (q1\<lparr>callingExpiredTimers := True, cancelingTimers := []\<rparr>) (map snd (filter (\<lambda>e. fst e \<le> now) (timers q)))) \<and>
    heap q1 = heap q \<and> timers q1 = filter (\<lambda>e. \<not> fst e \<le> now) (timers q)"
proof -
  let ?ex = "filter (\<lambda>e. fst e \<le> now) (timers q)"
  let ?re = "filter (\<lambda>e. \<not> fst e \<le> now) (timers q)"
  obtain acts where g: "getExpired q now = Inr (?ex, q\<lparr>timers := ?re, activeTimers := acts\<rparr>)"
    "tq_ok (q\<lparr>timers := ?re, activeTimers := acts\<rparr>)"
    using getExpired_exact_aux [OF q] by blast
  have inj: "inj_on snd (set (timers q))"
    by (rule inj_onI) (metis tq_okD(3) [OF q] option.inject prod.collapse)
  have "distinct (map snd ?ex)"
    using inj oset_distinct [OF tq_okD(1) [OF q]] by (auto simp: distinct_map inj_on_def)
  moreover have "snd e \<in> dom (heap q) \<and> snd e \<notin> snd ` set ?re" if m: "e \<in> set ?ex" for e
    using m tq_okD(3) [OF q, of "fst e" "snd e"] inj by (auto simp: inj_on_def)
  ultimately have "off_queue (q\<lparr>timers := ?re, activeTimers := acts, callingExpiredTimers := True, cancelingTimers := []\<rparr>) (map snd ?ex)"
    by (auto simp: off_queue_def)
  moreover have "no_leak q [] \<longrightarrow> no_leak (q\<lparr>timers := ?re, activeTimers := acts, callingExpiredTimers := True, cancelingTimers := []\<rparr>) (map snd ?ex)"
    by (auto simp: no_leak_def)
  ultimately show ?thesis using g by (auto simp: tq_ok_def)
qed

text \<open>One expiry round: either memory is exhausted inside a callback, or the queue \<open>q2\<close> that
  the callbacks leave behind is turned into the result by \<open>reset\<close>.\<close>

lemma tq_handleRead_ok:
  assumes q: "tq_ok q" and al: "allocator_ok alloc" and ex: "ex = filter (\<lambda>e. fst e \<le> now) (timers q)"
  shows "(tq_handleRead rnd script alloc clk now q = Inl BadAlloc \<and>
      (\<exists>q1. run_expired script alloc clk ex q1 = Inl BadAlloc)) \<or>
    (\<exists>q1 q2 q'. tq_handleRead rnd script alloc clk now q = Inr q' \<and> tq_ok q' \<and>
       heap q1 = heap q \<and> callingExpiredTimers q1 \<and> cancelingTimers q1 = [] \<and>
       timers q1 = filter (\<lambda>e. \<not> fst e \<le> now) (timers q) \<and>
       run_expired script alloc clk ex q1 = Inr q2 \<and> keeps (map snd ex) q1 q2 \<and>
       (\<forall>w a t. (w, a) \<in> set ex \<and> heap q a = Some t \<and>
           (\<forall>p. CallCancel (a, sequence t) \<in> set (script (callback t) p)) \<longrightarrow>
           (a, sequence t) \<in> set (cancelingTimers q2)) \<and>
       (\<forall>a. heap q' a = (if a \<in> snd ` set ex then reset_obj rnd now q2 a else heap q2 a)) \<and>
       set (timers q') = set (timers q2) \<union>
         {(expiration t, a) | t a. a \<in> snd ` set ex \<and> reset_obj rnd now q2 a = Some t} \<and>
       \<not> callingExpiredTimers q' \<and> (no_leak q [] \<longrightarrow> no_leak q' []) \<and> next_armed q')"
proof -
  obtain q0 where g: "getExpired q now = Inr (ex, q0)"
    "tq_ok (q0\<lparr>callingExpiredTimers := True, cancelingTimers := []\<rparr>)"
    "off_queue (q0\<lparr>callingExpiredTimers := True, cancelingTimers := []\<rparr>) (map snd ex)"
    "no_leak q [] \<longrightarrow> no_leak (q0\<lparr>callingExpiredTimers := True, cancelingTimers := []\<rparr>) (map snd ex)"
    "heap q0 = heap q" "timers q0 = filter (\<lambda>e. \<not> fst e \<le> now) (timers q)"
    using getExpired_start [OF q, of now] ex by blast
  let ?q1 = "q0\<lparr>callingExpiredTimers := True, cancelingTimers := []\<rparr>"
  note run = run_expired_ok [OF g(2,3) al, where es = ex and script = script and clk = clk]
  show ?thesis
  proof (cases "run_expired script alloc clk ex ?q1")
    case (Inl e)
    then show ?thesis using run g(1) by (auto simp: tq_handleRead_def)
  next
    case (Inr q2)
    then have q2: "keeps (map snd ex) ?q1 q2"
      "\<forall>w a t. (w, a) \<in> set ex \<and> heap q a = Some t \<and>
           (\<forall>p. CallCancel (a, sequence t) \<in> set (script (callback t) p)) \<longrightarrow>
           (a, sequence t) \<in> set (cancelingTimers q2)"
      using run g(5) by auto
    let ?q2 = "q2\<lparr>callingExpiredTimers := False\<rparr>"
    have ok2: "tq_ok ?q2" "off_queue ?q2 (map snd ex)"
      using keepsD [OF q2(1)] by (simp_all add: tq_ok_def off_queue_def)
    have obj: "reset_obj rnd now ?q2 = reset_obj rnd now q2"
      by (auto simp: fun_eq_iff reset_obj_def split: option.split)
    obtain q' where q': "tq_reset rnd clk ?q2 ex now = Inr q'" "tq_ok q'"
      "\<forall>a. heap q' a = (if a \<in> snd ` set ex then reset_obj rnd now q2 a else heap q2 a)"
      "set (timers q') = set (timers q2) \<union>
        {(expiration t, a) | t a. a \<in> snd ` set ex \<and> reset_obj rnd now q2 a = Some t}"
      "\<not> callingExpiredTimers q'" "no_leak ?q2 (map snd ex) \<longrightarrow> no_leak q' []" "next_armed q'"
      using tq_reset_ok [OF ok2, of rnd clk now] unfolding obj by auto
    have "tq_handleRead rnd script alloc clk now q = Inr q'"
      using g(1) Inr q'(1) by (simp add: tq_handleRead_def)
    moreover have "no_leak q [] \<longrightarrow> no_leak q' []"
      using q'(6) q2(1) g(4) by (simp add: keeps_def no_leak_def)
    ultimately show ?thesis using q' q2 g(5,6) Inr
      by (intro disjI2 exI [of _ ?q1] exI [of _ q2] exI [of _ q'] conjI) simp_all
  qed
qed

subsection \<open>Properties\<close>

text \<open>Every queue the loop's thread can bring about: from an empty queue by adding,
  cancelling and expiring timers in any order, with callbacks that do so as well.\<close>

inductive tq_reach :: "(rat \<Rightarrow> rat) \<Rightarrow> ((nat \<rightharpoonup> 'cb Timer) \<Rightarrow> nat option) \<Rightarrow> 'cb TimerQueue \<Rightarrow> bool"
  for rnd alloc where
  new: "tq_reach rnd alloc new_TimerQueue"
| add: "tq_reach rnd alloc q \<Longrightarrow> addTimer alloc now q cb w iv = Inr (tid, q') \<Longrightarrow> tq_reach rnd alloc q'"
| cancel: "tq_reach rnd alloc q \<Longrightarrow> cancelInLoop q tid = Inr q' \<Longrightarrow> tq_reach rnd alloc q'"
| expire: "tq_reach rnd alloc q \<Longrightarrow> tq_handleRead rnd script alloc clk now q = Inr q' \<Longrightarrow>
    tq_reach rnd alloc q'"

lemma off_queue_Nil [simp]: "off_queue q []"
  by (simp add: off_queue_def)

lemma tq_reach_ok:
  assumes "tq_reach rnd alloc q" "allocator_ok alloc"
  shows "tq_ok q \<and> no_leak q []"
  using assms(1)
proof (induction rule: tq_reach.induct)
  case new
  then show ?case by (simp add: no_leak_def new_TimerQueue_def tq_ok_def)
next
  case (add q now cb w iv tid q')
  then show ?case
    using addTimer_keeps [OF _ off_queue_Nil assms(2) add.hyps(2)] by (auto simp: keeps_def)
next
  case (cancel q tid q')
  then show ?case using cancelInLoop_keeps [of q "[]" tid] by (force simp: keeps_def)
next
  case (expire q script clk now q')
  then show ?case using tq_handleRead_ok [OF _ assms(2) refl, of q rnd script clk now] by auto
qed

text \<open>In every reachable state of the timer queue both ordered sets hold the same live
  timers, every live timer is in them (no timer leaks), and no operation can fail an assertion or
  touch a freed timer: addTimer and handleRead, whatever the callbacks add or cancel, fail only
  when memory is exhausted, and cancel never fails.\<close>

lemma timer_queue_safe:
  assumes "tq_reach rnd alloc q" "allocator_ok alloc"
  shows "tq_ok q \<and> dom (heap q) = snd ` set (timers q) \<and>
    (addTimer alloc now q cb w iv = Inl e \<longrightarrow> e = BadAlloc) \<and>
    (\<exists>q'. cancelInLoop q tid = Inr q') \<and>
    (tq_handleRead rnd script alloc clk now q = Inl e \<longrightarrow> e = BadAlloc)"
proof -
  have q: "tq_ok q" "no_leak q []" using tq_reach_ok [OF assms] by auto
  have "addTimer alloc now q cb w iv = Inl e \<longrightarrow> e = BadAlloc"
    using addTimer_keeps [OF q(1) off_queue_Nil assms(2) refl, of now cb w iv] by auto
  moreover have "\<exists>q'. cancelInLoop q tid = Inr q'"
    using cancelInLoop_keeps [OF q(1) off_queue_Nil] by blast
  moreover have "tq_handleRead rnd script alloc clk now q = Inl e \<longrightarrow> e = BadAlloc"
    using tq_handleRead_ok [OF q(1) assms(2) refl, of rnd script clk now] by auto
  ultimately show ?thesis using q by (simp add: no_leak_def)
qed

definition bump_alloc :: "(nat \<rightharpoonup> 'cb Timer) \<Rightarrow> nat option" where
  "bump_alloc h = (case filter (\<lambda>a. h a = None) [1..<9] of [] \<Rightarrow> None | a # _ \<Rightarrow> Some a)"

lemma bump_alloc_ok: "allocator_ok bump_alloc"
proof -
  have "h a = None \<and> a < UINTPTR_MAX" if "filter (\<lambda>a. h a = None) [1..<9] = a # as"
    for h :: "nat \<rightharpoonup> 'cb Timer" and a as
  proof -
    have "a \<in> set (filter (\<lambda>a. h a = None) [1..<9])" using that by simp
    then show ?thesis by (auto simp: UINTPTR_MAX_def)
  qed
  then show ?thesis by (auto simp: allocator_ok_def bump_alloc_def split: list.splits)
qed

definition queue3 :: "nat TimerQueue" where
  "queue3 = (case run_calls bump_alloc (\<lambda>_. Timestamp 1000)
      [CallAdd 7 (Timestamp 5000) 0, CallAdd 8 (Timestamp 2000) (1/2), CallAdd 9 (Timestamp 9000) 2] new_TimerQueue
    of Inr q \<Rightarrow> q | Inl _ \<Rightarrow> new_TimerQueue)"

lemma run_calls_reach:
  "tq_reach rnd alloc q \<Longrightarrow> run_calls alloc clk cs q = Inr q' \<Longrightarrow> tq_reach rnd alloc q'"
  by (induction alloc clk cs q rule: run_calls.induct)
    (auto intro: tq_reach.intros simp: rbind_def split: sum.splits)

lemma queue3_reach: "tq_reach id bump_alloc queue3"
  unfolding queue3_def
  by (simp only: split: sum.split) (blast intro: tq_reach.new run_calls_reach [OF tq_reach.new])

lemma queue3_value: "timers queue3 = [(Timestamp 2000, 2), (Timestamp 5000, 1), (Timestamp 9000, 3)]"
  "activeTimers queue3 = [(1, 1), (2, 2), (3, 3)]"
  by code_simp+

lemma queue3_heap:
  "heap queue3 1 = Some \<lparr>callback = 7, expiration = Timestamp 5000, interval = 0, repeat = False, sequence = 1\<rparr>"
  "heap queue3 2 = Some \<lparr>callback = 8, expiration = Timestamp 2000, interval = 1 / 2, repeat = True, sequence = 2\<rparr>"
  by code_simp+

lemma queue3_ok: "tq_ok queue3"
  using tq_reach_ok [OF queue3_reach bump_alloc_ok] by simp

text \<open>C19: getExpired hands out exactly the timers whose expiry is not after \<open>now\<close>, in order of
  expiry, and keeps exactly the others, in order; the timers themselves are untouched and both
  sets agree again.\<close>

theorem getExpired_exact:
  assumes "tq_ok q"
  shows "\<exists>q'. getExpired q now = Inr (filter (\<lambda>e. fst e \<le> now) (timers q), q') \<and>
    timers q' = filter (\<lambda>e. now < fst e) (timers q) \<and> heap q' = heap q \<and> tq_ok q' \<and>
    sorted (map fst (filter (\<lambda>e. fst e \<le> now) (timers q)))"
proof -
  have "sorted (timers q)" using tq_okD(1) [OF assms] by (simp add: oset_iff)
  then have "sorted_wrt (\<lambda>x y. fst x \<le> fst y) (timers q)"
    by (rule sorted_wrt_mono_rel [rotated]) (auto simp: less_eq_prod_def)
  then have "sorted (map fst (filter (\<lambda>e. fst e \<le> now) (timers q)))"
    by (simp add: sorted_map sorted_wrt_filter)
  then show ?thesis using getExpired_exact_aux [OF assms, of now] by (auto simp: not_le)
qed

theorem getExpired_exact_witness:
  "\<exists>q'. getExpired queue3 (Timestamp 5000) = Inr ([(Timestamp 2000, 2), (Timestamp 5000, 1)], q') \<and>
    timers q' = [(Timestamp 9000, 3)]"
  using getExpired_exact [OF queue3_ok, of "Timestamp 5000"]
  by (auto simp: queue3_value less_eq_Timestamp_def less_Timestamp_def)

lemma run_calls_no_add:
  "(\<And>cb w iv. CallAdd cb w iv \<notin> set cs) \<Longrightarrow> run_calls alloc clk cs q \<noteq> Inl BadAlloc"
proof (induction cs arbitrary: q)
  case (Cons c cs)
  have "cancelInLoop q tid \<noteq> Inl BadAlloc" for tid
    by (auto simp: cancelInLoop_def ensure_def rbind_def deref_def oset_erase_def split: option.splits)
  with Cons show ?case by (cases c) (auto simp: rbind_def split: sum.splits)
qed simp

lemma run_expired_no_add:
  "(\<And>cb p cb' w iv. CallAdd cb' w iv \<notin> set (script cb p)) \<Longrightarrow>
   run_expired script alloc clk es q \<noteq> Inl BadAlloc"
proof (induction es arbitrary: q)
  case (Cons e es)
  have "run_calls alloc clk (script cb p) p \<noteq> Inl BadAlloc" for cb p
    by (rule run_calls_no_add) (rule Cons.prems)
  then show ?case using Cons.IH [OF Cons.prems]
    by (cases e) (auto simp: deref_def rbind_def split: option.splits sum.splits)
qed simp

lemma run_calls_silent: "run_expired (\<lambda>_ _. []) alloc clk es q = Inr q'
  \<Longrightarrow> q' = q"
proof (induction es arbitrary: q)
  case (Cons e es)
  then show ?case by (cases e) (auto simp: deref_def split: option.splits)
qed simp



text \<open>A timer that cancels itself from its own callback, \<open>loop->cancel(id)\<close> inside the callback
  of \<open>id\<close>, is freed at the end of that round and not queued again, periodic or not.\<close>

lemma self_cancel_stops:
  assumes "tq_ok q" "allocator_ok alloc"
    "(w, a) \<in> set (timers q)" "w \<le> now" "heap q a = Some t"
    "\<forall>p. CallCancel (a, sequence t) \<in> set (script (callback t) p)"
    "tq_handleRead rnd script alloc clk now q = Inr q'"
  shows "heap q' a = None \<and> a \<notin> snd ` set (timers q') \<and> a \<notin> fst ` set (activeTimers q')"
proof -
  let ?ex = "filter (\<lambda>e. fst e \<le> now) (timers q)"
  obtain q1 q2 where q2: "tq_ok q'" "heap q1 = heap q" "keeps (map snd ?ex) q1 q2"
    "(a, sequence t) \<in> set (cancelingTimers q2)"
    "\<forall>a. heap q' a = (if a \<in> snd ` set ?ex then reset_obj rnd now q2 a else heap q2 a)"
    using tq_handleRead_ok [OF assms(1,2) refl, of rnd script clk now] assms(3-7) by auto
  have a: "a \<in> snd ` set ?ex" using assms(3,4) by force
  then have "heap q2 a = Some t" using q2(2,3) assms(3-5) by (auto simp: keeps_def)
  then have none: "heap q' a = None" using q2(4,5) a by (simp add: reset_obj_def)
  then have "a \<notin> snd ` set (timers q')" using tq_okD(3) [OF q2(1)] by force
  then show ?thesis using none tq_ok_same_addresses [OF q2(1)] by simp
qed

text \<open>C40: The comparison in \<open>TimerQueue::insert\<close> is the wrong way round: a timer that is earlier
  than all queued ones becomes the first of the queue, and yet the kernel timer keeps its old,
  later setting, so the new timer fires late.\<close>

theorem earliest_timer_not_armed:
  assumes "tq_ok q" "allocator_ok alloc" "timers q \<noteq> []" "w < fst (hd (timers q))"
    "addTimer alloc now q cb w iv = Inr (tid, q')"
  shows "hd (timers q') = (w, fst tid) \<and> timerfdSetting q' = timerfdSetting q"
proof -
  obtain a where a: "alloc (heap q) = Some a" "heap q a = None" "a < UINTPTR_MAX"
    using assms(2,5) by (auto simp: addTimer_def allocator_ok_def split: option.splits)
  let ?q1 = "q\<lparr>heap := (heap q)(a \<mapsto> new_Timer cb w iv (numCreated q)), numCreated := numCreated q + 1\<rparr>"
  have off: "a \<notin> snd ` set (timers q)" using tq_okD(3) [OF assms(1)] a(2) by force
  have "tq_ok ?q1"
    using tq_ok_heap_update [OF assms(1) off a(3), of "Some (new_Timer cb w iv (numCreated q))"]
    by (simp add: tq_ok_def)
  then obtain ec q2 where q2: "tq_insert ?q1 a = Inr (ec, q2)" "ec \<longleftrightarrow> w > fst (hd (timers q))"
    "timers q2 = insort (w, a) (timers q)" "timerfdSetting q2 = timerfdSetting q"
    using tq_insert_ok [of ?q1 a "new_Timer cb w iv (numCreated q)"] off assms(3)
    by (auto simp: new_Timer_def)
  have "\<not> ec" using q2(2) assms(4) by (metis less_asym)
  then have "q' = q2" "fst tid = a"
    using assms(5) a(1) q2(1) by (auto simp: addTimer_def addTimerInLoop_def)
  moreover have "insort (w, a) (timers q) = (w, a) # timers q"
    using assms(3,4) by (cases "timers q") (auto simp: less_eq_prod_def)
  ultimately show ?thesis using q2(3,4) by simp
qed

theorem earliest_timer_not_armed_witness:
  "\<exists>tid q'. addTimer bump_alloc (Timestamp 1000) queue3 1 (Timestamp 1500) 0 = Inr (tid, q') \<and>
     hd (timers q') = (Timestamp 1500, fst tid) \<and> timerfdSetting q' = timerfdSetting queue3"
proof -
  have "\<not> isl (addTimer bump_alloc (Timestamp 1000) queue3 1 (Timestamp 1500) 0)" by code_simp
  then obtain tid q' where "addTimer bump_alloc (Timestamp 1000) queue3 1 (Timestamp 1500) 0 = Inr (tid, q')"
    by (metis isl_def sum.exhaust surj_pair)
  then show ?thesis
    using earliest_timer_not_armed [OF queue3_ok bump_alloc_ok, of "Timestamp 1500"]
    by (auto simp: queue3_value less_Timestamp_def)
qed

text \<open>The relative time given to the kernel timer is a normalised timespec of at least 100
  microseconds, and is exactly the time that is left when that is more.\<close>

lemma howMuchTimeFromNow_normal:
  assumes "howMuchTimeFromNow now w = (sec, nsec)"
  shows "0 \<le> nsec \<and> nsec < 1000000000 \<and> 0 \<le> sec \<and>
    sec * 1000000000 + nsec =
      1000 * max 100 (microSecondsSinceEpoch w - microSecondsSinceEpoch now)"
proof -
  define m where "m = max 100 (microSecondsSinceEpoch w - microSecondsSinceEpoch now)"
  have m: "0 \<le> m" by (simp add: m_def)
  have "sec = m div 1000000" "nsec = m mod 1000000 * 1000"
    using assms sdiv_nonneg [OF m] smod_nonneg [OF m]
    by (auto simp: howMuchTimeFromNow_def Let_def m_def kMicroSecondsPerSecond_def max_def)
  then show ?thesis using m unfolding m_def [symmetric]
    by (auto simp: pos_imp_zdiv_nonneg_iff) presburger+
qed

text \<open>A TimerId is the address and the sequence number: cancelling with an identifier whose
  timer is gone changes nothing outside a round of callbacks, also when a new timer lives at the
  same address.\<close>

lemma stale_cancel_harmless:
  assumes "tq_ok q" "\<not> callingExpiredTimers q" "\<And>t. heap q a = Some t \<Longrightarrow> sequence t \<noteq> sq"
  shows "cancelInLoop q (a, sq) = Inr q"
proof -
  have "(a, sq) \<notin> set (activeTimers q)" using tq_okD(4) [OF assms(1)] assms(3) by blast
  then show ?thesis using cancelInLoop_inactive [OF assms(1)] assms(2) by simp
qed

end
