(* ===== verification/Channel.thy ===== *)
theory Channel
  imports Timestamp Format
begin

unbundle bit_operations_syntax

section \<open>Channels (src/src/Channel.h, src/src/Channel.cpp)\<close>

text \<open>
  A channel ties a file descriptor to its callbacks: the events it wants, the events the poller
  reported, the index the poller keeps in it, and the dispatch of reported events to callbacks.
  Event masks are 32-bit words with the bits of \<open>poll.h\<close>. A callback is a value of the type
  \<open>'cb\<close>; what running one does, to the channel itself and to the rest of the program, is the
  argument \<open>run\<close> of the dispatch. \<open>tie_alive\<close> is what \<open>tie_.lock()\<close> finds: whether the owner
  that the channel is tied to still exists.
\<close>

type_synonym mask = "32 word"

definition POLLIN :: mask where "POLLIN = 0x1"
definition POLLPRI :: mask where "POLLPRI = 0x2"
definition POLLOUT :: mask where "POLLOUT = 0x4"
definition POLLERR :: mask where "POLLERR = 0x8"
definition POLLHUP :: mask where "POLLHUP = 0x10"
definition POLLNVAL :: mask where "POLLNVAL = 0x20"
definition POLLRDHUP :: mask where "POLLRDHUP = 0x2000"

lemmas poll_bits = POLLIN_def POLLPRI_def POLLOUT_def POLLERR_def POLLHUP_def POLLNVAL_def POLLRDHUP_def

definition kNoneEvent :: mask where "kNoneEvent = 0"
definition kReadEvent :: mask where "kReadEvent = POLLIN OR POLLPRI"
definition kWriteEvent :: mask where "kWriteEvent = POLLOUT"

record 'cb Channel =
  fd :: int
  events :: mask
  revents :: mask
  index :: int
  logHup :: bool
  tied :: bool
  eventHandling :: bool
  addedToLoop :: bool
  readCallback :: "'cb option"
  writeCallback :: "'cb option"
  closeCallback :: "'cb option"
  errorCallback :: "'cb option"

definition new_Channel :: "int \<Rightarrow> 'cb Channel" where
  "new_Channel f =
     \<lparr>fd = f, events = 0, revents = 0, index = -1, logHup = True, tied = False,
      eventHandling = False, addedToLoop = False,
      readCallback = None, writeCallback = None, closeCallback = None, errorCallback = None\<rparr>"

definition setReadCallback :: "'cb \<Rightarrow> 'cb Channel \<Rightarrow> 'cb Channel" where
  "setReadCallback cb c = c\<lparr>readCallback := Some cb\<rparr>"

definition setWriteCallback :: "'cb \<Rightarrow> 'cb Channel \<Rightarrow> 'cb Channel" where
  "setWriteCallback cb c = c\<lparr>writeCallback := Some cb\<rparr>"

definition setCloseCallback :: "'cb \<Rightarrow> 'cb Channel \<Rightarrow> 'cb Channel" where
  "setCloseCallback cb c = c\<lparr>closeCallback := Some cb\<rparr>"

definition setErrorCallback :: "'cb \<Rightarrow> 'cb Channel \<Rightarrow> 'cb Channel" where
  "setErrorCallback cb c = c\<lparr>errorCallback := Some cb\<rparr>"

definition channel_tie :: "'cb Channel \<Rightarrow> 'cb Channel" where
  "channel_tie c = c\<lparr>tied := True\<rparr>"

definition set_revents :: "mask \<Rightarrow> 'cb Channel \<Rightarrow> 'cb Channel" where
  "set_revents revt c = c\<lparr>revents := revt\<rparr>"

definition set_index :: "int \<Rightarrow> 'cb Channel \<Rightarrow> 'cb Channel" where
  "set_index idx c = c\<lparr>index := idx\<rparr>"

definition doNotLogHup :: "'cb Channel \<Rightarrow> 'cb Channel" where
  "doNotLogHup c = c\<lparr>logHup := False\<rparr>"

definition isNoneEvent :: "'cb Channel \<Rightarrow> bool" where
  "isNoneEvent c \<longleftrightarrow> events c = kNoneEvent"

definition isWriting :: "'cb Channel \<Rightarrow> bool" where
  "isWriting c \<longleftrightarrow> events c AND kWriteEvent \<noteq> 0"

definition isReading :: "'cb Channel \<Rightarrow> bool" where
  "isReading c \<longleftrightarrow> events c AND kReadEvent \<noteq> 0"

subsection \<open>The wanted events\<close>

text \<open>The assignment to \<open>events_\<close> in each operation; the \<open>update()\<close> that follows goes to the
  poller and is in the theory Poller.\<close>

datatype channel_op = EnableReading | DisableReading | EnableWriting | DisableWriting | DisableAll

fun new_events :: "channel_op \<Rightarrow> mask \<Rightarrow> mask" where
  "new_events EnableReading ev = ev OR kReadEvent"
| "new_events DisableReading ev = ev AND NOT kReadEvent"
| "new_events EnableWriting ev = ev OR kWriteEvent"
| "new_events DisableWriting ev = ev AND NOT kWriteEvent"
| "new_events DisableAll ev = kNoneEvent"

definition channel_apply :: "channel_op \<Rightarrow> 'cb Channel \<Rightarrow> 'cb Channel" where
  "channel_apply op c = c\<lparr>events := new_events op (events c)\<rparr>"

subsection \<open>Dispatch\<close>

datatype 'cb fired = FireClose 'cb | FireError 'cb | FireRead 'cb Timestamp | FireWrite 'cb

definition fire_if :: "bool \<Rightarrow> ('cb Channel \<Rightarrow> 'cb fired option) \<Rightarrow>
    ('cb fired \<Rightarrow> 'cb Channel \<times> 's \<Rightarrow> 'cb Channel \<times> 's) \<Rightarrow> 'cb Channel \<times> 's \<Rightarrow> 'cb Channel \<times> 's" where
  "fire_if cond cb run cs = (if cond then (case cb (fst cs) of Some f \<Rightarrow> run f cs | None \<Rightarrow> cs) else cs)"

definition handleEventWithGuard ::
  "('cb fired \<Rightarrow> 'cb Channel \<times> 's \<Rightarrow> 'cb Channel \<times> 's) \<Rightarrow> Timestamp \<Rightarrow> 'cb Channel \<times> 's \<Rightarrow> 'cb Channel \<times> 's" where
  "handleEventWithGuard run receiveTime cs0 =
     (let cs1 = ((fst cs0)\<lparr>eventHandling := True\<rparr>, snd cs0);
          r1 = revents (fst cs1);
          cs2 = fire_if (r1 AND POLLHUP \<noteq> 0 \<and> r1 AND POLLIN = 0)
                  (\<lambda>c. map_option FireClose (closeCallback c)) run cs1;
          cs3 = fire_if (revents (fst cs2) AND (POLLERR OR POLLNVAL) \<noteq> 0)
                  (\<lambda>c. map_option FireError (errorCallback c)) run cs2;
          cs4 = fire_if (revents (fst cs3) AND (POLLIN OR POLLPRI OR POLLRDHUP) \<noteq> 0)
                  (\<lambda>c. map_option (\<lambda>cb. FireRead cb receiveTime) (readCallback c)) run cs3;
          cs5 = fire_if (revents (fst cs4) AND POLLOUT \<noteq> 0)
                  (\<lambda>c. map_option FireWrite (writeCallback c)) run cs4
      in ((fst cs5)\<lparr>eventHandling := False\<rparr>, snd cs5))"

definition handleEvent ::
  "('cb fired \<Rightarrow> 'cb Channel \<times> 's \<Rightarrow> 'cb Channel \<times> 's) \<Rightarrow> bool \<Rightarrow> Timestamp \<Rightarrow> 'cb Channel \<times> 's \<Rightarrow> 'cb Channel \<times> 's" where
  "handleEvent run tie_alive receiveTime cs =
     (if tied (fst cs) then (if tie_alive then handleEventWithGuard run receiveTime cs else cs)
      else handleEventWithGuard run receiveTime cs)"

subsection \<open>Printing\<close>

definition eventsToString :: "int \<Rightarrow> mask \<Rightarrow> string" where
  "eventsToString f ev =
     dec_int f @ '': '' @
     (if ev AND POLLIN \<noteq> 0 then ''IN '' else '''') @
     (if ev AND POLLPRI \<noteq> 0 then ''PRI '' else '''') @
     (if ev AND POLLOUT \<noteq> 0 then ''OUT '' else '''') @
     (if ev AND POLLHUP \<noteq> 0 then ''HUP '' else '''') @
     (if ev AND POLLRDHUP \<noteq> 0 then ''RDHUP '' else '''') @
     (if ev AND POLLERR \<noteq> 0 then ''ERR '' else '''') @
     (if ev AND POLLNVAL \<noteq> 0 then ''NVAL '' else '''')"

definition channel_reventsToString :: "'cb Channel \<Rightarrow> string" where
  "channel_reventsToString c = eventsToString (fd c) (revents c)"

definition channel_eventsToString :: "'cb Channel \<Rightarrow> string" where
  "channel_eventsToString c = eventsToString (fd c) (events c)"

subsection \<open>What a channel wants\<close>

lemma poll_bit [simp]:
  "w AND POLLIN = 0 \<longleftrightarrow> \<not> bit w 0" "w AND POLLPRI = 0 \<longleftrightarrow> \<not> bit w 1"
  "w AND POLLOUT = 0 \<longleftrightarrow> \<not> bit w 2" "w AND POLLERR = 0 \<longleftrightarrow> \<not> bit w 3"
  "w AND POLLHUP = 0 \<longleftrightarrow> \<not> bit w 4" "w AND POLLNVAL = 0 \<longleftrightarrow> \<not> bit w 5"
  "w AND POLLRDHUP = 0 \<longleftrightarrow> \<not> bit w 13"
  using and_exp_eq_0_iff_not_bit [of w 0] and_exp_eq_0_iff_not_bit [of w 1]
    and_exp_eq_0_iff_not_bit [of w 2] and_exp_eq_0_iff_not_bit [of w 3]
    and_exp_eq_0_iff_not_bit [of w 4] and_exp_eq_0_iff_not_bit [of w 5]
    and_exp_eq_0_iff_not_bit [of w 13]
  by (simp_all add: poll_bits)

lemma and_or_zero [simp]: "(w :: mask) AND (a OR b) = 0 \<longleftrightarrow> w AND a = 0 \<and> w AND b = 0"
  by (simp add: bit.conj_disj_distrib or_eq_0_iff)

lemma bit_poll:
  "bit POLLIN n \<longleftrightarrow> n = 0" "bit POLLPRI n \<longleftrightarrow> n = 1" "bit POLLOUT n \<longleftrightarrow> n = 2"
  using bit_exp_iff [where 'a = "32 word", of 0 n] bit_exp_iff [where 'a = "32 word", of 1 n]
    bit_exp_iff [where 'a = "32 word", of 2 n]
  by (auto simp: poll_bits)

lemma isReading_bits: "isReading c \<longleftrightarrow> bit (events c) 0 \<or> bit (events c) 1"
  by (simp add: isReading_def kReadEvent_def)

lemma isWriting_bit: "isWriting c \<longleftrightarrow> bit (events c) 2"
  by (simp add: isWriting_def kWriteEvent_def)

text \<open>Each operation on the wanted events sets or clears its own interest and leaves the other
  alone: reading and writing interest are independent, and disableAll clears both.\<close>

lemma channel_interest:
  "(isReading (channel_apply op c) \<longleftrightarrow>
     (case op of EnableReading \<Rightarrow> True | DisableReading \<Rightarrow> False | DisableAll \<Rightarrow> False | _ \<Rightarrow> isReading c)) \<and>
   (isWriting (channel_apply op c) \<longleftrightarrow>
     (case op of EnableWriting \<Rightarrow> True | DisableWriting \<Rightarrow> False | DisableAll \<Rightarrow> False | _ \<Rightarrow> isWriting c))"
  by (cases op)
    (simp_all add: isReading_bits isWriting_bit channel_apply_def kReadEvent_def kWriteEvent_def
      kNoneEvent_def bit_or_iff bit_and_iff bit_not_iff bit_poll)

text \<open>The masks a channel can want: only the bits of the read and write events.\<close>

definition wanted_ok :: "mask \<Rightarrow> bool" where
  "wanted_ok ev \<longleftrightarrow> ev AND NOT (kReadEvent OR kWriteEvent) = 0"

lemma wanted_ok_new_events: "wanted_ok ev \<Longrightarrow> wanted_ok (new_events op ev)"
  unfolding wanted_ok_def
  by (cases op)
    (auto simp: kReadEvent_def kWriteEvent_def kNoneEvent_def bit_eq_iff bit_or_iff bit_and_iff bit_not_iff)

lemma wanted_none_iff: "wanted_ok (events c) \<Longrightarrow> isNoneEvent c \<longleftrightarrow> \<not> isReading c \<and> \<not> isWriting c"
  unfolding wanted_ok_def isNoneEvent_def isReading_bits isWriting_bit
  by (auto simp: kReadEvent_def kWriteEvent_def kNoneEvent_def bit_eq_iff [where 'a = "32 word"]
      bit_or_iff bit_and_iff bit_not_iff bit_poll)

subsection \<open>The dispatch of reported events\<close>

text \<open>The callbacks a channel owes to the events reported for it, in order.\<close>

definition dispatch :: "'cb Channel \<Rightarrow> Timestamp \<Rightarrow> 'cb fired list" where
  "dispatch c t =
     (if bit (revents c) 4 \<and> \<not> bit (revents c) 0
      then (case closeCallback c of Some cb \<Rightarrow> [FireClose cb] | None \<Rightarrow> []) else []) @
     (if bit (revents c) 3 \<or> bit (revents c) 5
      then (case errorCallback c of Some cb \<Rightarrow> [FireError cb] | None \<Rightarrow> []) else []) @
     (if bit (revents c) 0 \<or> bit (revents c) 1 \<or> bit (revents c) 13
      then (case readCallback c of Some cb \<Rightarrow> [FireRead cb t] | None \<Rightarrow> []) else []) @
     (if bit (revents c) 2
      then (case writeCallback c of Some cb \<Rightarrow> [FireWrite cb] | None \<Rightarrow> []) else [])"

definition same_dispatch :: "'cb Channel \<Rightarrow> 'cb Channel \<Rightarrow> bool" where
  "same_dispatch c c' \<longleftrightarrow>
     revents c' = revents c \<and> readCallback c' = readCallback c \<and> writeCallback c' = writeCallback c \<and>
     closeCallback c' = closeCallback c \<and> errorCallback c' = errorCallback c"

lemma fire_if_fold:
  assumes "\<And>f c s. same_dispatch c (fst (run f (c, s)))"
  shows "fire_if b cb run cs = fold run (if b then (case cb (fst cs) of Some f \<Rightarrow> [f] | None \<Rightarrow> []) else []) cs"
    and "same_dispatch (fst cs) (fst (fire_if b cb run cs))"
  using assms by (auto simp: fire_if_def same_dispatch_def split: option.split) (metis fst_conv surj_pair)+

text \<open>Where the callbacks leave the reported events and the callbacks alone, an event runs its dispatch.\<close>

lemma handleEvent_ok:
  assumes keep: "\<And>f c s. same_dispatch c (fst (run f (c, s)))"
  shows "handleEvent run tie_alive t (c, s) =
    (if tied c \<and> \<not> tie_alive then (c, s)
     else (let cs = fold run (dispatch c t) (c\<lparr>eventHandling := True\<rparr>, s)
           in ((fst cs)\<lparr>eventHandling := False\<rparr>, snd cs)))"
proof -
  note fire = fire_if_fold [OF keep]
  let ?cs1 = "(c\<lparr>eventHandling := True\<rparr>, s)"
  define cs2 where "cs2 = fire_if (revents c AND POLLHUP \<noteq> 0 \<and> revents c AND POLLIN = 0)
      (\<lambda>c. map_option FireClose (closeCallback c)) run ?cs1"
  define cs3 where "cs3 = fire_if (revents (fst cs2) AND (POLLERR OR POLLNVAL) \<noteq> 0)
      (\<lambda>c. map_option FireError (errorCallback c)) run cs2"
  define cs4 where "cs4 = fire_if (revents (fst cs3) AND (POLLIN OR POLLPRI OR POLLRDHUP) \<noteq> 0)
      (\<lambda>c. map_option (\<lambda>cb. FireRead cb t) (readCallback c)) run cs3"
  define cs5 where "cs5 = fire_if (revents (fst cs4) AND POLLOUT \<noteq> 0)
      (\<lambda>c. map_option FireWrite (writeCallback c)) run cs4"
  have d2: "same_dispatch c (fst cs2)"
    using fire(2) [of ?cs1] unfolding cs2_def by (simp add: same_dispatch_def)
  have d3: "same_dispatch c (fst cs3)"
    using fire(2) [of cs2] d2 unfolding cs3_def by (simp add: same_dispatch_def)
  have d4: "same_dispatch c (fst cs4)"
    using fire(2) [of cs3] d3 unfolding cs4_def by (simp add: same_dispatch_def)
  have "cs2 = fold run (if bit (revents c) 4 \<and> \<not> bit (revents c) 0
      then (case closeCallback c of Some cb \<Rightarrow> [FireClose cb] | None \<Rightarrow> []) else []) ?cs1"
    unfolding cs2_def fire(1) by (simp split: option.split)
  moreover have "cs3 = fold run (if bit (revents c) 3 \<or> bit (revents c) 5
      then (case errorCallback c of Some cb \<Rightarrow> [FireError cb] | None \<Rightarrow> []) else []) cs2"
    using d2 unfolding cs3_def fire(1) by (simp add: same_dispatch_def split: option.split)
  moreover have "cs4 = fold run (if bit (revents c) 0 \<or> bit (revents c) 1 \<or> bit (revents c) 13
      then (case readCallback c of Some cb \<Rightarrow> [FireRead cb t] | None \<Rightarrow> []) else []) cs3"
    using d3 unfolding cs4_def fire(1) by (simp add: same_dispatch_def split: option.split)
  moreover have "cs5 = fold run (if bit (revents c) 2
      then (case writeCallback c of Some cb \<Rightarrow> [FireWrite cb] | None \<Rightarrow> []) else []) cs4"
    using d4 unfolding cs5_def fire(1) by (simp add: same_dispatch_def split: option.split)
  ultimately have "cs5 = fold run (dispatch c t) ?cs1"
    unfolding dispatch_def fold_append by simp
  then show ?thesis
    unfolding handleEvent_def handleEventWithGuard_def Let_def
    by (simp add: cs2_def cs3_def cs4_def cs5_def)
qed

text \<open>C25: As long as no callback changes the reported events or the registered callbacks, handling
  an event runs exactly the callbacks that the reported events call for, each once, in the order
  close, error, read, write; a hang-up with data left to read runs the read callback and not the
  close callback; a channel whose tied owner is gone runs nothing.\<close>

theorem handleEvent_dispatch:
  assumes keep: "\<And>f c s. same_dispatch c (fst (run f (c, s)))"
  shows "handleEvent run tie_alive t (c, s) =
    (if tied c \<and> \<not> tie_alive then (c, s)
     else (let cs = fold run (dispatch c t) (c\<lparr>eventHandling := True\<rparr>, s)
           in ((fst cs)\<lparr>eventHandling := False\<rparr>, snd cs)))"
  by (rule handleEvent_ok [OF keep])

definition log_run :: "nat fired \<Rightarrow> nat Channel \<times> nat fired list \<Rightarrow> nat Channel \<times> nat fired list" where
  "log_run f cs = (fst cs, snd cs @ [f])"

theorem handleEvent_dispatch_witness:
  "snd (handleEvent log_run False (Timestamp 5)
      (setReadCallback 1 (setWriteCallback 2 (setCloseCallback 3 (set_revents (POLLIN OR POLLOUT OR POLLHUP) (new_Channel 9)))), []))
    = [FireRead 1 (Timestamp 5), FireWrite 2]"
proof -
  have "handleEvent log_run False (Timestamp 5)
      (setReadCallback 1 (setWriteCallback 2 (setCloseCallback 3 (set_revents (POLLIN OR POLLOUT OR POLLHUP) (new_Channel 9)))), [])
     = (let c = setReadCallback 1 (setWriteCallback 2 (setCloseCallback 3 (set_revents (POLLIN OR POLLOUT OR POLLHUP) (new_Channel 9))));
            cs = fold log_run (dispatch c (Timestamp 5)) (c\<lparr>eventHandling := True\<rparr>, [])
        in ((fst cs)\<lparr>eventHandling := False\<rparr>, snd cs))"
    by (subst handleEvent_dispatch)
      (simp_all add: log_run_def same_dispatch_def Let_def setReadCallback_def setWriteCallback_def
        setCloseCallback_def set_revents_def new_Channel_def)
  moreover have "dispatch (setReadCallback 1 (setWriteCallback 2 (setCloseCallback 3
        (set_revents (POLLIN OR POLLOUT OR POLLHUP) (new_Channel 9))))) (Timestamp 5) =
      [FireRead (1 :: nat) (Timestamp 5), FireWrite 2]"
    by code_simp
  ultimately show ?thesis by (simp add: log_run_def Let_def)
qed

end
