(* ===== verification/Poller.thy ===== *)
theory Poller
  imports Channel
begin

unbundle bit_operations_syntax

section \<open>The interface between channels and pollers (src/src/Poller.h, src/src/Poller.cpp, src/src/Channel.cpp)\<close>

text \<open>
  Channels are objects that the poller, the loop and their owners all point to, so they live in a
  store from addresses to channels. A poller is a state of the type \<open>'p\<close> with the operations
  \<open>updateChannel\<close> and \<open>removeChannel\<close> on it and on the store. The locale \<open>poller\<close> states
  what the rest of the program may rely on: the contract of the abstract class \<open>Poller\<close>. The
  lemmas about a session of channels, created, updated, removed and deleted in any order that the
  contract allows, are proved in it once for both pollers.
\<close>

type_synonym 'cb store = "nat \<rightharpoonup> 'cb Channel"

definition chan :: "'cb store \<Rightarrow> nat \<Rightarrow> ('cb Channel \<Rightarrow> 'a res) \<Rightarrow> 'a res" where
  "chan s a k = (case s a of None \<Rightarrow> Inl (UndefinedBehaviour ''deleted Channel'') | Some c \<Rightarrow> k c)"

lemma chan_Some [simp]: "s a = Some c \<Longrightarrow> chan s a k = k c"
  by (simp add: chan_def)

definition modify :: "('cb Channel \<Rightarrow> 'cb Channel) \<Rightarrow> nat \<Rightarrow> 'cb store \<Rightarrow> 'cb store" where
  "modify f a s = s(a := map_option f (s a))"

lemma modify_same [simp]: "modify f a s a = map_option f (s a)"
  by (simp add: modify_def)

lemma modify_other [simp]: "b \<noteq> a \<Longrightarrow> modify f a s b = s b"
  by (simp add: modify_def)

definition hasChannel :: "(int \<rightharpoonup> nat) \<Rightarrow> 'cb store \<Rightarrow> nat \<Rightarrow> bool" where
  "hasChannel channels s a = (case s a of None \<Rightarrow> False | Some c \<Rightarrow> channels (fd c) = Some a)"

text \<open>\<open>enableReading()\<close> and its four sisters: the new mask, then \<open>update()\<close>.\<close>

definition channel_do ::
  "('p \<Rightarrow> 'cb store \<Rightarrow> nat \<Rightarrow> ('p \<times> 'cb store) res) \<Rightarrow> channel_op \<Rightarrow> 'p \<Rightarrow> 'cb store \<Rightarrow> nat \<Rightarrow>
   ('p \<times> 'cb store) res" where
  "channel_do updateChannel op p s a =
     chan s a (\<lambda>c. updateChannel p (s(a \<mapsto> (channel_apply op c)\<lparr>addedToLoop := True\<rparr>)) a)"

definition channel_remove ::
  "('p \<Rightarrow> 'cb store \<Rightarrow> nat \<Rightarrow> ('p \<times> 'cb store) res) \<Rightarrow> 'p \<Rightarrow> 'cb store \<Rightarrow> nat \<Rightarrow> ('p \<times> 'cb store) res" where
  "channel_remove removeChannel p s a =
     chan s a (\<lambda>c. ensure (isNoneEvent c) ''isNoneEvent()''
       (removeChannel p (s(a \<mapsto> c\<lparr>addedToLoop := False\<rparr>)) a))"

definition delete_Channel ::
  "('p \<Rightarrow> 'cb store \<Rightarrow> nat \<Rightarrow> bool) \<Rightarrow> bool \<Rightarrow> 'p \<Rightarrow> 'cb store \<Rightarrow> nat \<Rightarrow> 'cb store res" where
  "delete_Channel has inLoopThread p s a =
     chan s a (\<lambda>c.
       ensure (\<not> eventHandling c) ''!eventHandling_''
       (ensure (\<not> addedToLoop c) ''!addedToLoop_''
       (ensure (\<not> inLoopThread \<or> \<not> has p s a) ''!loop_->hasChannel(this)''
       (Inr (s(a := None))))))"

text \<open>Two stores agree up to the index that the poller keeps in each channel.\<close>

definition same_but_index :: "'cb store \<Rightarrow> 'cb store \<Rightarrow> bool" where
  "same_but_index s s' \<longleftrightarrow> (\<forall>a. map_option (set_index 0) (s' a) = map_option (set_index 0) (s a))"

lemma set_index_eqD:
  assumes "set_index i c = set_index i d"
  shows "fd c = fd d" "events c = events d" "revents c = revents d" "addedToLoop c = addedToLoop d"
    "eventHandling c = eventHandling d"
  using assms by (cases c; cases d; simp add: set_index_def)+

lemma same_but_indexD:
  assumes "same_but_index s s'" "s a = Some c"
  shows "\<exists>d. s' a = Some d \<and> fd d = fd c \<and> events d = events c \<and> revents d = revents c \<and>
    addedToLoop d = addedToLoop c \<and> eventHandling d = eventHandling c"
proof -
  have "map_option (set_index 0) (s' a) = Some (set_index 0 c)"
    using assms by (simp add: same_but_index_def)
  then obtain d where "s' a = Some d" "set_index 0 d = set_index 0 c" by auto
  then show ?thesis using set_index_eqD by metis
qed

lemma same_but_index_None: "same_but_index s s' \<Longrightarrow> s' a = None \<longleftrightarrow> s a = None"
  by (metis map_option_is_None same_but_index_def)

lemma same_but_index_modify:
  "same_but_index s (modify (set_index i) a s)"
  by (cases "s a") (auto simp: same_but_index_def modify_def set_index_def)

subsection \<open>The contract\<close>

text \<open>The moves of the owners of channels: a channel may be updated when it is registered, or for
  the first time, with some event wanted and a descriptor of its own; it may be removed when it is
  registered and wants nothing, and deleted when it is not registered.\<close>

definition may_update :: "('p \<Rightarrow> 'cb store \<Rightarrow> nat \<Rightarrow> bool) \<Rightarrow> 'p \<Rightarrow> 'cb store \<Rightarrow> nat \<Rightarrow> mask \<Rightarrow> bool" where
  "may_update has p s a ev \<longleftrightarrow>
     (case s a of None \<Rightarrow> False
      | Some c \<Rightarrow> has p s a \<or>
          index c = -1 \<and> ev \<noteq> 0 \<and> (\<forall>b d. has p s b \<longrightarrow> s b = Some d \<longrightarrow> fd d \<noteq> fd c))"

definition may_remove :: "('p \<Rightarrow> 'cb store \<Rightarrow> nat \<Rightarrow> bool) \<Rightarrow> 'p \<Rightarrow> 'cb store \<Rightarrow> nat \<Rightarrow> bool" where
  "may_remove has p s a \<longleftrightarrow> has p s a \<and> (case s a of None \<Rightarrow> False | Some c \<Rightarrow> events c = 0)"

text \<open>The setters of the callbacks, \<open>tie\<close>, \<open>doNotLogHup\<close> and the poller's own \<open>set_revents\<close> change
  nothing that concerns the registration of a channel.\<close>

definition same_registration :: "'cb Channel \<Rightarrow> 'cb Channel \<Rightarrow> bool" where
  "same_registration c c' \<longleftrightarrow>
     fd c' = fd c \<and> index c' = index c \<and> events c' = events c \<and> addedToLoop c' = addedToLoop c \<and>
     eventHandling c' = eventHandling c"

lemma same_registration_setters:
  "same_registration c (setReadCallback cb c)" "same_registration c (setWriteCallback cb c)"
  "same_registration c (setCloseCallback cb c)" "same_registration c (setErrorCallback cb c)"
  "same_registration c (channel_tie c)" "same_registration c (doNotLogHup c)" "same_registration c (set_revents ev c)"
  by (simp_all add: same_registration_def setReadCallback_def setWriteCallback_def setCloseCallback_def
      setErrorCallback_def channel_tie_def doNotLogHup_def set_revents_def)

locale poller =
  fixes init :: 'p
    and updateChannel :: "'p \<Rightarrow> 'cb store \<Rightarrow> nat \<Rightarrow> ('p \<times> 'cb store) res"
    and removeChannel :: "'p \<Rightarrow> 'cb store \<Rightarrow> nat \<Rightarrow> ('p \<times> 'cb store) res"
    and has :: "'p \<Rightarrow> 'cb store \<Rightarrow> nat \<Rightarrow> bool"
    and interest :: "'p \<Rightarrow> 'cb store \<Rightarrow> nat \<Rightarrow> mask option"
    and inv :: "'p \<Rightarrow> 'cb store \<Rightarrow> bool"
  assumes inv_init: "inv init Map.empty"
    and has_alive: "has p s a \<Longrightarrow> s a \<noteq> None"
    and has_init: "\<not> has init Map.empty a"
    and frame: "inv p s \<Longrightarrow> \<not> has p s a \<Longrightarrow> inv p (s(a := v)) \<and> (\<forall>b. has p (s(a := v)) b = has p s b)"
    and update_ok: "inv p s \<Longrightarrow> s a = Some c \<Longrightarrow> 0 \<le> fd c \<Longrightarrow> wanted_ok ev \<Longrightarrow> may_update has p s a ev \<Longrightarrow>
      s1 = s(a \<mapsto> c\<lparr>events := ev, addedToLoop := True\<rparr>) \<Longrightarrow>
      \<exists>p' s'. updateChannel p s1 a = Inr (p', s') \<and> inv p' s' \<and> same_but_index s1 s' \<and>
        (\<forall>b. has p' s' b \<longleftrightarrow> b = a \<or> has p s b) \<and>
        (\<forall>b. b \<noteq> a \<longrightarrow> \<not> has p s b \<longrightarrow> s' b = s b)"
    and remove_ok: "inv p s \<Longrightarrow> s a = Some c \<Longrightarrow> may_remove has p s a \<Longrightarrow>
      s1 = s(a \<mapsto> c\<lparr>addedToLoop := False\<rparr>) \<Longrightarrow>
      \<exists>p' s'. removeChannel p s1 a = Inr (p', s') \<and> inv p' s' \<and> same_but_index s1 s' \<and>
        (\<forall>b. has p' s' b \<longleftrightarrow> b \<noteq> a \<and> has p s b) \<and>
        (\<forall>b. b \<noteq> a \<longrightarrow> \<not> has p s b \<longrightarrow> s' b = s b)"
    and watched: "inv p s \<Longrightarrow> has p s a \<Longrightarrow> s a = Some c \<Longrightarrow> events c \<noteq> 0 \<Longrightarrow> interest p s a = Some (events c)"
    and muted: "inv p s \<Longrightarrow> has p s a \<Longrightarrow> s a = Some c \<Longrightarrow> events c = 0 \<Longrightarrow> interest p s a \<in> {None, Some 0}"
    and unwatched: "inv p s \<Longrightarrow> \<not> has p s a \<Longrightarrow> interest p s a = None"
    and configure_ok: "inv p s \<Longrightarrow> s a = Some c \<Longrightarrow> same_registration c c' \<Longrightarrow>
      inv p (s(a \<mapsto> c')) \<and> (\<forall>b. has p (s(a \<mapsto> c')) b = has p s b)"

text \<open>The states that the owners of channels can bring about with these moves.\<close>

inductive session ::
  "'p \<Rightarrow> ('p \<Rightarrow> 'cb store \<Rightarrow> nat \<Rightarrow> ('p \<times> 'cb store) res) \<Rightarrow> ('p \<Rightarrow> 'cb store \<Rightarrow> nat \<Rightarrow> ('p \<times> 'cb store) res) \<Rightarrow>
   ('p \<Rightarrow> 'cb store \<Rightarrow> nat \<Rightarrow> bool) \<Rightarrow> 'p \<Rightarrow> 'cb store \<Rightarrow> bool"
  for init upd rem has where
  start: "session init upd rem has init Map.empty"
| create: "session init upd rem has p s \<Longrightarrow> s a = None \<Longrightarrow> 0 \<le> f \<Longrightarrow>
    session init upd rem has p (s(a \<mapsto> new_Channel f))"
| update: "session init upd rem has p s \<Longrightarrow> s a = Some c \<Longrightarrow> may_update has p s a (new_events op (events c)) \<Longrightarrow>
    channel_do upd op p s a = Inr (p', s') \<Longrightarrow> session init upd rem has p' s'"
| remove: "session init upd rem has p s \<Longrightarrow> may_remove has p s a \<Longrightarrow>
    channel_remove rem p s a = Inr (p', s') \<Longrightarrow> session init upd rem has p' s'"
| delete: "session init upd rem has p s \<Longrightarrow> \<not> has p s a \<Longrightarrow> delete_Channel has True p s a = Inr s' \<Longrightarrow>
    session init upd rem has p s'"
| configure: "session init upd rem has p s \<Longrightarrow> s a = Some c \<Longrightarrow> same_registration c c' \<Longrightarrow>
    session init upd rem has p (s(a \<mapsto> c'))"

text \<open>Every channel of a session has a valid descriptor, a mask of its own bits, and knows whether
  it is registered.\<close>

definition channel_ok :: "bool \<Rightarrow> 'cb Channel \<Rightarrow> bool" where
  "channel_ok registered c \<longleftrightarrow>
     0 \<le> fd c \<and> wanted_ok (events c) \<and> \<not> eventHandling c \<and> addedToLoop c = registered"

context poller
begin

definition good :: "'p \<Rightarrow> 'cb store \<Rightarrow> bool" where
  "good p s \<longleftrightarrow> inv p s \<and> (\<forall>a c. s a = Some c \<longrightarrow> channel_ok (has p s a) c)"

lemma goodD: "good p s \<Longrightarrow> inv p s" "good p s \<Longrightarrow> s a = Some c \<Longrightarrow> channel_ok (has p s a) c"
  by (auto simp: good_def)

lemma good_step:
  assumes g: "good p s" and i: "inv p' s'" and sm: "same_but_index (s(a \<mapsto> c)) s'"
    and h: "\<And>b. b \<noteq> a \<Longrightarrow> has p' s' b = has p s b" and c: "channel_ok (has p' s' a) c"
  shows "good p' s'"
proof -
  have "channel_ok (has p' s' b) d" if d: "s' b = Some d" for b d
  proof (cases "b = a")
    case True
    then show ?thesis using d c same_but_indexD [OF sm, of a c] by (auto simp: channel_ok_def)
  next
    case False
    then obtain e where e: "s b = Some e" using d same_but_index_None [OF sm, of b] by force
    then have "channel_ok (has p' s' b) e" using goodD(2) [OF g e] h [OF False] by simp
    then show ?thesis using False d e same_but_indexD [OF sm, of b e] by (auto simp: channel_ok_def)
  qed
  then show ?thesis using i by (simp add: good_def)
qed

lemma good_frame:
  assumes g: "good p s" and n: "\<not> has p s a" and v: "\<And>c. v = Some c \<Longrightarrow> channel_ok False c"
  shows "good p (s(a := v))"
proof -
  have f: "inv p (s(a := v))" "has p (s(a := v)) b = has p s b" for b
    using frame [OF goodD(1) [OF g] n] by blast+
  have "channel_ok (has p s b) d" if "(s(a := v)) b = Some d" for b d
    using that goodD(2) [OF g, of b d] v n by (auto split: if_splits)
  then show ?thesis using f by (simp add: good_def fun_upd_def)
qed

lemma channel_do_ok:
  assumes g: "good p s" and c: "s a = Some c" and m: "may_update has p s a (new_events op (events c))"
  shows "\<exists>p' s'. channel_do updateChannel op p s a = Inr (p', s') \<and> good p' s' \<and>
    (\<forall>b. has p' s' b \<longleftrightarrow> b = a \<or> has p s b) \<and>
    same_but_index (s(a \<mapsto> (channel_apply op c)\<lparr>addedToLoop := True\<rparr>)) s' \<and>
    (\<forall>b. b \<noteq> a \<longrightarrow> \<not> has p s b \<longrightarrow> s' b = s b)"
proof -
  let ?ev = "new_events op (events c)"
  let ?c1 = "c\<lparr>events := ?ev, addedToLoop := True\<rparr>"
  have co: "0 \<le> fd c" "wanted_ok (events c)" "\<not> eventHandling c"
    using goodD(2) [OF g c] by (simp_all add: channel_ok_def)
  have w: "wanted_ok ?ev" using co(2) by (rule wanted_ok_new_events)
  obtain p' s' where u: "updateChannel p (s(a \<mapsto> ?c1)) a = Inr (p', s')" "inv p' s'"
    "same_but_index (s(a \<mapsto> ?c1)) s'" "\<forall>b. has p' s' b \<longleftrightarrow> b = a \<or> has p s b"
    "\<forall>b. b \<noteq> a \<longrightarrow> \<not> has p s b \<longrightarrow> s' b = s b"
    using update_ok [OF goodD(1) [OF g] c co(1) w m refl] by blast
  have "good p' s'"
    using g u(2,3) by (rule good_step) (use u(4) co w in \<open>simp_all add: channel_ok_def\<close>)
  then show ?thesis using u c by (simp add: channel_do_def channel_apply_def)
qed

lemma channel_remove_ok:
  assumes g: "good p s" and m: "may_remove has p s a"
  shows "\<exists>p' s'. channel_remove removeChannel p s a = Inr (p', s') \<and> good p' s' \<and>
    (\<forall>b. has p' s' b \<longleftrightarrow> b \<noteq> a \<and> has p s b) \<and>
    same_but_index (modify (\<lambda>c. c\<lparr>addedToLoop := False\<rparr>) a s) s' \<and>
    (\<forall>b. b \<noteq> a \<longrightarrow> \<not> has p s b \<longrightarrow> s' b = s b)"
proof -
  obtain c where c: "s a = Some c" "events c = 0"
    using m by (auto simp: may_remove_def split: option.splits)
  let ?c1 = "c\<lparr>addedToLoop := False\<rparr>"
  have co: "0 \<le> fd c" "wanted_ok (events c)" "\<not> eventHandling c"
    using goodD(2) [OF g c(1)] by (simp_all add: channel_ok_def)
  obtain p' s' where u: "removeChannel p (s(a \<mapsto> ?c1)) a = Inr (p', s')" "inv p' s'"
    "same_but_index (s(a \<mapsto> ?c1)) s'" "\<forall>b. has p' s' b \<longleftrightarrow> b \<noteq> a \<and> has p s b"
    "\<forall>b. b \<noteq> a \<longrightarrow> \<not> has p s b \<longrightarrow> s' b = s b"
    using remove_ok [OF goodD(1) [OF g] c(1) m refl] by blast
  have "good p' s'"
    using g u(2,3) by (rule good_step) (use u(4) co in \<open>simp_all add: channel_ok_def\<close>)
  then show ?thesis using u c
    by (simp add: channel_remove_def isNoneEvent_def kNoneEvent_def modify_def)
qed

lemma delete_ok:
  assumes g: "good p s" and n: "\<not> has p s a" and c: "s a = Some c"
  shows "delete_Channel has True p s a = Inr (s(a := None)) \<and> good p (s(a := None))"
  using goodD(2) [OF g c] n c good_frame [OF g n, of None]
  by (simp add: delete_Channel_def channel_ok_def)

lemma session_good: "session init updateChannel removeChannel has p s \<Longrightarrow> good p s"
proof (induction rule: session.induct)
  case start
  then show ?case by (simp add: good_def inv_init)
next
  case (create p s a f)
  have n: "\<not> has p s a" using has_alive create.hyps(2) by blast
  have "channel_ok False (new_Channel f :: 'cb Channel)"
    using create.hyps(3) by (simp add: channel_ok_def new_Channel_def wanted_ok_def)
  then show ?case by (intro good_frame [OF create.IH n]) simp
next
  case (update p s a c op p' s')
  then show ?case using channel_do_ok by fastforce
next
  case (remove p s a p' s')
  then show ?case using channel_remove_ok by fastforce
next
  case (delete p s a s')
  then show ?case using delete_ok [of p s a]
    by (cases "s a") (auto simp: delete_Channel_def chan_def)
next
  case (configure p s a c c')
  note k = configure_ok [OF goodD(1) [OF configure.IH] configure.hyps(2,3)]
  have h: "has p (s(a \<mapsto> c')) b = has p s b" for b using k by blast
  have "channel_ok (has p (s(a \<mapsto> c')) b) d" if "(s(a \<mapsto> c')) b = Some d" for b d
    unfolding h using that configure.hyps(2,3) goodD(2) [OF configure.IH, of b]
    by (cases "b = a") (auto simp: channel_ok_def same_registration_def)
  then show ?case using k unfolding good_def by blast
qed

text \<open>What the owners of channels get: no move the contract allows can fail, and what the
  operating system watches for is what the registered channels want.\<close>

lemma session_safe:
  assumes "session init updateChannel removeChannel has p s" "s a = Some c"
  shows "may_update has p s a (new_events op (events c)) \<Longrightarrow>
      \<exists>p' s'. channel_do updateChannel op p s a = Inr (p', s') \<and> has p' s' a"
    and "may_remove has p s a \<Longrightarrow>
      \<exists>p' s'. channel_remove removeChannel p s a = Inr (p', s') \<and> \<not> has p' s' a"
    and "\<not> has p s a \<Longrightarrow> delete_Channel has True p s a = Inr (s(a := None))"
  using channel_do_ok [OF session_good [OF assms(1)] assms(2)]
    channel_remove_ok [OF session_good [OF assms(1)]] delete_ok [OF session_good [OF assms(1)] _ assms(2)]
  by blast+

lemma session_watched:
  assumes "session init updateChannel removeChannel has p s" "s a = Some c"
  shows "interest p s a = (if has p s a \<and> events c \<noteq> 0 then Some (events c) else None) \<or>
    (has p s a \<and> events c = 0 \<and> interest p s a = Some 0)"
proof -
  note i = goodD(1) [OF session_good [OF assms(1)]]
  show ?thesis using watched [OF i _ assms(2)] muted [OF i _ assms(2)] unwatched [OF i, of a] by fastforce
qed

end

end
