(* ===== verification/EPollPoller.thy ===== *)
theory EPollPoller
  imports Poller
begin

unbundle bit_operations_syntax

section \<open>The epoll poller (src/src/EPollPoller.h, src/src/EPollPoller.cpp)\<close>

text \<open>
  The poller keeps the map from descriptors to channels, the size of its event array and, in this
  model, the sequence of its \<open>epoll_ctl\<close> calls. What the kernel makes of these calls is the
  specification \<open>epoll_table\<close>: the interest list of \<open>epoll(7)\<close>, undefined as soon as one call
  would be refused with \<open>EEXIST\<close> or \<open>ENOENT\<close>. What \<open>epoll_wait\<close> returns is an argument
  of \<open>epoll_poll\<close>.
\<close>

datatype epoll_op = EPOLL_CTL_ADD | EPOLL_CTL_MOD | EPOLL_CTL_DEL

fun operationToString :: "epoll_op \<Rightarrow> string" where
  "operationToString EPOLL_CTL_ADD = ''ADD''"
| "operationToString EPOLL_CTL_DEL = ''DEL''"
| "operationToString EPOLL_CTL_MOD = ''MOD''"

type_synonym ctl_call = "epoll_op \<times> int \<times> mask \<times> nat"

record EPollPoller =
  channels :: "int \<rightharpoonup> nat"
  eventsSize :: nat
  ctl_log :: "ctl_call list"

definition kNew :: int where "kNew = -1"
definition kAdded :: int where "kAdded = 1"
definition kDeleted :: int where "kDeleted = 2"

lemmas index_defs = kNew_def kAdded_def kDeleted_def

definition kInitEventListSize :: nat where "kInitEventListSize = 26"

definition new_EPollPoller :: EPollPoller where
  "new_EPollPoller = \<lparr>channels = Map.empty, eventsSize = kInitEventListSize, ctl_log = []\<rparr>"

definition epoll_update :: "epoll_op \<Rightarrow> EPollPoller \<Rightarrow> 'cb store \<Rightarrow> nat \<Rightarrow> EPollPoller res" where
  "epoll_update operation p s a =
     chan s a (\<lambda>c. Inr (p\<lparr>ctl_log := ctl_log p @ [(operation, fd c, events c, a)]\<rparr>))"

definition epoll_updateChannel :: "EPollPoller \<Rightarrow> 'cb store \<Rightarrow> nat \<Rightarrow> (EPollPoller \<times> 'cb store) res" where
  "epoll_updateChannel p s a =
     chan s a (\<lambda>c.
       if index c = kNew \<or> index c = kDeleted
       then rbind
              (if index c = kNew
               then ensure (channels p (fd c) = None) ''channels_.find(fd) == channels_.end()''
                      (Inr (p\<lparr>channels := (channels p)(fd c \<mapsto> a)\<rparr>))
               else ensure (channels p (fd c) \<noteq> None) ''channels_.find(fd) != channels_.end()''
                      (ensure (channels p (fd c) = Some a) ''channels_[fd] == channel'' (Inr p)))
              (\<lambda>p1. let s1 = modify (set_index kAdded) a s
                    in rbind (epoll_update EPOLL_CTL_ADD p1 s1 a) (\<lambda>p2. Inr (p2, s1)))
       else ensure (channels p (fd c) \<noteq> None) ''channels_.find(fd) != channels_.end()''
            (ensure (channels p (fd c) = Some a) ''channels_[fd] == channel''
            (ensure (index c = kAdded) ''index == kAdded''
            (if isNoneEvent c
             then rbind (epoll_update EPOLL_CTL_DEL p s a) (\<lambda>p1. Inr (p1, modify (set_index kDeleted) a s))
             else rbind (epoll_update EPOLL_CTL_MOD p s a) (\<lambda>p1. Inr (p1, s))))))"

definition epoll_removeChannel :: "EPollPoller \<Rightarrow> 'cb store \<Rightarrow> nat \<Rightarrow> (EPollPoller \<times> 'cb store) res" where
  "epoll_removeChannel p s a =
     chan s a (\<lambda>c.
       ensure (channels p (fd c) \<noteq> None) ''channels_.find(fd) != channels_.end()''
       (ensure (channels p (fd c) = Some a) ''channels_[fd] == channel''
       (ensure (isNoneEvent c) ''channel->isNoneEvent()''
       (ensure (index c = kAdded \<or> index c = kDeleted) ''index == kAdded || index == kDeleted''
       (let p1 = p\<lparr>channels := (channels p)(fd c := None)\<rparr>
        in rbind (if index c = kAdded then epoll_update EPOLL_CTL_DEL p1 s a else Inr p1)
                 (\<lambda>p2. Inr (p2, modify (set_index kNew) a s)))))))"

definition epoll_hasChannel :: "EPollPoller \<Rightarrow> 'cb store \<Rightarrow> nat \<Rightarrow> bool" where
  "epoll_hasChannel p s a = hasChannel (channels p) s a"

subsection \<open>Polling\<close>

text \<open>What \<open>epoll_wait\<close> returns: events with the pointer registered for them, a timeout, or an
  error.\<close>

datatype wait_result = Ready "(mask \<times> nat) list" | Timeout | WaitError

fun fillActiveChannels :: "EPollPoller \<Rightarrow> (mask \<times> nat) list \<Rightarrow> 'cb store \<Rightarrow> nat list \<Rightarrow> ('cb store \<times> nat list) res" where
  "fillActiveChannels p [] s active = Inr (s, active)"
| "fillActiveChannels p ((ev, a) # es) s active =
     chan s a (\<lambda>c.
       ensure (channels p (fd c) \<noteq> None) ''it != channels_.end()''
       (ensure (channels p (fd c) = Some a) ''it->second == channel''
       (fillActiveChannels p es (modify (set_revents ev) a s) (active @ [a]))))"

definition epoll_poll :: "EPollPoller \<Rightarrow> 'cb store \<Rightarrow> wait_result \<Rightarrow> nat list \<Rightarrow> (EPollPoller \<times> 'cb store \<times> nat list) res" where
  "epoll_poll p s r active =
     (case r of
        Ready es \<Rightarrow>
          ensure (length es \<le> eventsSize p) ''numEvents <= events_.size()''
          (rbind (fillActiveChannels p es s active) (\<lambda>(s', active').
             Inr (if length es = eventsSize p then p\<lparr>eventsSize := eventsSize p * 2\<rparr> else p, s', active')))
      | Timeout \<Rightarrow> Inr (p, s, active)
      | WaitError \<Rightarrow> Inr (p, s, active))"

subsection \<open>The kernel's interest list\<close>

fun apply_ctl :: "ctl_call \<Rightarrow> (int \<rightharpoonup> mask \<times> nat) option \<Rightarrow> (int \<rightharpoonup> mask \<times> nat) option" where
  "apply_ctl c None = None"
| "apply_ctl (EPOLL_CTL_ADD, f, ev, a) (Some T) = (if T f = None then Some (T(f \<mapsto> (ev, a))) else None)"
| "apply_ctl (EPOLL_CTL_MOD, f, ev, a) (Some T) = (if T f = None then None else Some (T(f \<mapsto> (ev, a))))"
| "apply_ctl (EPOLL_CTL_DEL, f, ev, a) (Some T) = (if T f = None then None else Some (T(f := None)))"

definition epoll_table :: "ctl_call list \<Rightarrow> (int \<rightharpoonup> mask \<times> nat) option" where
  "epoll_table calls = fold apply_ctl calls (Some Map.empty)"

lemma epoll_table_Nil [simp]: "epoll_table [] = Some Map.empty"
  by (simp add: epoll_table_def)

lemma epoll_table_snoc [simp]: "epoll_table (calls @ [c]) = apply_ctl c (epoll_table calls)"
  by (simp add: epoll_table_def)

definition epoll_interest :: "EPollPoller \<Rightarrow> 'cb store \<Rightarrow> nat \<Rightarrow> mask option" where
  "epoll_interest p s a =
     (case epoll_table (ctl_log p) of None \<Rightarrow> None
      | Some T \<Rightarrow> (case s a of None \<Rightarrow> None
          | Some c \<Rightarrow> (case T (fd c) of None \<Rightarrow> None
              | Some (ev, b) \<Rightarrow> if b = a then Some ev else None)))"

definition entry_ok :: "(int \<rightharpoonup> mask \<times> nat) \<Rightarrow> 'cb store \<Rightarrow> int \<Rightarrow> nat \<Rightarrow> bool" where
  "entry_ok T s f a =
     (case s a of None \<Rightarrow> False
      | Some c \<Rightarrow> fd c = f \<and>
          (index c = kAdded \<and> T f = Some (events c, a) \<or> index c = kDeleted \<and> events c = 0 \<and> T f = None))"

definition epoll_inv :: "EPollPoller \<Rightarrow> 'cb store \<Rightarrow> bool" where
  "epoll_inv p s \<longleftrightarrow>
     (\<exists>T. epoll_table (ctl_log p) = Some T \<and>
          (\<forall>f. channels p f = None \<longrightarrow> T f = None) \<and>
          (\<forall>f a. channels p f = Some a \<longrightarrow> entry_ok T s f a))"

lemma entry_ok_iff:
  "entry_ok T s f a \<longleftrightarrow> (\<exists>c. s a = Some c \<and> fd c = f \<and>
     (index c = kAdded \<and> T f = Some (events c, a) \<or> index c = kDeleted \<and> events c = 0 \<and> T f = None))"
  by (simp add: entry_ok_def split: option.split)

lemma entry_ok_other: "s' a = s a \<Longrightarrow> T' f = T f \<Longrightarrow> entry_ok T' s' f a = entry_ok T s f a"
  by (simp add: entry_ok_iff)

lemma has_iff: "epoll_hasChannel p s a \<longleftrightarrow> (\<exists>c. s a = Some c \<and> channels p (fd c) = Some a)"
  by (simp add: epoll_hasChannel_def hasChannel_def split: option.split)

lemma epoll_invD:
  assumes "epoll_inv p s" "channels p f = Some a"
  shows "\<exists>c. s a = Some c \<and> fd c = f"
  using assms unfolding epoll_inv_def entry_ok_iff by blast

lemma epoll_inv_table:
  assumes "epoll_inv p s" "epoll_table (ctl_log p) = Some T"
  shows "channels p f = None \<Longrightarrow> T f = None" "channels p f = Some a \<Longrightarrow> entry_ok T s f a"
  using assms by (simp_all add: epoll_inv_def)

text \<open>Under the invariant the registered channels are exactly the values of the map.\<close>

lemma has_ran: "epoll_inv p s \<Longrightarrow> epoll_hasChannel p s a \<longleftrightarrow> a \<in> ran (channels p)"
  using epoll_invD [of p s _ a] by (auto simp: has_iff ran_def)

lemma epoll_frame:
  assumes i: "epoll_inv p s" and n: "\<not> epoll_hasChannel p s a"
  shows "epoll_inv p (s(a := v)) \<and> (\<forall>b. epoll_hasChannel p (s(a := v)) b = epoll_hasChannel p s b)"
proof -
  have na: "channels p f \<noteq> Some a" for f
    using n has_ran [OF i] by (auto simp: ran_def)
  then have "entry_ok T (s(a := v)) f b = entry_ok T s f b" if "channels p f = Some b" for T f b
    using that by (intro entry_ok_other) auto
  then have "epoll_inv p (s(a := v))" using i by (auto simp: epoll_inv_def)
  then show ?thesis using has_ran [OF i] has_ran by blast
qed

text \<open>An operation that touches only the entry of one descriptor keeps the others.\<close>

lemma epoll_inv_step:
  assumes i: "epoll_inv p s" and T: "epoll_table (ctl_log p) = Some T"
    and T': "epoll_table (ctl_log p') = Some T'" "\<And>g. g \<noteq> f \<Longrightarrow> T' g = T g"
    and ch: "\<And>g. g \<noteq> f \<Longrightarrow> channels p' g = channels p g"
    and s': "\<And>b. b \<noteq> a \<Longrightarrow> s' b = s b"
    and uniq: "\<And>g. g \<noteq> f \<Longrightarrow> channels p g \<noteq> Some a"
    and new: "channels p' f = None \<and> T' f = None \<or> channels p' f = Some a \<and> entry_ok T' s' f a"
  shows "epoll_inv p' s'"
proof -
  note old = epoll_inv_table [OF i T]
  have "entry_ok T' s' g b" if g: "channels p' g = Some b" for g b
  proof (cases "g = f")
    case True
    then show ?thesis using new g by auto
  next
    case False
    then have "channels p g = Some b" "b \<noteq> a" using g ch uniq by auto
    then show ?thesis using old(2) T'(2) [OF False] s' entry_ok_other by metis
  qed
  moreover have "T' g = None" if "channels p' g = None" for g
    using that new old(1) T'(2) [of g] ch [of g] by (cases "g = f") auto
  ultimately show ?thesis using T'(1) by (auto simp: epoll_inv_def)
qed

lemma epoll_inv_unique: "epoll_inv p s \<Longrightarrow> s a = Some c \<Longrightarrow> g \<noteq> fd c \<Longrightarrow> channels p g \<noteq> Some a"
  using epoll_invD by fastforce

lemma epoll_fresh:
  assumes "epoll_inv p s" "\<forall>b d. epoll_hasChannel p s b \<longrightarrow> s b = Some d \<longrightarrow> fd d \<noteq> fd c"
  shows "channels p (fd c) = None"
proof (rule ccontr)
  assume "channels p (fd c) \<noteq> None"
  then obtain b where b: "channels p (fd c) = Some b" by blast
  then obtain d where "s b = Some d" "fd d = fd c" using epoll_invD [OF assms(1) b] by blast
  moreover from this have "epoll_hasChannel p s b" using b by (simp add: has_iff)
  ultimately show False using assms(2) by blast
qed

text \<open>The state of a registered channel, and of one that may be registered.\<close>

lemma epoll_update_cases:
  assumes i: "epoll_inv p s" and T: "epoll_table (ctl_log p) = Some T" and c: "s a = Some c"
    and m: "may_update epoll_hasChannel p s a ev"
  shows "index c = kNew \<and> channels p (fd c) = None \<and> T (fd c) = None \<or>
    index c = kAdded \<and> channels p (fd c) = Some a \<and> T (fd c) = Some (events c, a) \<or>
    index c = kDeleted \<and> channels p (fd c) = Some a \<and> T (fd c) = None \<and> events c = 0"
proof (cases "epoll_hasChannel p s a")
  case True
  then have "channels p (fd c) = Some a" using c by (auto simp: has_iff)
  then have "entry_ok T s (fd c) a" "channels p (fd c) = Some a" using epoll_inv_table(2) [OF i T] by auto
  then show ?thesis using c by (auto simp: entry_ok_iff)
next
  case False
  then have "index c = -1" "channels p (fd c) = None"
    using m c epoll_fresh [OF i] by (auto simp: may_update_def)
  then show ?thesis using epoll_inv_table(1) [OF i T] by (simp add: kNew_def)
qed

lemma epoll_update_ok:
  assumes i: "epoll_inv p s" and c: "s a = Some c"
    and m: "may_update epoll_hasChannel p s a ev"
    and s1: "s1 = s(a \<mapsto> c\<lparr>events := ev, addedToLoop := True\<rparr>)"
  shows "\<exists>p' s'. epoll_updateChannel p s1 a = Inr (p', s') \<and> epoll_inv p' s' \<and> same_but_index s1 s' \<and>
    (\<forall>b. epoll_hasChannel p' s' b \<longleftrightarrow> b = a \<or> epoll_hasChannel p s b) \<and>
    (\<forall>b. b \<noteq> a \<longrightarrow> \<not> epoll_hasChannel p s b \<longrightarrow> s' b = s b)"
proof -
  obtain T where T: "epoll_table (ctl_log p) = Some T" using i by (auto simp: epoll_inv_def)
  let ?call = "\<lambda>op. (op, fd c, ev, a)"
  note uniq = epoll_inv_unique [OF i c]
  have "\<exists>p' s' T'. epoll_updateChannel p s1 a = Inr (p', s') \<and> same_but_index s1 s' \<and>
      epoll_table (ctl_log p') = Some T' \<and> (\<forall>g. g \<noteq> fd c \<longrightarrow> T' g = T g) \<and>
      channels p' = (channels p)(fd c \<mapsto> a) \<and> (\<forall>b. b \<noteq> a \<longrightarrow> s' b = s b) \<and> entry_ok T' s' (fd c) a"
    using epoll_update_cases [OF i T c m]
  proof (elim disjE conjE)
    assume new: "index c = kNew" "channels p (fd c) = None" "T (fd c) = None"
    then show ?thesis
      using s1 T same_but_index_modify [of s1 kAdded a]
      by (simp add: epoll_updateChannel_def epoll_update_def set_index_def entry_ok_iff)
  next
    assume added: "index c = kAdded" "channels p (fd c) = Some a" "T (fd c) = Some (events c, a)"
    then show ?thesis
      using s1 T same_but_index_modify [of s1 kDeleted a]
      by (cases "ev = 0")
        (auto simp: epoll_updateChannel_def epoll_update_def set_index_def entry_ok_iff index_defs
          isNoneEvent_def kNoneEvent_def same_but_index_def)
  next
    assume deleted: "index c = kDeleted" "channels p (fd c) = Some a" "T (fd c) = None"
    then show ?thesis
      using s1 T same_but_index_modify [of s1 kAdded a]
      by (auto simp: epoll_updateChannel_def epoll_update_def set_index_def entry_ok_iff index_defs)
  qed
  then obtain p' s' T' where u: "epoll_updateChannel p s1 a = Inr (p', s')" "same_but_index s1 s'"
      "epoll_table (ctl_log p') = Some T'" "\<forall>g. g \<noteq> fd c \<longrightarrow> T' g = T g"
      "channels p' = (channels p)(fd c \<mapsto> a)" "\<forall>b. b \<noteq> a \<longrightarrow> s' b = s b" "entry_ok T' s' (fd c) a"
    by blast
  have i': "epoll_inv p' s'"
    using i T u(3) by (rule epoll_inv_step [where f = "fd c" and a = a]) (use u uniq in auto)
  have "ran (channels p') = insert a (ran (channels p))"
    using u(5) epoll_update_cases [OF i T c m] by (auto simp: ran_map_upd map_upd_triv intro: ranI)
  then show ?thesis using u(1,2,6) i' has_ran [OF i] has_ran [OF i'] by auto
qed

lemma epoll_remove_ok:
  assumes i: "epoll_inv p s" and c: "s a = Some c" and m: "may_remove epoll_hasChannel p s a"
    and s1: "s1 = s(a \<mapsto> c\<lparr>addedToLoop := False\<rparr>)"
  shows "\<exists>p' s'. epoll_removeChannel p s1 a = Inr (p', s') \<and> epoll_inv p' s' \<and> same_but_index s1 s' \<and>
    (\<forall>b. epoll_hasChannel p' s' b \<longleftrightarrow> b \<noteq> a \<and> epoll_hasChannel p s b) \<and>
    (\<forall>b. b \<noteq> a \<longrightarrow> \<not> epoll_hasChannel p s b \<longrightarrow> s' b = s b)"
proof -
  obtain T where T: "epoll_table (ctl_log p) = Some T" using i by (auto simp: epoll_inv_def)
  note uniq = epoll_inv_unique [OF i c]
  have h: "events c = 0" "channels p (fd c) = Some a" using m c by (auto simp: may_remove_def has_iff)
  then have e: "entry_ok T s (fd c) a" using epoll_inv_table(2) [OF i T] by simp
  let ?s' = "modify (set_index kNew) a s1"
  have "\<exists>p' T'. epoll_removeChannel p s1 a = Inr (p', ?s') \<and>
      epoll_table (ctl_log p') = Some T' \<and> T' = T(fd c := None) \<and> channels p' = (channels p)(fd c := None)"
    using e c h s1 T
    by (auto simp: entry_ok_iff epoll_removeChannel_def epoll_update_def isNoneEvent_def kNoneEvent_def
        index_defs fun_upd_idem)
  then obtain p' T' where u: "epoll_removeChannel p s1 a = Inr (p', ?s')"
      "epoll_table (ctl_log p') = Some T'" "T' = T(fd c := None)" "channels p' = (channels p)(fd c := None)"
    by blast
  have i': "epoll_inv p' ?s'"
    using i T u(2) by (rule epoll_inv_step [where f = "fd c" and a = a]) (use u uniq s1 in auto)
  have "ran (channels p') = ran (channels p) - {a}"
  proof (rule set_eqI)
    fix b
    have "b \<in> ran (channels p') \<longleftrightarrow> (\<exists>g. g \<noteq> fd c \<and> channels p g = Some b)"
      using u(4) by (auto simp: ran_def)
    then show "b \<in> ran (channels p') \<longleftrightarrow> b \<in> ran (channels p) - {a}"
      using uniq h(2) by (auto simp: ran_def) (metis option.inject)
  qed
  then have "\<forall>b. epoll_hasChannel p' ?s' b \<longleftrightarrow> b \<noteq> a \<and> epoll_hasChannel p s b"
    using has_ran [OF i] has_ran [OF i'] by blast
  moreover have "same_but_index s1 ?s'" by (rule same_but_index_modify)
  moreover have "\<forall>b. b \<noteq> a \<longrightarrow> \<not> epoll_hasChannel p s b \<longrightarrow> ?s' b = s b" using s1 by simp
  ultimately show ?thesis using u(1) i' by (intro exI conjI)
qed

lemma epoll_configure:
  assumes "epoll_inv p s" "s a = Some c" "same_registration c c'"
  shows "epoll_inv p (s(a \<mapsto> c')) \<and> (\<forall>b. epoll_hasChannel p (s(a \<mapsto> c')) b = epoll_hasChannel p s b)"
proof -
  have "entry_ok T (s(a \<mapsto> c')) f b = entry_ok T s f b" for T f b
    using assms(2,3) by (auto simp: entry_ok_iff same_registration_def)
  moreover have "epoll_hasChannel p (s(a \<mapsto> c')) b = epoll_hasChannel p s b" for b
    using assms(2,3) by (auto simp: has_iff same_registration_def)
  ultimately show ?thesis using assms(1) by (simp add: epoll_inv_def)
qed

interpretation ep: poller new_EPollPoller epoll_updateChannel epoll_removeChannel epoll_hasChannel
  epoll_interest epoll_inv
proof (unfold_locales, goal_cases)
  case 1
  then show ?case by (simp add: epoll_inv_def new_EPollPoller_def)
next
  case (2 p s a)
  then show ?case by (auto simp: has_iff)
next
  case (3 a)
  then show ?case by (simp add: has_iff)
next
  case (4 p s a v)
  then show ?case by (rule epoll_frame)
next
  case (5 p s a c ev s1)
  then show ?case by (intro epoll_update_ok)
next
  case (6 p s a c s1)
  then show ?case by (intro epoll_remove_ok)
next
  case (7 p s a c)
  then obtain T where T: "epoll_table (ctl_log p) = Some T" by (auto simp: epoll_inv_def)
  then show ?case using epoll_inv_table(2) [OF 7(1) T, of "fd c" a] 7
    by (auto simp: epoll_interest_def has_iff entry_ok_iff)
next
  case (8 p s a c)
  then obtain T where T: "epoll_table (ctl_log p) = Some T" by (auto simp: epoll_inv_def)
  then show ?case using epoll_inv_table(2) [OF 8(1) T, of "fd c" a] 8
    by (auto simp: epoll_interest_def has_iff entry_ok_iff)
next
  case (9 p s a)
  then obtain T where T: "epoll_table (ctl_log p) = Some T" by (auto simp: epoll_inv_def)
  show ?case
  proof (cases "s a")
    case (Some c)
    then have n: "channels p (fd c) \<noteq> Some a" using 9 by (auto simp: has_iff)
    have "b \<noteq> a" if "T (fd c) = Some (ev, b)" for ev b
      using epoll_inv_table [OF 9(1) T, of "fd c"] that n
      by (cases "channels p (fd c)") (auto simp: entry_ok_iff)
    then show ?thesis using Some T by (auto simp: epoll_interest_def split: option.split)
  qed (simp add: epoll_interest_def T)
next
  case (10 p s a c c')
  then show ?case by (rule epoll_configure)
qed

subsection \<open>Properties\<close>

text \<open>In every session of channels on the epoll poller in which the owners keep to the
  contract, every operation succeeds, no \<open>epoll_ctl\<close> call is refused by the kernel, and the
  kernel watches each registered channel for exactly the events it wants (a channel that wants none
  is unregistered in the kernel or registered with an empty mask).\<close>

lemma epoll_session:
  assumes "session new_EPollPoller epoll_updateChannel epoll_removeChannel epoll_hasChannel p s"
    "s a = Some c"
  shows "(may_update epoll_hasChannel p s a (new_events op (events c)) \<longrightarrow>
      (\<exists>p' s'. channel_do epoll_updateChannel op p s a = Inr (p', s') \<and> epoll_hasChannel p' s' a)) \<and>
    (may_remove epoll_hasChannel p s a \<longrightarrow>
      (\<exists>p' s'. channel_remove epoll_removeChannel p s a = Inr (p', s') \<and> \<not> epoll_hasChannel p' s' a)) \<and>
    epoll_table (ctl_log p) \<noteq> None \<and>
    (epoll_interest p s a = (if epoll_hasChannel p s a \<and> events c \<noteq> 0 then Some (events c) else None) \<or>
     epoll_hasChannel p s a \<and> events c = 0 \<and> epoll_interest p s a = Some 0)"
proof -
  have "epoll_inv p s" using ep.session_good [OF assms(1)] by (rule ep.goodD)
  then have "epoll_table (ctl_log p) \<noteq> None" by (auto simp: epoll_inv_def)
  then show ?thesis using ep.session_safe [OF assms] ep.session_watched [OF assms] by blast
qed

definition one_channel :: "nat store" where
  "one_channel = [7 \<mapsto> new_Channel 5]"

lemma one_channel_session: "session new_EPollPoller epoll_updateChannel epoll_removeChannel epoll_hasChannel
    new_EPollPoller one_channel"
  unfolding one_channel_def by (rule session.create [OF session.start]) simp_all

lemma fillActiveChannels_ok:
  assumes "\<forall>b \<in> snd ` set es. epoll_hasChannel p s b" "distinct (map snd es)"
  shows "\<exists>s'. fillActiveChannels p es s active = Inr (s', active @ map snd es) \<and>
    (\<forall>b. s' b = (case map_of (map prod.swap es) b of None \<Rightarrow> s b | Some ev \<Rightarrow> map_option (set_revents ev) (s b)))"
  using assms
proof (induction es arbitrary: s active)
  case Nil
  then show ?case by simp
next
  case (Cons e es)
  obtain ev a where e: "e = (ev, a)" by (cases e)
  let ?s1 = "modify (set_revents ev) a s"
  obtain c where c: "s a = Some c" "channels p (fd c) = Some a"
    using Cons.prems(1) e by (auto simp: has_iff)
  have ne: "b \<noteq> a" if "(ev', b) \<in> set es" for ev' b using Cons.prems(2) e that by force
  have h: "\<forall>b \<in> snd ` set es. epoll_hasChannel p ?s1 b"
    using Cons.prems(1) ne by (auto simp: has_iff)
  have d: "distinct (map snd es)" using Cons.prems(2) by simp
  obtain s' where s': "fillActiveChannels p es ?s1 (active @ [a]) = Inr (s', (active @ [a]) @ map snd es)"
    "\<forall>b. s' b = (case map_of (map prod.swap es) b of None \<Rightarrow> ?s1 b | Some ev \<Rightarrow> map_option (set_revents ev) (?s1 b))"
    using Cons.IH [OF h d, where active = "active @ [a]"] by blast
  have na: "map_of (map prod.swap es) a = None"
    using ne by (force simp: map_of_eq_None_iff)
  have "s' b = (case map_of (map prod.swap (e # es)) b of None \<Rightarrow> s b | Some ev \<Rightarrow> map_option (set_revents ev) (s b))" for b
    using s'(2) na e by (cases "b = a") (auto split: option.split)
  moreover have "fillActiveChannels p (e # es) s active = Inr (s', active @ map snd (e # es))"
    using s'(1) e c by simp
  ultimately show ?case by blast
qed

text \<open>\<open>poll\<close> on a report of registered channels.\<close>

lemma epoll_poll_ok:
  assumes "\<forall>b \<in> snd ` set es. epoll_hasChannel p s b" "distinct (map snd es)"
    "length es \<le> eventsSize p"
  shows "\<exists>s'. epoll_poll p s (Ready es) [] =
      Inr (p\<lparr>eventsSize := if length es = eventsSize p then 2 * eventsSize p else eventsSize p\<rparr>, s', map snd es) \<and>
    (\<forall>ev b. (ev, b) \<in> set es \<longrightarrow> map_option revents (s' b) = Some ev) \<and>
    (\<forall>b. b \<notin> snd ` set es \<longrightarrow> s' b = s b)"
proof -
  obtain s' where s': "fillActiveChannels p es s [] = Inr (s', map snd es)"
    "\<forall>b. s' b = (case map_of (map prod.swap es) b of None \<Rightarrow> s b | Some ev \<Rightarrow> map_option (set_revents ev) (s b))"
    using fillActiveChannels_ok [OF assms(1,2), of "[]"] unfolding append_Nil by blast
  have d: "distinct (map fst (map prod.swap es))" using assms(2) by (simp add: comp_def)
  have "map_option revents (s' b) = Some ev" if m: "(ev, b) \<in> set es" for ev b
  proof -
    have "(b, ev) \<in> set (map prod.swap es)" using m by force
    then have "map_of (map prod.swap es) b = Some ev" using d by simp
    moreover obtain c where "s b = Some c" using assms(1) m by (force simp: has_iff)
    ultimately show ?thesis using s'(2) by (simp add: set_revents_def)
  qed
  moreover have "s' b = s b" if "b \<notin> snd ` set es" for b
  proof -
    have "map_of (map prod.swap es) b = None" using that by (simp add: map_of_eq_None_iff image_comp comp_def)
    then show ?thesis using s'(2) by simp
  qed
  ultimately show ?thesis using s'(1) assms(3) by (intro exI [of _ s']) (simp add: epoll_poll_def)
qed

text \<open>Disabling a channel that is disabled already, for instance \<open>disableReading()\<close> followed by
  \<open>disableAll()\<close>, registers it with the kernel again, with an empty mask: the kernel then still
  reports its errors and hang-ups.\<close>

lemma epoll_disable_twice:
  assumes "epoll_inv p s" "s a = Some c" "epoll_hasChannel p s a" "index c = kDeleted"
  shows "epoll_interest p s a = None \<and>
    (\<exists>p' s'. channel_do epoll_updateChannel DisableAll p s a = Inr (p', s') \<and>
       ctl_log p' = ctl_log p @ [(EPOLL_CTL_ADD, fd c, 0, a)] \<and> epoll_interest p' s' a = Some 0)"
proof -
  obtain T where T: "epoll_table (ctl_log p) = Some T" using assms(1) by (auto simp: epoll_inv_def)
  have c: "channels p (fd c) = Some a" using assms(2,3) by (simp add: has_iff)
  then have "T (fd c) = None"
    using epoll_inv_table(2) [OF assms(1) T c] assms(2,4) by (auto simp: entry_ok_iff index_defs)
  then show ?thesis using T c assms(2,4)
    by (auto simp: channel_do_def channel_apply_def epoll_updateChannel_def epoll_update_def index_defs
        kNoneEvent_def epoll_interest_def set_index_def)
qed

end
