(* ===== verification/PollPoller.thy ===== *)
theory PollPoller
  imports Poller
begin

unbundle bit_operations_syntax

section \<open>The poll poller (src/src/PollPoller.h, src/src/PollPoller.cpp)\<close>

text \<open>
  The poller keeps an array of \<open>pollfd\<close> and, in each channel, the position of its entry. A
  channel that wants no event keeps its entry with a negative descriptor, which \<open>poll(2)\<close> skips;
  removing a channel moves the last entry into its place. \<open>short\<close> is a 16-bit word. What
  \<open>poll(2)\<close> returns and writes into the array is an argument of \<open>poll_poll\<close>.
\<close>

record pollfd =
  pfd_fd :: int
  pfd_events :: "16 word"
  pfd_revents :: "16 word"

record PollPoller =
  pp_channels :: "int \<rightharpoonup> nat"
  pollfds :: "pollfd list"

definition new_PollPoller :: PollPoller where
  "new_PollPoller = \<lparr>pp_channels = Map.empty, pollfds = []\<rparr>"

definition poll_updateChannel :: "PollPoller \<Rightarrow> 'cb store \<Rightarrow> nat \<Rightarrow> (PollPoller \<times> 'cb store) res" where
  "poll_updateChannel p s a =
     chan s a (\<lambda>c.
       if index c < 0
       then ensure (pp_channels p (fd c) = None) ''channels_.find(channel->fd()) == channels_.end()''
            (let pfd = \<lparr>pfd_fd = fd c, pfd_events = ucast (events c), pfd_revents = 0\<rparr>;
                 fds = pollfds p @ [pfd];
                 idx = int (length fds) - 1
             in Inr (p\<lparr>pollfds := fds, pp_channels := (pp_channels p)(fd c \<mapsto> a)\<rparr>,
                     modify (set_index idx) a s))
       else ensure (pp_channels p (fd c) \<noteq> None) ''channels_.find(channel->fd()) != channels_.end()''
            (ensure (pp_channels p (fd c) = Some a) ''channels_[channel->fd()] == channel''
            (let idx = index c
             in ensure (0 \<le> idx \<and> idx < int (length (pollfds p))) ''0 <= idx && idx < pollfds_.size()''
                (let pfd = pollfds p ! nat idx
                 in ensure (pfd_fd pfd = fd c \<or> pfd_fd pfd = - fd c - 1)
                      ''pfd.fd == channel->fd() || pfd.fd == -channel->fd() - 1''
                    (let pfd' = pfd\<lparr>pfd_fd := (if isNoneEvent c then - fd c - 1 else fd c),
                                   pfd_events := ucast (events c), pfd_revents := 0\<rparr>
                     in Inr (p\<lparr>pollfds := (pollfds p)[nat idx := pfd']\<rparr>, s))))))"

definition poll_removeChannel :: "PollPoller \<Rightarrow> 'cb store \<Rightarrow> nat \<Rightarrow> (PollPoller \<times> 'cb store) res" where
  "poll_removeChannel p s a =
     chan s a (\<lambda>c.
       ensure (pp_channels p (fd c) \<noteq> None) ''channels_.find(channel->fd()) != channels_.end()''
       (ensure (pp_channels p (fd c) = Some a) ''channels_[channel->fd()] == channel''
       (ensure (isNoneEvent c) ''channel->isNoneEvent()''
       (let idx = index c
        in ensure (0 \<le> idx \<and> idx < int (length (pollfds p))) ''0 <= idx && idx < pollfds_.size()''
           (let pfd = pollfds p ! nat idx
            in ensure (pfd_fd pfd = - fd c - 1 \<and> scast (pfd_events pfd) = events c)
                 ''pfd.fd == -channel->fd()-1 && pfd.events == channel->events()''
               (let p1 = p\<lparr>pp_channels := (pp_channels p)(fd c := None)\<rparr>
                in if nat idx = length (pollfds p) - 1
                   then Inr (p1\<lparr>pollfds := butlast (pollfds p)\<rparr>, s)
                   else
                     (let channelAtEnd = pfd_fd (last (pollfds p));
                          fds = (pollfds p)[nat idx := last (pollfds p), length (pollfds p) - 1 := pfd];
                          key = (if channelAtEnd < 0 then - channelAtEnd - 1 else channelAtEnd)
                      in case pp_channels p1 key of
                           None \<Rightarrow> Inl (UndefinedBehaviour ''null Channel'')
                         | Some b \<Rightarrow> chan s b (\<lambda>_.
                             Inr (p1\<lparr>pollfds := butlast fds\<rparr>, modify (set_index idx) b s)))))))))"

definition poll_hasChannel :: "PollPoller \<Rightarrow> 'cb store \<Rightarrow> nat \<Rightarrow> bool" where
  "poll_hasChannel p s a = hasChannel (pp_channels p) s a"

subsection \<open>Polling\<close>

fun poll_fillActiveChannels :: "PollPoller \<Rightarrow> 'cb store \<Rightarrow> int \<Rightarrow> pollfd list \<Rightarrow> nat list \<Rightarrow> nat list res" where
  "poll_fillActiveChannels p s numEvents [] active = Inr active"
| "poll_fillActiveChannels p s numEvents (pfd # pfds) active =
     (if numEvents > 0 then
        if sint (pfd_revents pfd) > 0 then
          (case pp_channels p (pfd_fd pfd) of
             None \<Rightarrow> Inl (AssertionFailed ''ch != channels_.end()'')
           | Some a \<Rightarrow> chan s a (\<lambda>c.
               ensure (fd c = pfd_fd pfd) ''channel->fd() == pfd->fd''
               (poll_fillActiveChannels p s (numEvents - 1) pfds (active @ [a]))))
        else poll_fillActiveChannels p s numEvents pfds active
      else Inr active)"

definition kernel_writes :: "16 word list \<Rightarrow> PollPoller \<Rightarrow> PollPoller" where
  "kernel_writes revs p = p\<lparr>pollfds := map2 (\<lambda>pfd r. pfd\<lparr>pfd_revents := r\<rparr>) (pollfds p) revs\<rparr>"

definition poll_poll :: "PollPoller \<Rightarrow> 'cb store \<Rightarrow> int \<Rightarrow> 16 word list \<Rightarrow> nat list \<Rightarrow> (PollPoller \<times> 'cb store \<times> nat list) res" where
  "poll_poll p s numEvents revs active =
     (let p1 = kernel_writes revs p
      in if numEvents > 0
         then rbind (poll_fillActiveChannels p1 s numEvents (pollfds p1) active) (\<lambda>act. Inr (p1, s, act))
         else Inr (p1, s, active))"

subsection \<open>The invariant\<close>

text \<open>What \<open>poll(2)\<close> is asked to watch for a channel: the first entry with its descriptor.\<close>

definition poll_interest :: "PollPoller \<Rightarrow> 'cb store \<Rightarrow> nat \<Rightarrow> mask option" where
  "poll_interest p s a =
     (case s a of None \<Rightarrow> None
      | Some c \<Rightarrow>
          if pp_channels p (fd c) = Some a \<and> 0 \<le> fd c
          then map_option (\<lambda>pfd. scast (pfd_events pfd)) (find (\<lambda>pfd. pfd_fd pfd = fd c) (pollfds p))
          else None)"

definition slot_ok :: "PollPoller \<Rightarrow> 'cb store \<Rightarrow> nat \<Rightarrow> nat \<Rightarrow> bool" where
  "slot_ok p s i a \<longleftrightarrow>
     (\<exists>c. s a = Some c \<and> index c = int i \<and> 0 \<le> fd c \<and> wanted_ok (events c) \<and>
          pfd_fd (pollfds p ! i) = (if events c = 0 then - fd c - 1 else fd c) \<and>
          pfd_events (pollfds p ! i) = ucast (events c) \<and> pp_channels p (fd c) = Some a)"

text \<open>Position \<open>i\<close> of the array belongs to the channel \<open>own ! i\<close>.\<close>

definition owners :: "PollPoller \<Rightarrow> 'cb store \<Rightarrow> nat list \<Rightarrow> bool" where
  "owners p s own \<longleftrightarrow>
     length own = length (pollfds p) \<and> distinct own \<and>
     (\<forall>i < length own. slot_ok p s i (own ! i)) \<and>
     (\<forall>f a. pp_channels p f = Some a \<longrightarrow> a \<in> set own \<and> (\<exists>c. s a = Some c \<and> fd c = f))"

definition poll_inv :: "PollPoller \<Rightarrow> 'cb store \<Rightarrow> bool" where
  "poll_inv p s \<longleftrightarrow> (\<exists>own. owners p s own)"

lemma wanted_ok_short: "wanted_ok ev \<Longrightarrow> scast (ucast ev :: 16 word) = ev"
proof -
  assume w: "wanted_ok ev"
  have "n = 0 \<or> n = 1 \<or> n = 2" if b: "bit ev n" for n
    using w [unfolded wanted_ok_def bit_eq_iff] b bit_imp_le_length [OF b]
    by (auto simp: kReadEvent_def kWriteEvent_def bit_simps bit_poll dest!: spec [of _ n])
  then have lt: "bit ev n \<Longrightarrow> n < 3" for n by force
  have "bit ev (min 15 n) \<longleftrightarrow> bit ev n" for n
    using lt [of 15] lt [of n] by (cases "n \<le> 15") (auto simp: min_def)
  then show ?thesis
    by (intro bit_word_eqI) (auto simp: bit_simps)
qed

lemma poll_has_iff: "poll_hasChannel p s a \<longleftrightarrow> (\<exists>c. s a = Some c \<and> pp_channels p (fd c) = Some a)"
  by (simp add: poll_hasChannel_def hasChannel_def split: option.split)

lemma ownersD:
  assumes "owners p s own"
  shows "length own = length (pollfds p)" "distinct own" "i < length own \<Longrightarrow> slot_ok p s i (own ! i)"
    "pp_channels p f = Some a \<Longrightarrow> a \<in> set own" "pp_channels p f = Some a \<Longrightarrow> \<exists>c. s a = Some c \<and> fd c = f"
  using assms by (simp_all add: owners_def)

lemma owners_has: "owners p s own \<Longrightarrow> poll_hasChannel p s a \<longleftrightarrow> a \<in> set own"
  using ownersD(3-5) [of p s own] by (fastforce simp: poll_has_iff in_set_conv_nth slot_ok_def)

lemma owners_slot:
  assumes o: "owners p s own" and h: "poll_hasChannel p s a" and c: "s a = Some c"
  shows "0 \<le> index c" "nat (index c) < length (pollfds p)" "own ! nat (index c) = a"
    "slot_ok p s (nat (index c)) a" "pp_channels p (fd c) = Some a" "0 \<le> fd c"
proof -
  obtain i where "i < length own" "own ! i = a" using h owners_has [OF o] by (auto simp: in_set_conv_nth)
  then show "0 \<le> index c" "nat (index c) < length (pollfds p)" "own ! nat (index c) = a"
    "slot_ok p s (nat (index c)) a" "pp_channels p (fd c) = Some a" "0 \<le> fd c"
    using ownersD(1) [OF o] ownersD(3) [OF o, of i] c by (auto simp: slot_ok_def)
qed

lemma slot_ok_cong:
  assumes "slot_ok p s i a" "s' a = s a" "pollfds p' ! j = pollfds p ! i" "i = j"
    "\<And>c. s a = Some c \<Longrightarrow> pp_channels p (fd c) = Some a \<Longrightarrow> pp_channels p' (fd c) = Some a"
  shows "slot_ok p' s' j a"
  using assms by (auto simp: slot_ok_def)

lemma poll_frame:
  assumes i: "poll_inv p s" and n: "\<not> poll_hasChannel p s a"
  shows "poll_inv p (s(a := v)) \<and> (\<forall>b. poll_hasChannel p (s(a := v)) b = poll_hasChannel p s b)"
proof -
  obtain own where o: "owners p s own" using i by (auto simp: poll_inv_def)
  have na: "a \<notin> set own" using n owners_has [OF o] by simp
  have "owners p (s(a := v)) own"
    unfolding owners_def
  proof (intro conjI allI impI)
    fix i assume i: "i < length own"
    then have "own ! i \<noteq> a" using na nth_mem by metis
    then show "slot_ok p (s(a := v)) i (own ! i)"
      using ownersD(3) [OF o i] by (simp add: slot_ok_def)
  next
    fix f b assume "pp_channels p f = Some b"
    then show "b \<in> set own" "\<exists>c. (s(a := v)) b = Some c \<and> fd c = f"
      using ownersD(4,5) [OF o, of f b] na by auto
  qed (use ownersD(1,2) [OF o] in simp_all)
  then show ?thesis using owners_has [OF o] owners_has poll_inv_def by blast
qed

lemma poll_fresh:
  assumes o: "owners p s own" and "\<forall>b d. poll_hasChannel p s b \<longrightarrow> s b = Some d \<longrightarrow> fd d \<noteq> fd c"
  shows "pp_channels p (fd c) = None"
proof (rule ccontr)
  assume "pp_channels p (fd c) \<noteq> None"
  then obtain b where b: "pp_channels p (fd c) = Some b" by blast
  then obtain d where "s b = Some d" "fd d = fd c" using ownersD(5) [OF o b] by blast
  moreover from this have "poll_hasChannel p s b" using b by (simp add: poll_has_iff)
  ultimately show False using assms(2) by blast
qed

lemma poll_update_new:
  assumes o: "owners p s own" and c: "s a = Some c" and fdc: "0 \<le> fd c" and w: "wanted_ok ev"
    and n: "index c = -1" "ev \<noteq> 0" "pp_channels p (fd c) = None" and na: "a \<notin> set own"
    and s1: "s1 = s(a \<mapsto> c\<lparr>events := ev, addedToLoop := True\<rparr>)"
  shows "\<exists>p' s'. poll_updateChannel p s1 a = Inr (p', s') \<and> same_but_index s1 s' \<and> owners p' s' (own @ [a]) \<and>
    (\<forall>b. b \<noteq> a \<longrightarrow> s' b = s b)"
proof -
  let ?pfd = "\<lparr>pfd_fd = fd c, pfd_events = ucast ev, pfd_revents = 0\<rparr>"
  let ?p' = "p\<lparr>pollfds := pollfds p @ [?pfd], pp_channels := (pp_channels p)(fd c \<mapsto> a)\<rparr>"
  let ?s' = "modify (set_index (int (length (pollfds p)))) a s1"
  have "poll_updateChannel p s1 a = Inr (?p', ?s')"
    using s1 n by (simp add: poll_updateChannel_def Let_def)
  moreover have "owners ?p' ?s' (own @ [a])"
    unfolding owners_def
  proof (intro conjI allI impI)
    fix i assume i: "i < length (own @ [a])"
    show "slot_ok ?p' ?s' i ((own @ [a]) ! i)"
    proof (cases "i < length own")
      case True
      then have ne: "own ! i \<noteq> a" using na nth_mem by metis
      have "slot_ok p s i (own ! i)" using ownersD(3) [OF o True] .
      then have "slot_ok ?p' ?s' i (own ! i)"
        by (rule slot_ok_cong) (use True ne s1 ownersD(1) [OF o] n(3) \<open>slot_ok p s i (own ! i)\<close> in
            \<open>auto simp: nth_append slot_ok_def\<close>)
      then show ?thesis using True by (simp add: nth_append)
    next
      case False
      then have "i = length own" using i by simp
      then show ?thesis using s1 ownersD(1) [OF o] fdc w n(2)
        by (simp add: slot_ok_def set_index_def nth_append)
    qed
  next
    fix f b assume "pp_channels ?p' f = Some b"
    then show "b \<in> set (own @ [a])" "\<exists>c. ?s' b = Some c \<and> fd c = f"
      using ownersD(4,5) [OF o, of f b] na s1 by (auto simp: modify_def set_index_def split: if_splits)
  qed (use ownersD(1,2) [OF o] na in simp_all)
  moreover have "\<forall>b. b \<noteq> a \<longrightarrow> ?s' b = s b" using s1 by simp
  ultimately show ?thesis using same_but_index_modify by blast
qed

lemma poll_update_old:
  assumes o: "owners p s own" and c: "s a = Some c" and w: "wanted_ok ev" and h: "poll_hasChannel p s a"
    and s1: "s1 = s(a \<mapsto> c\<lparr>events := ev, addedToLoop := True\<rparr>)"
  shows "\<exists>p'. poll_updateChannel p s1 a = Inr (p', s1) \<and> owners p' s1 own"
proof -
  note sl = owners_slot [OF o h c]
  let ?i = "nat (index c)"
  let ?pfd = "(pollfds p ! ?i)\<lparr>pfd_fd := (if ev = 0 then - fd c - 1 else fd c),
                pfd_events := ucast ev, pfd_revents := 0\<rparr>"
  let ?p' = "p\<lparr>pollfds := (pollfds p)[?i := ?pfd]\<rparr>"
  have "pfd_fd (pollfds p ! ?i) = fd c \<or> pfd_fd (pollfds p ! ?i) = - fd c - 1"
    using sl(4) c by (auto simp: slot_ok_def split: if_splits)
  then have "poll_updateChannel p s1 a = Inr (?p', s1)"
    using s1 sl by (auto simp: poll_updateChannel_def Let_def isNoneEvent_def kNoneEvent_def)
  moreover have "owners ?p' s1 own"
    unfolding owners_def
  proof (intro conjI allI impI)
    fix i assume i: "i < length own"
    show "slot_ok ?p' s1 i (own ! i)"
    proof (cases "i = ?i")
      case True
      then show ?thesis using sl s1 w by (simp add: slot_ok_def)
    next
      case False
      then have "own ! i \<noteq> a"
        using sl(2,3) i ownersD(1,2) [OF o] by (metis nth_eq_iff_index_eq)
      then show ?thesis using ownersD(3) [OF o i] False s1 by (simp add: slot_ok_def)
    qed
  next
    fix f b assume "pp_channels ?p' f = Some b"
    then show "b \<in> set own" "\<exists>c. s1 b = Some c \<and> fd c = f"
      using ownersD(4,5) [OF o, of f b] s1 c by auto
  qed (use ownersD(1,2) [OF o] in simp_all)
  ultimately show ?thesis by blast
qed

lemma poll_update_ok:
  assumes i: "poll_inv p s" and c: "s a = Some c" and fdc: "0 \<le> fd c" and w: "wanted_ok ev"
    and m: "may_update poll_hasChannel p s a ev"
    and s1: "s1 = s(a \<mapsto> c\<lparr>events := ev, addedToLoop := True\<rparr>)"
  shows "\<exists>p' s'. poll_updateChannel p s1 a = Inr (p', s') \<and> poll_inv p' s' \<and> same_but_index s1 s' \<and>
    (\<forall>b. poll_hasChannel p' s' b \<longleftrightarrow> b = a \<or> poll_hasChannel p s b) \<and>
    (\<forall>b. b \<noteq> a \<longrightarrow> \<not> poll_hasChannel p s b \<longrightarrow> s' b = s b)"
proof -
  obtain own where o: "owners p s own" using i by (auto simp: poll_inv_def)
  show ?thesis
  proof (cases "poll_hasChannel p s a")
    case True
    then obtain p' where "poll_updateChannel p s1 a = Inr (p', s1)" "owners p' s1 own"
      using poll_update_old [OF o c w _ s1] by blast
    then show ?thesis using True owners_has [OF o] owners_has [of p' s1 own] s1
      by (auto simp: poll_inv_def same_but_index_def)
  next
    case False
    then have n: "index c = -1" "ev \<noteq> 0" "pp_channels p (fd c) = None" "a \<notin> set own"
      using m c poll_fresh [OF o] owners_has [OF o] by (auto simp: may_update_def)
    obtain p' s' where "poll_updateChannel p s1 a = Inr (p', s')" "same_but_index s1 s'"
      "owners p' s' (own @ [a])" "\<forall>b. b \<noteq> a \<longrightarrow> s' b = s b"
      using poll_update_new [OF o c fdc w n s1] by blast
    then show ?thesis using owners_has [OF o] owners_has [of p' s' "own @ [a]"]
      by (auto simp: poll_inv_def)
  qed
qed

subsection \<open>Removal\<close>

text \<open>\<open>iter_swap\<close> and \<open>pop_back\<close>: the last element moves to position \<open>i\<close>.\<close>

definition swap_remove :: "nat \<Rightarrow> 'a list \<Rightarrow> 'a list" where
  "swap_remove i xs = (if i = length xs - 1 then butlast xs else (butlast xs)[i := last xs])"

lemma length_swap_remove [simp]: "length (swap_remove i xs) = length xs - 1"
  by (simp add: swap_remove_def)

lemma swap_remove_nth:
  "i < length xs \<Longrightarrow> j < length xs - 1 \<Longrightarrow> swap_remove i xs ! j = (if j = i then last xs else xs ! j)"
  by (auto simp: swap_remove_def nth_butlast)

lemma set_swap_remove:
  assumes d: "distinct xs" and i: "i < length xs"
  shows "set (swap_remove i xs) = set xs - {xs ! i} \<and> distinct (swap_remove i xs)"
proof (cases "i = length xs - 1")
  case True
  then obtain ys y where xs: "xs = ys @ [y]" using i by (cases xs rule: rev_cases) auto
  then show ?thesis using d True by (auto simp: swap_remove_def)
next
  case False
  then obtain ys l where xs: "xs = ys @ [l]" "i < length ys"
    using i by (cases xs rule: rev_cases) auto
  define A B where "A = take i ys" and "B = drop (Suc i) ys"
  have ys: "ys = A @ ys ! i # B" "length A = i"
    using xs(2) by (simp_all add: A_def B_def id_take_nth_drop)
  have "swap_remove i xs = A @ l # B"
    using False xs(1) ys by (simp add: swap_remove_def) (metis list_update_length)
  moreover have "xs = A @ ys ! i # B @ [l]" using xs(1) ys(1) by (metis append.assoc append_Cons)
  moreover have "xs ! i = ys ! i" using xs by (simp add: nth_append)
  ultimately show ?thesis using d by auto
qed

lemma butlast_swap:
  "i < length xs \<Longrightarrow> i \<noteq> length xs - 1 \<Longrightarrow>
   butlast (xs[i := last xs, length xs - 1 := xs ! i]) = swap_remove i xs"
  by (simp add: swap_remove_def butlast_list_update)

text \<open>The store after a removal: the channel that owned the last entry has moved to \<open>i\<close>.\<close>

definition moved_store :: "nat \<Rightarrow> nat list \<Rightarrow> 'cb store \<Rightarrow> 'cb store" where
  "moved_store i own s = (if i = length own - 1 then s else modify (set_index (int i)) (last own) s)"

lemma poll_remove_result:
  assumes o: "owners p s own" and h: "poll_hasChannel p s a" and c: "s a = Some c" and e: "events c = 0"
    and s1: "s1 = s(a \<mapsto> c\<lparr>addedToLoop := False\<rparr>)"
  shows "poll_removeChannel p s1 a =
    Inr (p\<lparr>pp_channels := (pp_channels p)(fd c := None), pollfds := swap_remove (nat (index c)) (pollfds p)\<rparr>,
         moved_store (nat (index c)) own s1)"
proof -
  note sl = owners_slot [OF o h c]
  let ?i = "nat (index c)"
  let ?n = "length (pollfds p)"
  have pfd: "pfd_fd (pollfds p ! ?i) = - fd c - 1" "pfd_events (pollfds p ! ?i) = ucast (0 :: mask)"
    using sl(4) c e by (auto simp: slot_ok_def)
  have len: "length own = ?n" using ownersD(1) [OF o] .
  show ?thesis
  proof (cases "?i = ?n - 1")
    case True
    then have "swap_remove ?i (pollfds p) = butlast (pollfds p)" by (simp add: swap_remove_def)
    then show ?thesis using s1 sl pfd True e len
      by (simp add: poll_removeChannel_def Let_def isNoneEvent_def kNoneEvent_def moved_store_def)
  next
    case False
    let ?b = "last own"
    have own0: "own \<noteq> []" "pollfds p \<noteq> []" using sl(2) len by auto
    have b: "?b = own ! (?n - 1)" using own0(1) len by (simp add: last_conv_nth)
    obtain d where d: "s ?b = Some d" "0 \<le> fd d" "pp_channels p (fd d) = Some ?b"
      "pfd_fd (last (pollfds p)) = (if events d = 0 then - fd d - 1 else fd d)"
      using ownersD(3) [OF o, of "?n - 1"] own0 len b
      by (auto simp: slot_ok_def last_conv_nth)
    have "?b \<noteq> a"
      using False sl(2,3) b ownersD(2) [OF o] len own0(2) by (metis diff_less length_greater_0_conv less_one nth_eq_iff_index_eq)
    then have ne: "fd d \<noteq> fd c" using d(3) sl(5) by auto
    have key: "(if pfd_fd (last (pollfds p)) < 0 then - pfd_fd (last (pollfds p)) - 1
        else pfd_fd (last (pollfds p))) = fd d" using d(2,4) by auto
    show ?thesis using s1 sl pfd False e len d(1,3) ne \<open>?b \<noteq> a\<close> butlast_swap [OF sl(2) False]
      by (simp add: poll_removeChannel_def Let_def isNoneEvent_def kNoneEvent_def moved_store_def key)
  qed
qed

lemma poll_remove_owners:
  assumes o: "owners p s own" and h: "poll_hasChannel p s a" and c: "s a = Some c"
    and i: "i = nat (index c)" and s1: "s1 = s(a \<mapsto> c\<lparr>addedToLoop := False\<rparr>)"
    and p': "p' = p\<lparr>pp_channels := (pp_channels p)(fd c := None), pollfds := swap_remove i (pollfds p)\<rparr>"
  shows "owners p' (moved_store i own s1) (swap_remove i own)"
proof -
  note sl = owners_slot [OF o h c, folded i]
  let ?n = "length own" and ?s' = "moved_store i own s1"
  have len: "length (pollfds p) = ?n" using ownersD(1) [OF o] by simp
  have il: "i < ?n" using sl(2) len by simp
  have sr: "set (swap_remove i own) = set own - {a}" "distinct (swap_remove i own)"
    using set_swap_remove [OF ownersD(2) [OF o] il] sl(3) by auto
  have keep: "pp_channels p' (fd d) = Some b" if "s b = Some d" "pp_channels p (fd d) = Some b" "b \<noteq> a" for b d
    using that sl(5) p' by auto
  have slot: "slot_ok p' ?s' j (swap_remove i own ! j)" if j: "j < ?n - 1" for j
  proof (cases "j = i")
    case True
    have b: "swap_remove i own ! j = last own" "swap_remove i (pollfds p) ! j = last (pollfds p)"
      using swap_remove_nth [of i own j] swap_remove_nth [of i "pollfds p" j] il j len True by simp_all
    have "last own = own ! (?n - 1)" "last (pollfds p) = pollfds p ! (?n - 1)"
      using il len last_conv_nth [of own] last_conv_nth [of "pollfds p"] by fastforce+
    moreover have "last own \<noteq> a"
      using True j sl(3) calculation(1) nth_eq_iff_index_eq [OF ownersD(2) [OF o] _ il, of "?n - 1"] by auto
    moreover have "slot_ok p s (?n - 1) (own ! (?n - 1))" using ownersD(3) [OF o, of "?n - 1"] il by simp
    ultimately obtain d where d: "s (last own) = Some d" "0 \<le> fd d" "wanted_ok (events d)" "last own \<noteq> a"
      "pfd_fd (last (pollfds p)) = (if events d = 0 then - fd d - 1 else fd d)"
      "pfd_events (last (pollfds p)) = ucast (events d)" "pp_channels p (fd d) = Some (last own)"
      by (auto simp: slot_ok_def)
    have "?s' (last own) = Some (set_index (int i) d)"
      using s1 True j d(1,4) by (simp add: moved_store_def)
    then show ?thesis unfolding slot_ok_def b(1) using True b(2) p' d keep [OF d(1,7,4)]
      by (intro exI [of _ "set_index (int i) d"]) (simp add: set_index_def)
  next
    case False
    have b: "swap_remove i own ! j = own ! j" "swap_remove i (pollfds p) ! j = pollfds p ! j"
      using swap_remove_nth [of i own j] swap_remove_nth [of i "pollfds p" j] il j len False by simp_all
    have jl: "j < ?n" using j by simp
    have ne: "own ! j \<noteq> a" "own ! j \<noteq> last own"
      using False j jl sl(3) il nth_eq_iff_index_eq [OF ownersD(2) [OF o] jl, of i]
        nth_eq_iff_index_eq [OF ownersD(2) [OF o] jl, of "?n - 1"] last_conv_nth [of own] by fastforce+
    then have "?s' (own ! j) = s (own ! j)" using s1 by (simp add: moved_store_def)
    then show ?thesis unfolding b(1)
      by (rule slot_ok_cong [OF ownersD(3) [OF o jl]]) (use b(2) p' keep [OF _ _ ne(1)] in auto)
  qed
  have "b \<in> set (swap_remove i own) \<and> (\<exists>d. ?s' b = Some d \<and> fd d = f)" if f: "pp_channels p' f = Some b" for f b
  proof -
    have pf: "pp_channels p f = Some b" "f \<noteq> fd c" using f p' by (auto split: if_splits)
    moreover from this have "b \<noteq> a" using ownersD(5) [OF o] c by force
    ultimately show ?thesis using ownersD(4,5) [OF o pf(1)] sr(1) s1
      by (auto simp: moved_store_def modify_def set_index_def)
  qed
  then show ?thesis using slot sr(2) p' len by (simp add: owners_def)
qed

lemma poll_remove_ok:
  assumes i: "poll_inv p s" and c: "s a = Some c" and m: "may_remove poll_hasChannel p s a"
    and s1: "s1 = s(a \<mapsto> c\<lparr>addedToLoop := False\<rparr>)"
  shows "\<exists>p' s'. poll_removeChannel p s1 a = Inr (p', s') \<and> poll_inv p' s' \<and> same_but_index s1 s' \<and>
    (\<forall>b. poll_hasChannel p' s' b \<longleftrightarrow> b \<noteq> a \<and> poll_hasChannel p s b) \<and>
    (\<forall>b. b \<noteq> a \<longrightarrow> \<not> poll_hasChannel p s b \<longrightarrow> s' b = s b)"
proof -
  obtain own where o: "owners p s own" using i by (auto simp: poll_inv_def)
  have h: "poll_hasChannel p s a" "events c = 0" using m c by (auto simp: may_remove_def)
  let ?i = "nat (index c)"
  let ?p' = "p\<lparr>pp_channels := (pp_channels p)(fd c := None), pollfds := swap_remove ?i (pollfds p)\<rparr>"
  let ?s' = "moved_store ?i own s1"
  note sl = owners_slot [OF o h(1) c]
  have o': "owners ?p' ?s' (swap_remove ?i own)" using poll_remove_owners [OF o h(1) c refl s1 refl] .
  have "set (swap_remove ?i own) = set own - {a}"
    using set_swap_remove [OF ownersD(2) [OF o], of ?i] sl(2,3) ownersD(1) [OF o] by simp
  then have "\<forall>b. poll_hasChannel ?p' ?s' b \<longleftrightarrow> b \<noteq> a \<and> poll_hasChannel p s b"
    using owners_has [OF o] owners_has [OF o'] by auto
  moreover have "same_but_index s1 ?s'"
    using same_but_index_modify [of s1] by (simp add: moved_store_def same_but_index_def)
  moreover have "last own \<in> set own" using sl(2) by (metis last_in_set length_0_conv less_zeroE ownersD(1) [OF o])
  then have "\<forall>b. b \<noteq> a \<longrightarrow> \<not> poll_hasChannel p s b \<longrightarrow> ?s' b = s b"
    using owners_has [OF o] s1 by (auto simp: moved_store_def modify_def)
  ultimately show ?thesis using poll_remove_result [OF o h(1) c h(2) s1] o' poll_inv_def by blast
qed

lemma poll_interest_slot:
  assumes o: "owners p s own" and h: "poll_hasChannel p s a" and c: "s a = Some c"
  shows "poll_interest p s a = (if events c = 0 then None else Some (events c))"
proof -
  note sl = owners_slot [OF o h c]
  let ?i = "nat (index c)"
  have i: "?i < length (pollfds p)" "pfd_fd (pollfds p ! ?i) = (if events c = 0 then - fd c - 1 else fd c)"
    "pfd_events (pollfds p ! ?i) = ucast (events c)" "wanted_ok (events c)"
    using sl(2,4) c by (auto simp: slot_ok_def)
  have only: "j = ?i" if j: "j < length (pollfds p)" "pfd_fd (pollfds p ! j) = fd c" for j
  proof -
    obtain d where d: "s (own ! j) = Some d" "index d = int j" "0 \<le> fd d"
      "pfd_fd (pollfds p ! j) = (if events d = 0 then - fd d - 1 else fd d)"
      "pp_channels p (fd d) = Some (own ! j)"
      using ownersD(3) [OF o, of j] j(1) ownersD(1) [OF o] by (auto simp: slot_ok_def)
    then have "fd d = fd c" using j(2) sl(6) by (auto split: if_splits)
    then show ?thesis using d(1,2,5) sl(5) c by simp
  qed
  have "find (\<lambda>pfd. pfd_fd pfd = fd c) (pollfds p) = (if events c = 0 then None else Some (pollfds p ! ?i))"
  proof (cases "events c = 0")
    case True
    then have "\<forall>pfd \<in> set (pollfds p). pfd_fd pfd \<noteq> fd c"
      using only i(2) sl(6) by (auto simp: in_set_conv_nth)
    then show ?thesis using True by (simp add: find_None_iff)
  next
    case False
    have "pfd_fd (pollfds p ! ?i) = fd c" using i(2) False by simp
    moreover have "pfd_fd (pollfds p ! k) \<noteq> fd c" if "k < ?i" for k
      using only [of k] that i(1) by linarith
    ultimately have "\<exists>j<length (pollfds p). pfd_fd (pollfds p ! j) = fd c \<and>
        pollfds p ! ?i = pollfds p ! j \<and> (\<forall>k<j. pfd_fd (pollfds p ! k) \<noteq> fd c)"
      using i(1) by blast
    then show ?thesis using False by (simp only: find_Some_iff if_False)
  qed
  then show ?thesis using c sl(5,6) i(3,4) wanted_ok_short by (simp add: poll_interest_def)
qed

lemma poll_configure:
  assumes "poll_inv p s" "s a = Some c" "same_registration c c'"
  shows "poll_inv p (s(a \<mapsto> c')) \<and> (\<forall>b. poll_hasChannel p (s(a \<mapsto> c')) b = poll_hasChannel p s b)"
proof -
  have "slot_ok p (s(a \<mapsto> c')) i b = slot_ok p s i b" for i b
    using assms(2,3) by (auto simp: slot_ok_def same_registration_def)
  moreover have "(\<exists>d. (s(a \<mapsto> c')) b = Some d \<and> fd d = f) \<longleftrightarrow> (\<exists>d. s b = Some d \<and> fd d = f)" for b f
    using assms(2,3) by (auto simp: same_registration_def)
  ultimately have "owners p (s(a \<mapsto> c')) own = owners p s own" for own unfolding owners_def by simp
  moreover have "poll_hasChannel p (s(a \<mapsto> c')) b = poll_hasChannel p s b" for b
    using assms(2,3) by (auto simp: poll_has_iff same_registration_def)
  ultimately show ?thesis using assms(1) by (simp add: poll_inv_def)
qed

interpretation pp: poller new_PollPoller poll_updateChannel poll_removeChannel poll_hasChannel
  poll_interest poll_inv
proof (unfold_locales, goal_cases)
  case 1
  then show ?case by (auto simp: poll_inv_def owners_def new_PollPoller_def)
next
  case (2 p s a)
  then show ?case by (auto simp: poll_has_iff)
next
  case (3 a)
  then show ?case by (simp add: poll_has_iff)
next
  case (4 p s a v)
  then show ?case by (rule poll_frame)
next
  case (5 p s a c ev s1)
  then show ?case by (intro poll_update_ok)
next
  case (6 p s a c s1)
  then show ?case by (intro poll_remove_ok)
next
  case (7 p s a c)
  then show ?case using poll_interest_slot [OF _ 7(2,3)] by (auto simp: poll_inv_def)
next
  case (8 p s a c)
  then show ?case using poll_interest_slot [OF _ 8(2,3)] by (auto simp: poll_inv_def)
next
  case (9 p s a)
  then show ?case by (auto simp: poll_interest_def poll_has_iff split: option.split)
next
  case (10 p s a c c')
  then show ?case by (rule poll_configure)
qed

subsection \<open>Properties\<close>

text \<open>In every session of channels on the poll poller in which the owners keep to the contract,
  every operation succeeds, and the array asks \<open>poll(2)\<close> to watch each registered channel for
  exactly the events it wants, skipping those that want none; the removal of a channel from the
  middle of the array keeps every other entry.\<close>

lemma poll_session:
  assumes "session new_PollPoller poll_updateChannel poll_removeChannel poll_hasChannel p s"
    "s a = Some c"
  shows "(may_update poll_hasChannel p s a (new_events op (events c)) \<longrightarrow>
      (\<exists>p' s'. channel_do poll_updateChannel op p s a = Inr (p', s') \<and> poll_hasChannel p' s' a)) \<and>
    (may_remove poll_hasChannel p s a \<longrightarrow>
      (\<exists>p' s'. channel_remove poll_removeChannel p s a = Inr (p', s') \<and> \<not> poll_hasChannel p' s' a)) \<and>
    poll_interest p s a = (if poll_hasChannel p s a \<and> events c \<noteq> 0 then Some (events c) else None)"
proof -
  have "poll_inv p s" using pp.session_good [OF assms(1)] by (rule pp.goodD)
  then obtain own where o: "owners p s own" by (auto simp: poll_inv_def)
  have "poll_interest p s a = (if poll_hasChannel p s a \<and> events c \<noteq> 0 then Some (events c) else None)"
    using poll_interest_slot [OF o _ assms(2)] pp.session_watched [OF assms] by auto
  then show ?thesis using pp.session_safe [OF assms] by blast
qed

definition poll_channel :: "nat store" where
  "poll_channel = [7 \<mapsto> new_Channel 5]"

lemma poll_channel_session:
  "session new_PollPoller poll_updateChannel poll_removeChannel poll_hasChannel new_PollPoller poll_channel"
  unfolding poll_channel_def by (rule session.create [OF session.start]) simp_all

text \<open>The poll poller never stores the events that \<open>poll(2)\<close> reports into the channels it
  returns: polling leaves all channels as they were, and handling the event of a channel that has
  been polled only ever runs no callback at all.\<close>

lemma poll_loses_revents:
  assumes "poll_poll p s numEvents revs [] = Inr (p', s', active)"
  shows "s' = s" "s' a = Some c \<Longrightarrow> revents c = 0 \<Longrightarrow> dispatch c t = []"
  using assms by (auto simp: poll_poll_def dispatch_def Let_def split: if_splits)

text \<open>The poll poller refuses, by a failing assertion, to remove a channel whose first update
  already wanted no event, such as the channel of an Acceptor destroyed before listen(), and to
  register a channel again after its removal.\<close>

lemma poll_refuses:
  assumes "s a = Some c" "index c = -1" "events c = 0" "0 \<le> fd c"
  shows "(\<exists>p' s'. channel_do poll_updateChannel DisableAll new_PollPoller s a = Inr (p', s') \<and>
       (\<exists>msg. channel_remove poll_removeChannel p' s' a = Inl (AssertionFailed msg))) \<and>
    (\<exists>p1 s1 p2 s2 p3 s3.
       channel_do poll_updateChannel EnableReading new_PollPoller s a = Inr (p1, s1) \<and>
       channel_do poll_updateChannel DisableAll p1 s1 a = Inr (p2, s2) \<and>
       channel_remove poll_removeChannel p2 s2 a = Inr (p3, s3) \<and>
       (\<exists>msg. channel_do poll_updateChannel EnableReading p3 s3 a = Inl (AssertionFailed msg)))"
  using assms
  by (auto simp: channel_do_def channel_remove_def channel_apply_def poll_updateChannel_def poll_removeChannel_def
      new_PollPoller_def Let_def set_index_def isNoneEvent_def kNoneEvent_def kReadEvent_def ensure_def poll_bits)

end
