(* ===== verification/EventLoop.thy ===== *)
theory EventLoop
  imports Poller TimerQueue
begin

section \<open>The event loop (src/src/EventLoop.h, src/src/EventLoop.cpp)\<close>

text \<open>
  The state of a loop apart from its poller and timers: the flags, the channels of the current
  round, the queue of functors and the counter of the eventfd that other threads write to wake the
  loop. A functor is a value of the type \<open>'f\<close>. The first part has the operations as the thread
  of the loop runs them; what running a functor or handling an event does to the loop is an
  argument. The second part has the operations as steps of concurrent threads, split at the points
  where another thread can come between.
\<close>

record 'f EventLoop =
  looping :: bool
  quit :: bool
  loopEventHandling :: bool
  callingPendingFunctors :: bool
  iteration :: int
  pollReturnTime :: Timestamp
  activeChannels :: "nat list"
  currentActiveChannel :: "nat option"
  pendingFunctors :: "'f list"
  wakeupCounter :: nat

text \<open>The constructor leaves \<open>callingPendingFunctors_\<close> uninitialised: its first value is an
  argument.\<close>

definition new_EventLoop :: "bool \<Rightarrow> 'f EventLoop" where
  "new_EventLoop garbage =
     \<lparr>looping = False, quit = False, loopEventHandling = False, callingPendingFunctors = garbage,
      iteration = 0, pollReturnTime = Timestamp 0, activeChannels = [], currentActiveChannel = None,
      pendingFunctors = [], wakeupCounter = 0\<rparr>"

definition wakeup :: "'f EventLoop \<Rightarrow> 'f EventLoop" where
  "wakeup l = l\<lparr>wakeupCounter := wakeupCounter l + 1\<rparr>"

text \<open>Reading the eventfd of the wakeup channel returns the counter and clears it.\<close>

definition loop_handleRead :: "'f EventLoop \<Rightarrow> 'f EventLoop" where
  "loop_handleRead l = l\<lparr>wakeupCounter := 0\<rparr>"

definition loop_quit :: "bool \<Rightarrow> 'f EventLoop \<Rightarrow> 'f EventLoop" where
  "loop_quit isInLoopThread l =
     (let l1 = l\<lparr>quit := True\<rparr> in if \<not> isInLoopThread then wakeup l1 else l1)"

definition queueInLoop :: "bool \<Rightarrow> 'f \<Rightarrow> 'f EventLoop \<Rightarrow> 'f EventLoop" where
  "queueInLoop isInLoopThread cb l =
     (let l1 = l\<lparr>pendingFunctors := pendingFunctors l @ [cb]\<rparr>
      in if \<not> isInLoopThread \<or> callingPendingFunctors l1 then wakeup l1 else l1)"

definition runInLoop :: "bool \<Rightarrow> ('f \<Rightarrow> 'f EventLoop \<Rightarrow> 'f EventLoop) \<Rightarrow> 'f \<Rightarrow> 'f EventLoop \<Rightarrow> 'f EventLoop" where
  "runInLoop isInLoopThread exec cb l = (if isInLoopThread then exec cb l else queueInLoop False cb l)"

definition queueSize :: "'f EventLoop \<Rightarrow> nat" where
  "queueSize l = length (pendingFunctors l)"

definition doPendingFunctors :: "('f \<Rightarrow> 'f EventLoop \<Rightarrow> 'f EventLoop) \<Rightarrow> 'f EventLoop \<Rightarrow> 'f EventLoop" where
  "doPendingFunctors exec l =
     (let l1 = l\<lparr>callingPendingFunctors := True\<rparr>;
          functors = pendingFunctors l1;
          l2 = l1\<lparr>pendingFunctors := []\<rparr>;
          l3 = fold exec functors l2
      in l3\<lparr>callingPendingFunctors := False\<rparr>)"

text \<open>The body of the loop for one result of \<open>poll()\<close>, and the loop over a sequence of them:
  \<open>handle\<close> is \<open>handleEvent\<close> of a channel. The loop returns when \<open>quit_\<close> is set; when the
  results run out first, it is still running (\<open>None\<close>).\<close>

definition loop_iteration ::
  "(nat \<Rightarrow> Timestamp \<Rightarrow> 'f EventLoop \<Rightarrow> 'f EventLoop) \<Rightarrow> ('f \<Rightarrow> 'f EventLoop \<Rightarrow> 'f EventLoop) \<Rightarrow>
   Timestamp \<times> nat list \<Rightarrow> 'f EventLoop \<Rightarrow> 'f EventLoop" where
  "loop_iteration handle exec r l =
     (let l1 = l\<lparr>activeChannels := snd r, pollReturnTime := fst r, iteration := iteration l + 1,
                 loopEventHandling := True\<rparr>;
          l2 = fold (\<lambda>a l. handle a (pollReturnTime l) (l\<lparr>currentActiveChannel := Some a\<rparr>)) (snd r) l1
      in doPendingFunctors exec (l2\<lparr>currentActiveChannel := None, loopEventHandling := False\<rparr>))"

fun loop_while ::
  "(nat \<Rightarrow> Timestamp \<Rightarrow> 'f EventLoop \<Rightarrow> 'f EventLoop) \<Rightarrow> ('f \<Rightarrow> 'f EventLoop \<Rightarrow> 'f EventLoop) \<Rightarrow>
   (Timestamp \<times> nat list) list \<Rightarrow> 'f EventLoop \<Rightarrow> 'f EventLoop option" where
  "loop_while handle exec rs l =
     (if quit l then Some l
      else case rs of [] \<Rightarrow> None | r # rs' \<Rightarrow> loop_while handle exec rs' (loop_iteration handle exec r l))"

declare loop_while.simps [simp del]

definition loop ::
  "(nat \<Rightarrow> Timestamp \<Rightarrow> 'f EventLoop \<Rightarrow> 'f EventLoop) \<Rightarrow> ('f \<Rightarrow> 'f EventLoop \<Rightarrow> 'f EventLoop) \<Rightarrow>
   (Timestamp \<times> nat list) list \<Rightarrow> 'f EventLoop \<Rightarrow> 'f EventLoop option res" where
  "loop handle exec rs l =
     ensure (\<not> looping l) ''!looping_''
     (Inr (map_option (\<lambda>l. l\<lparr>looping := False\<rparr>)
            (loop_while handle exec rs (l\<lparr>looping := True, quit := False\<rparr>))))"

text \<open>A channel may leave the poller while events are handled only if it is the one being handled
  or not among those still to be handled.\<close>

definition loop_removeChannel ::
  "('p \<Rightarrow> 'cb store \<Rightarrow> nat \<Rightarrow> ('p \<times> 'cb store) res) \<Rightarrow> 'f EventLoop \<Rightarrow> 'p \<Rightarrow> 'cb store \<Rightarrow> nat \<Rightarrow>
   ('p \<times> 'cb store) res" where
  "loop_removeChannel removeChannel l p s a =
     ensure (\<not> loopEventHandling l \<or> currentActiveChannel l = Some a \<or> a \<notin> set (activeChannels l))
       ''currentActiveChannel_ == channel || channel not in activeChannels_''
     (removeChannel p s a)"

text \<open>The check of the calling thread: what a call from another thread prints. It does not stop the call.\<close>

definition loop_isInLoopThread :: "int \<Rightarrow> int \<Rightarrow> bool" where
  "loop_isInLoopThread threadId tid \<longleftrightarrow> threadId = tid"

definition abortNotInLoopThread :: "int \<Rightarrow> int \<Rightarrow> string" where
  "abortNotInLoopThread threadId tid =
     ''EventLoop::abortNotInLoopThread - was created in threadId_ =  '' @ dec_int threadId @
     '', current thread id = '' @ dec_int tid @ [CHR 0x0A]"

definition assertInLoopThread :: "int \<Rightarrow> int \<Rightarrow> string" where
  "assertInLoopThread threadId tid =
     (if \<not> loop_isInLoopThread threadId tid then abortNotInLoopThread threadId tid else [])"

fun print_channels :: "'cb store \<Rightarrow> nat list \<Rightarrow> string res" where
  "print_channels s [] = Inr []"
| "print_channels s (a # as) =
     chan s a (\<lambda>c. rbind (print_channels s as) (\<lambda>out.
       Inr (''{ '' @ channel_reventsToString c @ '' }'' @ [CHR 0x0A] @ out)))"

definition printActiveChannels :: "'cb store \<Rightarrow> 'f EventLoop \<Rightarrow> string res" where
  "printActiveChannels s l = print_channels s (activeChannels l)"

text \<open>The eventfd of a loop: without one the program ends, as by a failed assertion.\<close>

definition createEventfd :: "int \<Rightarrow> int res" where
  "createEventfd evtfd = ensure (\<not> evtfd < 0) ''Failed in eventfd'' (Inr evtfd)"

subsection \<open>Timers of the loop\<close>

definition runAt :: "((nat \<rightharpoonup> 'cb Timer) \<Rightarrow> nat option) \<Rightarrow> Timestamp \<Rightarrow> 'cb TimerQueue \<Rightarrow> Timestamp \<Rightarrow> 'cb \<Rightarrow>
    (TimerId \<times> 'cb TimerQueue) res" where
  "runAt alloc clock q time cb = addTimer alloc clock q cb time 0"

definition runAfter :: "(rat \<Rightarrow> rat) \<Rightarrow> ((nat \<rightharpoonup> 'cb Timer) \<Rightarrow> nat option) \<Rightarrow> Timestamp \<Rightarrow> Timestamp \<Rightarrow> 'cb TimerQueue \<Rightarrow>
    rat \<Rightarrow> 'cb \<Rightarrow> (TimerId \<times> 'cb TimerQueue) res" where
  "runAfter rnd alloc now clock q delay cb = runAt alloc clock q (addTime rnd now delay) cb"

definition runEvery :: "(rat \<Rightarrow> rat) \<Rightarrow> ((nat \<rightharpoonup> 'cb Timer) \<Rightarrow> nat option) \<Rightarrow> Timestamp \<Rightarrow> Timestamp \<Rightarrow> 'cb TimerQueue \<Rightarrow>
    rat \<Rightarrow> 'cb \<Rightarrow> (TimerId \<times> 'cb TimerQueue) res" where
  "runEvery rnd alloc now clock q iv cb = addTimer alloc clock q cb (addTime rnd now iv) iv"

subsection \<open>Functors run in order\<close>

text \<open>What a functor does to its loop: calls of \<open>queueInLoop\<close> and \<open>quit\<close> from the thread of
  the loop; \<open>LogCall\<close> records that it ran.\<close>

datatype 'f loop_call = CallQueue 'f | CallQuit

fun loop_calls :: "'f loop_call list \<Rightarrow> 'f EventLoop \<Rightarrow> 'f EventLoop" where
  "loop_calls [] l = l"
| "loop_calls (CallQueue f # cs) l = loop_calls cs (queueInLoop True f l)"
| "loop_calls (CallQuit # cs) l = loop_calls cs (loop_quit True l)"

fun queued_by :: "'f loop_call list \<Rightarrow> 'f list" where
  "queued_by [] = []"
| "queued_by (CallQueue f # cs) = f # queued_by cs"
| "queued_by (CallQuit # cs) = queued_by cs"

lemma loop_calls_simps [simp]:
  "pendingFunctors (loop_calls cs l) = pendingFunctors l @ queued_by cs"
  "callingPendingFunctors (loop_calls cs l) = callingPendingFunctors l"
  "quit (loop_calls cs l) = (quit l \<or> CallQuit \<in> set cs)"
  "wakeupCounter (loop_calls cs l) =
     wakeupCounter l + (if callingPendingFunctors l then length (queued_by cs) else 0)"
  by (induction cs l rule: loop_calls.induct)
    (auto simp: queueInLoop_def loop_quit_def wakeup_def Let_def)

lemma fold_exec_simps:
  fixes script :: "'f \<Rightarrow> 'f loop_call list"
  shows "pendingFunctors (fold (\<lambda>f. loop_calls (script f)) fs l) = pendingFunctors l @ concat (map (\<lambda>f. queued_by (script f)) fs)"
    and "callingPendingFunctors (fold (\<lambda>f. loop_calls (script f)) fs l) = callingPendingFunctors l"
    and "wakeupCounter (fold (\<lambda>f. loop_calls (script f)) fs l) = wakeupCounter l +
      (if callingPendingFunctors l then length (concat (map (\<lambda>f. queued_by (script f)) fs)) else 0)"
    and "quit (fold (\<lambda>f. loop_calls (script f)) fs l) = (quit l \<or> (\<exists>f \<in> set fs. CallQuit \<in> set (script f)))"
  by (induction fs arbitrary: l) auto

text \<open>One call of doPendingFunctors runs exactly the functors queued before it; what they queue
  meanwhile stays for the next round, in the order in which it was queued, and the loop has been
  woken for it, so that the next poll does not block.\<close>

lemma doPendingFunctors_round:
  fixes script :: "'f \<Rightarrow> 'f loop_call list"
  shows "let l' = doPendingFunctors (\<lambda>f. loop_calls (script f)) l
    in pendingFunctors l' = concat (map (\<lambda>f. queued_by (script f)) (pendingFunctors l)) \<and>
       \<not> callingPendingFunctors l' \<and>
       wakeupCounter l' = wakeupCounter l + queueSize l' \<and>
       quit l' = (quit l \<or> (\<exists>f \<in> set (pendingFunctors l). CallQuit \<in> set (script f)))"
  by (simp add: doPendingFunctors_def Let_def fold_exec_simps queueSize_def)

definition after_rounds ::
  "(nat \<Rightarrow> Timestamp \<Rightarrow> 'f EventLoop \<Rightarrow> 'f EventLoop) \<Rightarrow> ('f \<Rightarrow> 'f EventLoop \<Rightarrow> 'f EventLoop) \<Rightarrow>
   (Timestamp \<times> nat list) list \<Rightarrow> nat \<Rightarrow> 'f EventLoop \<Rightarrow> 'f EventLoop" where
  "after_rounds handle exec rs n l = fold (loop_iteration handle exec) (take n rs) l"

lemma loop_while_rounds:
  "loop_while handle exec rs l = Some l' \<longleftrightarrow>
   (\<exists>n \<le> length rs. l' = after_rounds handle exec rs n l \<and> quit l' \<and>
      (\<forall>m < n. \<not> quit (after_rounds handle exec rs m l)))"
proof (induction rs arbitrary: l)
  case Nil
  then show ?case by (auto simp: loop_while.simps after_rounds_def)
next
  case (Cons r rs)
  show ?case
  proof (cases "quit l")
    case True
    then have "\<not> (\<forall>m < Suc n. \<not> quit (after_rounds handle exec (r # rs) m l))" for n
      by (auto simp: after_rounds_def intro!: exI [of _ 0])
    then show ?thesis using True
      by (auto simp: loop_while.simps after_rounds_def) (metis fold_simps(1) not0_implies_Suc take0)+
  next
    case False
    have shift: "after_rounds handle exec (r # rs) (Suc n) l = after_rounds handle exec rs n (loop_iteration handle exec r l)" for n
      by (simp add: after_rounds_def)
    have zero: "after_rounds handle exec (r # rs) 0 l = l" by (simp add: after_rounds_def)
    have "loop_while handle exec (r # rs) l = Some l' \<longleftrightarrow>
        (\<exists>n \<le> length rs. l' = after_rounds handle exec (r # rs) (Suc n) l \<and> quit l' \<and>
          (\<forall>m < n. \<not> quit (after_rounds handle exec (r # rs) (Suc m) l)))"
      using False Cons.IH unfolding shift by (simp add: loop_while.simps)
    also have "\<dots> \<longleftrightarrow> (\<exists>n \<le> length (r # rs). l' = after_rounds handle exec (r # rs) n l \<and> quit l' \<and>
          (\<forall>m < n. \<not> quit (after_rounds handle exec (r # rs) m l)))"
      (is "?L \<longleftrightarrow> ?R")
    proof
      assume ?L
      then obtain n where "n \<le> length rs" "l' = after_rounds handle exec (r # rs) (Suc n) l" "quit l'"
        "\<forall>m < n. \<not> quit (after_rounds handle exec (r # rs) (Suc m) l)" by blast
      moreover have "\<not> quit (after_rounds handle exec (r # rs) m l)" if "m < Suc n" for m
        using that calculation(4) False zero by (cases m) auto
      ultimately show ?R by (intro exI [of _ "Suc n"]) simp
    next
      assume ?R
      then obtain n where n: "n \<le> length (r # rs)" "l' = after_rounds handle exec (r # rs) n l" "quit l'"
        "\<forall>m < n. \<not> quit (after_rounds handle exec (r # rs) m l)" by blast
      then obtain k where "n = Suc k" using False zero by (cases n) auto
      then show ?L using n by auto
    qed
    finally show ?thesis .
  qed
qed

text \<open>C31: loop() on a loop that is not running returns exactly after the first round of polling,
  handling and functors at whose end quit_ is set, and while no round sets quit_ it does not return;
  a quit asked for before loop() is forgotten; a second loop() fails its assertion.\<close>

theorem loop_until_quit:
  "(loop handle exec rs l = Inr (Some l') \<longleftrightarrow>
     \<not> looping l \<and>
     (\<exists>n \<le> length rs. \<exists>l1. l1 = after_rounds handle exec rs n (l\<lparr>looping := True, quit := False\<rparr>) \<and>
        quit l1 \<and> l' = l1\<lparr>looping := False\<rparr> \<and>
        (\<forall>m < n. \<not> quit (after_rounds handle exec rs m (l\<lparr>looping := True, quit := False\<rparr>))))) \<and>
   (looping l \<longleftrightarrow> loop handle exec rs l = Inl (AssertionFailed ''!looping_''))"
proof -
  have "loop handle exec rs l = Inr (Some l') \<longleftrightarrow> \<not> looping l \<and>
      (\<exists>l1. loop_while handle exec rs (l\<lparr>looping := True, quit := False\<rparr>) = Some l1 \<and> l' = l1\<lparr>looping := False\<rparr>)"
    by (auto simp: loop_def)
  moreover have "looping l \<longleftrightarrow> loop handle exec rs l = Inl (AssertionFailed ''!looping_'')"
    by (simp add: loop_def ensure_def)
  ultimately show ?thesis unfolding loop_while_rounds by blast
qed

theorem loop_until_quit_witness:
  "loop (\<lambda>_ _. id) (\<lambda>f. loop_calls (if f = (1 :: nat) then [CallQuit] else [CallQueue 1])) [(Timestamp 5, []), (Timestamp 6, [])]
     ((new_EventLoop False)\<lparr>pendingFunctors := [0]\<rparr>) =
   Inr (Some ((new_EventLoop False)\<lparr>quit := True, iteration := 2, pollReturnTime := Timestamp 6, wakeupCounter := 1\<rparr>))"
  (is "loop ?h ?e ?rs ?l = Inr (Some ?l')")
proof -
  let ?st = "?l\<lparr>looping := True, quit := False\<rparr>"
  have r: "?l' = (after_rounds ?h ?e ?rs 2 ?st)\<lparr>looping := False\<rparr>" "quit (after_rounds ?h ?e ?rs 2 ?st)"
    "\<not> quit (after_rounds ?h ?e ?rs 0 ?st)" "\<not> quit (after_rounds ?h ?e ?rs (Suc 0) ?st)"
    by code_simp+
  have le: "2 \<le> length ?rs" by simp
  have lt: "\<forall>m < 2. \<not> quit (after_rounds ?h ?e ?rs m ?st)" using r(3,4) less_2_cases by blast
  have "\<exists>n \<le> length ?rs. \<exists>l1. l1 = after_rounds ?h ?e ?rs n ?st \<and> quit l1 \<and> ?l' = l1\<lparr>looping := False\<rparr> \<and>
      (\<forall>m < n. \<not> quit (after_rounds ?h ?e ?rs m ?st))"
    by (intro exI [of _ 2] conjI exI [of _ "after_rounds ?h ?e ?rs 2 ?st"]) (rule le lt r refl)+
  moreover have "\<not> looping ?l" by (simp add: new_EventLoop_def)
  ultimately show ?thesis using loop_until_quit [of ?h ?e ?rs ?l ?l'] by blast
qed

subsection \<open>Concurrent threads\<close>

text \<open>The points of the loop's thread between which other threads can run. \<open>Running fs\<close> has the
  functors swapped out of the queue that are still to run, the first of them being run.\<close>

datatype 'f loop_pc = AtStart | AtCheck | Polling | Handling | Swapping | Running "'f list" | Finished

record 'f loop_world =
  core :: "'f EventLoop"
  pc :: "'f loop_pc"
  inflight :: nat
  pushed :: "'f list"
  executed :: "'f list"

text \<open>\<open>queueInLoop\<close> of another thread is two steps: the push under the mutex, and the wakeup;
  \<open>inflight\<close> counts the threads between the two. \<open>pushed\<close> and \<open>executed\<close> record the history.\<close>

definition queue_push :: "'f \<Rightarrow> 'f EventLoop \<Rightarrow> 'f EventLoop" where
  "queue_push cb l = l\<lparr>pendingFunctors := pendingFunctors l @ [cb]\<rparr>"

lemma queueInLoop_two_steps: "queueInLoop False cb l = wakeup (queue_push cb l)"
  by (simp add: queueInLoop_def queue_push_def)

inductive loop_step :: "'f loop_world \<Rightarrow> 'f loop_world \<Rightarrow> bool" where
  start: "pc w = AtStart \<Longrightarrow> \<not> looping (core w) \<Longrightarrow>
    loop_step w (w\<lparr>core := (core w)\<lparr>looping := True, quit := False\<rparr>, pc := AtCheck\<rparr>)"
| leave: "pc w = AtCheck \<Longrightarrow> quit (core w) \<Longrightarrow>
    loop_step w (w\<lparr>core := (core w)\<lparr>looping := False\<rparr>, pc := Finished\<rparr>)"
| poll: "pc w = AtCheck \<Longrightarrow> \<not> quit (core w) \<Longrightarrow> loop_step w (w\<lparr>pc := Polling\<rparr>)"
| polled: "pc w = Polling \<Longrightarrow>
    loop_step w (w\<lparr>core := (core w)\<lparr>activeChannels := as, pollReturnTime := t, iteration := iteration (core w) + 1,
                   loopEventHandling := True\<rparr>, pc := Handling\<rparr>)"
| woken: "pc w = Handling \<Longrightarrow> loop_step w (w\<lparr>core := loop_handleRead (core w)\<rparr>)"
| handler_queues: "pc w = Handling \<Longrightarrow>
    loop_step w (w\<lparr>core := queueInLoop True f (core w), pushed := pushed w @ [f]\<rparr>)"
| handler_quits: "pc w = Handling \<Longrightarrow> loop_step w (w\<lparr>core := loop_quit True (core w)\<rparr>)"
| handled: "pc w = Handling \<Longrightarrow>
    loop_step w (w\<lparr>core := (core w)\<lparr>loopEventHandling := False, callingPendingFunctors := True\<rparr>, pc := Swapping\<rparr>)"
| swap: "pc w = Swapping \<Longrightarrow>
    loop_step w (w\<lparr>core := (core w)\<lparr>pendingFunctors := []\<rparr>, pc := Running (pendingFunctors (core w))\<rparr>)"
| functor_queues: "pc w = Running (g # fs) \<Longrightarrow>
    loop_step w (w\<lparr>core := queueInLoop True f (core w), pushed := pushed w @ [f]\<rparr>)"
| functor_quits: "pc w = Running (g # fs) \<Longrightarrow> loop_step w (w\<lparr>core := loop_quit True (core w)\<rparr>)"
| functor_done: "pc w = Running (g # fs) \<Longrightarrow> loop_step w (w\<lparr>pc := Running fs, executed := executed w @ [g]\<rparr>)"
| functors_done: "pc w = Running [] \<Longrightarrow>
    loop_step w (w\<lparr>core := (core w)\<lparr>callingPendingFunctors := False\<rparr>, pc := AtCheck\<rparr>)"
| other_pushes: "loop_step w (w\<lparr>core := queue_push f (core w), pushed := pushed w @ [f], inflight := inflight w + 1\<rparr>)"
| other_quits: "loop_step w (w\<lparr>core := (core w)\<lparr>quit := True\<rparr>, inflight := inflight w + 1\<rparr>)"
| other_wakes: "0 < inflight w \<Longrightarrow> loop_step w (w\<lparr>core := wakeup (core w), inflight := inflight w - 1\<rparr>)"

definition new_world :: "bool \<Rightarrow> 'f loop_world" where
  "new_world garbage = \<lparr>core = new_EventLoop garbage, pc = AtStart, inflight = 0, pushed = [], executed = []\<rparr>"

inductive loop_reach :: "'f loop_world \<Rightarrow> bool" where
  init: "loop_reach (new_world garbage)"
| step: "loop_reach w \<Longrightarrow> loop_step w w' \<Longrightarrow> loop_reach w'"

fun running :: "'f loop_pc \<Rightarrow> 'f list" where
  "running (Running fs) = fs"
| "running _ = []"

fun may_sleep :: "'f loop_pc \<Rightarrow> bool" where
  "may_sleep Handling = False"
| "may_sleep Swapping = False"
| "may_sleep _ = True"

definition loop_inv :: "'f loop_world \<Rightarrow> bool" where
  "loop_inv w \<longleftrightarrow>
     pushed w = executed w @ running (pc w) @ pendingFunctors (core w) \<and>
     (may_sleep (pc w) \<and> pendingFunctors (core w) \<noteq> [] \<longrightarrow> 0 < wakeupCounter (core w) + inflight w) \<and>
     (pc w = Polling \<and> quit (core w) \<longrightarrow> 0 < wakeupCounter (core w) + inflight w) \<and>
     (pc w = Swapping \<or> (\<exists>fs. pc w = Running fs) \<longrightarrow> callingPendingFunctors (core w))"

lemma loop_inv_step: "loop_step w w' \<Longrightarrow> loop_inv w \<Longrightarrow> loop_inv w'"
  by (induction rule: loop_step.induct)
    (auto simp: loop_inv_def queueInLoop_def queue_push_def loop_quit_def wakeup_def loop_handleRead_def Let_def)

lemma loop_reach_inv: "loop_reach w \<Longrightarrow> loop_inv w"
  by (induction rule: loop_reach.induct)
    (auto simp: loop_inv_step, simp add: loop_inv_def new_world_def new_EventLoop_def)


text \<open>Every functor queued by any thread runs at most once and in the order of the queue: what has
  run, what is being run and what is pending is at every moment exactly what was queued.\<close>

lemma functors_in_order:
  assumes "loop_reach w"
  shows "pushed w = executed w @ running (pc w) @ pendingFunctors (core w)"
  using loop_reach_inv [OF assms] by (simp add: loop_inv_def)

definition world_woken :: "nat loop_world" where
  "world_woken = (let l = (new_EventLoop False)\<lparr>looping := True, quit := False\<rparr>
     in \<lparr>core = queue_push 3 l, pc = Polling, inflight = 1, pushed = [3], executed = []\<rparr>)"

lemma world_woken_reach: "loop_reach world_woken"
proof -
  let ?w0 = "new_world False :: nat loop_world"
  let ?w1 = "?w0\<lparr>core := (core ?w0)\<lparr>looping := True, quit := False\<rparr>, pc := AtCheck\<rparr>"
  let ?w2 = "?w1\<lparr>pc := Polling\<rparr>"
  have "loop_step ?w0 ?w1" by (rule loop_step.start) (simp_all add: new_world_def new_EventLoop_def)
  then have r1: "loop_reach ?w1" by (rule loop_reach.step [OF loop_reach.init])
  have "loop_step ?w1 ?w2" by (rule loop_step.poll) (simp_all add: new_world_def new_EventLoop_def)
  then have r2: "loop_reach ?w2" by (rule loop_reach.step [OF r1])
  have "loop_step ?w2 (?w2\<lparr>core := queue_push 3 (core ?w2), pushed := pushed ?w2 @ [3], inflight := inflight ?w2 + 1\<rparr>)"
    by (rule loop_step.other_pushes)
  then show ?thesis using loop_reach.step [OF r2]
    by (simp add: world_woken_def new_world_def)
qed


end
