(* ===== verification/TcpConnection.thy ===== *)
theory TcpConnection
  imports Buffer Channel
begin

section \<open>TCP connections (src/src/TcpConnection.h, src/src/TcpConnection.cpp)\<close>

text \<open>
  One connection: its state machine, both buffers, its channel, and the functions that the loop
  runs on it. \<open>wr\<close> answers the \<open>write(2)\<close> calls and \<open>rv\<close> the \<open>readv(2)\<close> calls, depending
  on the connection at that moment. What leaves the connection is recorded in order: \<open>wire\<close> has
  the bytes that the kernel took, \<open>effects\<close> the calls of user callbacks and what is handed to
  the loop. A user callback is an argument \<open>user\<close>; it may call back into the connection.
  All of it runs in the thread of the loop.
\<close>

datatype StateE = kDisconnected | kConnecting | kConnected | kDisconnecting

datatype effect =
    EConnectionCallback
  | EMessageCallback Timestamp
  | ECloseCallback
  | EQueueWriteComplete
  | EQueueHighWaterMark nat
  | EQueueForceClose
  | ERunAfterForceClose rat
  | EShutdownWrite
  | ERemoveChannel

datatype write_result = Wrote nat | WouldBlock | WriteReset | WriteError

record TcpConnection =
  conn_name :: string
  state :: StateE
  reading :: bool
  channel :: "unit Channel"
  writeCompleteCallback :: bool
  highWaterMarkCallback :: bool
  highWaterMark :: nat
  inputBuffer :: Buffer
  outputBuffer :: Buffer
  wire :: "byte list"
  effects :: "effect list"

definition new_TcpConnection :: "string \<Rightarrow> int \<Rightarrow> TcpConnection" where
  "new_TcpConnection nameArg sockfd =
     \<lparr>conn_name = nameArg, state = kConnecting, reading = True,
      channel = setErrorCallback () (setCloseCallback () (setWriteCallback () (setReadCallback () (new_Channel sockfd)))),
      writeCompleteCallback = False, highWaterMarkCallback = False, highWaterMark = 64 * 1024 * 1024,
      inputBuffer = fresh_buffer, outputBuffer = fresh_buffer, wire = [], effects = []\<rparr>"

definition emit :: "effect \<Rightarrow> TcpConnection \<Rightarrow> TcpConnection" where
  "emit e c = c\<lparr>effects := effects c @ [e]\<rparr>"

definition setState :: "StateE \<Rightarrow> TcpConnection \<Rightarrow> TcpConnection" where
  "setState st c = c\<lparr>state := st\<rparr>"

definition chan_op :: "channel_op \<Rightarrow> TcpConnection \<Rightarrow> TcpConnection" where
  "chan_op op c = c\<lparr>channel := (channel_apply op (channel c))\<lparr>addedToLoop := True\<rparr>\<rparr>"

fun stateToString :: "StateE \<Rightarrow> string" where
  "stateToString kDisconnected = ''kDisconnected''"
| "stateToString kConnecting = ''kConnecting''"
| "stateToString kConnected = ''kConnected''"
| "stateToString kDisconnecting = ''kDisconnecting''"

definition conn_connected :: "TcpConnection \<Rightarrow> bool" where "conn_connected c \<longleftrightarrow> state c = kConnected"
definition conn_disconnected :: "TcpConnection \<Rightarrow> bool" where "conn_disconnected c \<longleftrightarrow> state c = kDisconnected"

text \<open>Of a callback the model keeps whether one is set.\<close>

definition setWriteCompleteCallback :: "bool \<Rightarrow> TcpConnection \<Rightarrow> TcpConnection" where
  "setWriteCompleteCallback cb c = c\<lparr>writeCompleteCallback := cb\<rparr>"

definition setHighWaterMarkCallback :: "bool \<Rightarrow> nat \<Rightarrow> TcpConnection \<Rightarrow> TcpConnection" where
  "setHighWaterMarkCallback cb mark c = c\<lparr>highWaterMarkCallback := cb, highWaterMark := mark\<rparr>"

subsection \<open>Sending\<close>

text \<open>The direct write: what it leaves to do (\<open>nwrote\<close>, \<open>remaining\<close>, \<open>faultError\<close>). A
  result larger than the request makes \<open>remaining\<close> wrap around.\<close>

definition tryWrite ::
  "(TcpConnection \<Rightarrow> byte list \<Rightarrow> write_result) \<Rightarrow> TcpConnection \<Rightarrow> byte list \<Rightarrow> nat \<times> nat \<times> bool \<times> TcpConnection" where
  "tryWrite wr c data =
     (if \<not> isWriting (channel c) \<and> readableBytes (outputBuffer c) = 0
      then case wr c data of
             Wrote n \<Rightarrow>
               (let remaining = (if n \<le> length data then length data - n else 2 ^ 64 + length data - n);
                    c1 = c\<lparr>wire := wire c @ take n data\<rparr>;
                    c2 = (if remaining = 0 \<and> writeCompleteCallback c1 then emit EQueueWriteComplete c1 else c1)
                in (n, remaining, False, c2))
           | WouldBlock \<Rightarrow> (0, length data, False, c)
           | WriteReset \<Rightarrow> (0, length data, True, c)
           | WriteError \<Rightarrow> (0, length data, False, c)
      else (0, length data, False, c))"

definition sendInLoop ::
  "(TcpConnection \<Rightarrow> byte list \<Rightarrow> write_result) \<Rightarrow> TcpConnection \<Rightarrow> byte list \<Rightarrow> TcpConnection res" where
  "sendInLoop wr c data =
     (if state c = kDisconnected then Inr c
      else case tryWrite wr c data of (nwrote, remaining, faultError, c1) \<Rightarrow>
        ensure (remaining \<le> length data) ''remaining <= len''
        (if \<not> faultError \<and> remaining > 0
         then let oldLen = readableBytes (outputBuffer c1);
                  c2 = (if oldLen + remaining \<ge> highWaterMark c1 \<and> oldLen < highWaterMark c1 \<and> highWaterMarkCallback c1
                        then emit (EQueueHighWaterMark (oldLen + remaining)) c1 else c1)
              in rbind (append_data (outputBuffer c2) (drop nwrote data)) (\<lambda>b.
                   let c3 = c2\<lparr>outputBuffer := b\<rparr>
                   in Inr (if \<not> isWriting (channel c3) then chan_op EnableWriting c3 else c3))
         else Inr c1))"

definition send ::
  "(TcpConnection \<Rightarrow> byte list \<Rightarrow> write_result) \<Rightarrow> TcpConnection \<Rightarrow> byte list \<Rightarrow> TcpConnection res" where
  "send wr c message = (if state c = kConnected then sendInLoop wr c message else Inr c)"

definition send_buffer ::
  "(TcpConnection \<Rightarrow> byte list \<Rightarrow> write_result) \<Rightarrow> TcpConnection \<Rightarrow> Buffer \<Rightarrow> (TcpConnection \<times> Buffer) res" where
  "send_buffer wr c buf =
     (if state c = kConnected
      then rbind (sendInLoop wr c (subrange (buffer buf) (peek buf) (peek buf + readableBytes buf)))
                 (\<lambda>c'. Inr (c', retrieveAll buf))
      else Inr (c, buf))"

subsection \<open>Closing\<close>

definition shutdownInLoop :: "TcpConnection \<Rightarrow> TcpConnection" where
  "shutdownInLoop c = (if \<not> isWriting (channel c) then emit EShutdownWrite c else c)"

definition shutdown :: "TcpConnection \<Rightarrow> TcpConnection" where
  "shutdown c = (if state c = kConnected then shutdownInLoop (setState kDisconnecting c) else c)"

definition forceClose :: "TcpConnection \<Rightarrow> TcpConnection" where
  "forceClose c =
     (if state c = kConnected \<or> state c = kDisconnected
      then emit EQueueForceClose (setState kDisconnecting c) else c)"

definition forceCloseWithDelay :: "rat \<Rightarrow> TcpConnection \<Rightarrow> TcpConnection" where
  "forceCloseWithDelay seconds c =
     (if state c = kConnected \<or> state c = kDisconnecting
      then emit (ERunAfterForceClose seconds) (setState kDisconnecting c) else c)"

text \<open>\<open>WeakCallback\<close> (src/src/WeakCallback.h), the callback that the timer of \<open>forceCloseWithDelay\<close> runs:
  the target is an object of a heap, which may be freed before; then \<open>lock()\<close> gives a null pointer.\<close>

record 'o WeakCallback =
  wc_object :: nat
  wc_function :: "'o \<Rightarrow> 'o"

definition makeWeakCallback :: "nat \<Rightarrow> ('o \<Rightarrow> 'o) \<Rightarrow> 'o WeakCallback" where
  "makeWeakCallback object function = \<lparr>wc_object = object, wc_function = function\<rparr>"

definition weak_call :: "'o WeakCallback \<Rightarrow> (nat \<rightharpoonup> 'o) \<Rightarrow> (nat \<rightharpoonup> 'o)" where
  "weak_call cb objects =
     (case objects (wc_object cb) of
        Some ptr \<Rightarrow> objects(wc_object cb \<mapsto> wc_function cb ptr)
      | None \<Rightarrow> objects)"

definition handleClose :: "(effect \<Rightarrow> TcpConnection \<Rightarrow> TcpConnection res) \<Rightarrow> TcpConnection \<Rightarrow> TcpConnection res" where
  "handleClose user c =
     ensure (state c = kConnected \<or> state c = kDisconnecting) ''state_ == kConnected || state_ == kDisconnecting''
     (let c1 = chan_op DisableAll (setState kDisconnected c)
      in rbind (user EConnectionCallback (emit EConnectionCallback c1)) (\<lambda>c2.
         user ECloseCallback (emit ECloseCallback c2)))"

definition forceCloseInLoop :: "(effect \<Rightarrow> TcpConnection \<Rightarrow> TcpConnection res) \<Rightarrow> TcpConnection \<Rightarrow> TcpConnection res" where
  "forceCloseInLoop user c =
     (if state c = kConnected \<or> state c = kDisconnecting then handleClose user c else Inr c)"

subsection \<open>The life of a connection\<close>

definition startReadInLoop :: "TcpConnection \<Rightarrow> TcpConnection" where
  "startReadInLoop c =
     (if \<not> reading c \<or> \<not> isReading (channel c) then (chan_op EnableReading c)\<lparr>reading := True\<rparr> else c)"

definition startRead :: "TcpConnection \<Rightarrow> TcpConnection" where
  "startRead c = startReadInLoop c"

definition connectEstablished :: "(effect \<Rightarrow> TcpConnection \<Rightarrow> TcpConnection res) \<Rightarrow> TcpConnection \<Rightarrow> TcpConnection res" where
  "connectEstablished user c =
     ensure (state c = kConnecting) ''state_ == kConnecting''
     (let c1 = setState kConnected c;
          c2 = chan_op EnableReading (c1\<lparr>channel := channel_tie (channel c1)\<rparr>)
      in user EConnectionCallback (emit EConnectionCallback c2))"

definition connectDestroyed :: "(effect \<Rightarrow> TcpConnection \<Rightarrow> TcpConnection res) \<Rightarrow> TcpConnection \<Rightarrow> TcpConnection res" where
  "connectDestroyed user c =
     rbind (if state c = kConnected
            then user EConnectionCallback (emit EConnectionCallback (chan_op DisableAll (setState kDisconnected c)))
            else Inr c)
       (\<lambda>c1. ensure (isNoneEvent (channel c1)) ''isNoneEvent()''
              (Inr (emit ERemoveChannel (c1\<lparr>channel := (channel c1)\<lparr>addedToLoop := False\<rparr>\<rparr>))))"

definition handleRead ::
  "(effect \<Rightarrow> TcpConnection \<Rightarrow> TcpConnection res) \<Rightarrow> (TcpConnection \<Rightarrow> nat list \<Rightarrow> int + byte list) \<Rightarrow> Timestamp \<Rightarrow>
   TcpConnection \<Rightarrow> TcpConnection res" where
  "handleRead user rv receiveTime c =
     rbind (readFd (rv c) (inputBuffer c) 0) (\<lambda>(n, saveErrno, b).
       let c1 = c\<lparr>inputBuffer := b\<rparr>
       in if n > 0 then user (EMessageCallback receiveTime) (emit (EMessageCallback receiveTime) c1)
          else if n = 0 then handleClose user c1
          else Inr c1)"

definition handleWrite ::
  "(TcpConnection \<Rightarrow> byte list \<Rightarrow> write_result) \<Rightarrow> TcpConnection \<Rightarrow> TcpConnection res" where
  "handleWrite wr c =
     (if isWriting (channel c)
      then let data = subrange (buffer (outputBuffer c)) (peek (outputBuffer c)) (peek (outputBuffer c) + readableBytes (outputBuffer c))
           in case wr c data of
                Wrote n \<Rightarrow>
                  if n > 0
                  then rbind (retrieve (outputBuffer c) 0) (\<lambda>b.
                    let c1 = c\<lparr>outputBuffer := b, wire := wire c @ take n data\<rparr>
                    in if readableBytes (outputBuffer c1) = 0
                       then let c2 = chan_op DisableWriting c1;
                                c3 = (if writeCompleteCallback c2 then emit EQueueWriteComplete c2 else c2)
                            in Inr (if state c3 = kDisconnecting then shutdownInLoop c3 else c3)
                       else Inr c1)
                  else Inr c
              | _ \<Rightarrow> Inr c
      else Inr c)"

definition delete_TcpConnection :: "TcpConnection \<Rightarrow> unit res" where
  "delete_TcpConnection c = ensure (state c = kDisconnected) ''state_ == kDisconnected'' (Inr ())"

definition defaultMessageCallback :: "Buffer \<Rightarrow> Buffer" where
  "defaultMessageCallback buf = retrieveAll buf"

subsection \<open>Sending keeps the order of the bytes\<close>

definition write_ok :: "(TcpConnection \<Rightarrow> byte list \<Rightarrow> write_result) \<Rightarrow> bool" where
  "write_ok wr \<longleftrightarrow> (\<forall>c data n. wr c data = Wrote n \<longrightarrow> n \<le> length data)"

definition buffers_ok :: "TcpConnection \<Rightarrow> bool" where
  "buffers_ok c \<longleftrightarrow> buffer_wf (inputBuffer c) \<and> buffer_wf (outputBuffer c)"

text \<open>The bytes of the stream: those the kernel took, then those still buffered.\<close>

definition stream :: "TcpConnection \<Rightarrow> byte list" where
  "stream c = wire c @ content (outputBuffer c)"

definition direct :: "TcpConnection \<Rightarrow> bool" where
  "direct c \<longleftrightarrow> \<not> isWriting (channel c) \<and> readableBytes (outputBuffer c) = 0"

lemma content_empty_iff: "buffer_wf b \<Longrightarrow> content b = [] \<longleftrightarrow> readableBytes b = 0"
  using length_content by force

lemma emit_simps [simp]:
  "state (emit e c) = state c" "channel (emit e c) = channel c" "outputBuffer (emit e c) = outputBuffer c"
  "inputBuffer (emit e c) = inputBuffer c" "wire (emit e c) = wire c" "effects (emit e c) = effects c @ [e]"
  "writeCompleteCallback (emit e c) = writeCompleteCallback c" "reading (emit e c) = reading c"
  "highWaterMark (emit e c) = highWaterMark c" "highWaterMarkCallback (emit e c) = highWaterMarkCallback c"
  by (simp_all add: emit_def)

lemma chan_op_simps [simp]:
  "state (chan_op op c) = state c" "outputBuffer (chan_op op c) = outputBuffer c"
  "inputBuffer (chan_op op c) = inputBuffer c" "wire (chan_op op c) = wire c" "effects (chan_op op c) = effects c"
  "writeCompleteCallback (chan_op op c) = writeCompleteCallback c"
  "events (channel (chan_op op c)) = new_events op (events (channel c))"
  by (simp_all add: chan_op_def channel_apply_def)

lemma setState_simps [simp]:
  "state (setState st c) = st" "channel (setState st c) = channel c" "outputBuffer (setState st c) = outputBuffer c"
  "inputBuffer (setState st c) = inputBuffer c" "wire (setState st c) = wire c" "effects (setState st c) = effects c"
  "writeCompleteCallback (setState st c) = writeCompleteCallback c"
  by (simp_all add: setState_def)

lemma isWriting_chan_op:
  "isWriting (channel (chan_op EnableWriting c))" "\<not> isWriting (channel (chan_op DisableAll c))"
  "\<not> isReading (channel (chan_op DisableAll c))" "isNoneEvent (channel (chan_op DisableAll c))"
  by (simp_all add: isWriting_bit isReading_bits isNoneEvent_def kWriteEvent_def kNoneEvent_def bit_or_iff bit_poll)

text \<open>Effects that a send can have besides the bytes.\<close>

fun send_effect :: "effect \<Rightarrow> bool" where
  "send_effect EQueueWriteComplete = True"
| "send_effect (EQueueHighWaterMark _) = True"
| "send_effect _ = False"

text \<open>\<open>startRead\<close> leaves a connection that reads, and does nothing a second time. It does not look at the
  state: on a connection that is closed it switches the channel on again, and destroying the connection
  then fails the assertion of \<open>Channel::remove\<close>.\<close>

lemma startRead_reads:
  "reading (startRead c)" "isReading (channel (startRead c))" "startRead (startRead c) = startRead c"
proof -
  have en: "isReading (channel (chan_op EnableReading c))"
    using channel_interest [of EnableReading "channel c"] by (simp add: chan_op_def isReading_def)
  then show "reading (startRead c)" "isReading (channel (startRead c))" by (auto simp: startRead_def startReadInLoop_def)
  then show "startRead (startRead c) = startRead c" by (simp add: startRead_def startReadInLoop_def)
qed

lemma startRead_after_close:
  assumes "handleClose user c = Inr c1" "state c1 = kDisconnected"
  shows "connectDestroyed user (startRead c1) = Inl (AssertionFailed ''isNoneEvent()'')"
proof -
  have "\<not> isNoneEvent (channel (startRead c1))"
    using startRead_reads(2) [of c1] by (auto simp: isNoneEvent_def isReading_def kNoneEvent_def)
  moreover have "state (startRead c1) = kDisconnected"
    using assms(2) by (simp add: startRead_def startReadInLoop_def chan_op_def)
  ultimately show ?thesis by (simp add: connectDestroyed_def ensure_def rbind_def)
qed

lemma tryWrite_ok:
  assumes "buffers_ok c" "write_ok wr" "tryWrite wr c data = (nwrote, remaining, faultError, c1)"
  shows "nwrote \<le> length data" "remaining = length data - nwrote"
    "faultError \<longleftrightarrow> direct c \<and> wr c data = WriteReset"
    "wire c1 = wire c @ take nwrote data" "\<not> direct c \<Longrightarrow> nwrote = 0"
    "c1 = c\<lparr>wire := wire c1, effects := effects c1\<rparr>"
    "effects c1 = effects c @ (if remaining = 0 \<and> direct c \<and> (\<exists>n. wr c data = Wrote n) \<and> writeCompleteCallback c
       then [EQueueWriteComplete] else [])"
  using assms by (auto simp: tryWrite_def direct_def write_ok_def emit_def Let_def split: write_result.splits if_splits)

lemma sendInLoop_ok:
  assumes b: "buffers_ok c" and w: "write_ok wr"
  shows "\<exists>c' es. sendInLoop wr c data = Inr c' \<and> buffers_ok c' \<and> state c' = state c \<and>
    effects c' = effects c @ es \<and> (\<forall>e \<in> set es. send_effect e) \<and>
    inputBuffer c' = inputBuffer c \<and> writeCompleteCallback c' = writeCompleteCallback c \<and>
    (state c = kDisconnected \<longrightarrow> c' = c) \<and>
    (state c \<noteq> kDisconnected \<and> \<not> (direct c \<and> wr c data = WriteReset) \<longrightarrow>
       stream c' = stream c @ data \<and>
       (content (outputBuffer c') = [] \<or> isWriting (channel c') \<or> data = []))"
proof (cases "state c = kDisconnected")
  case True
  then show ?thesis using b by (simp add: sendInLoop_def)
next
  case False
  obtain nwrote remaining faultError c1 where t: "tryWrite wr c data = (nwrote, remaining, faultError, c1)"
    by (metis prod_cases4)
  note tw = tryWrite_ok [OF b w t]
  have same: "state c1 = state c" "outputBuffer c1 = outputBuffer c" "inputBuffer c1 = inputBuffer c"
    "channel c1 = channel c" "writeCompleteCallback c1 = writeCompleteCallback c"
    by (subst tw(6), simp)+
  have es1: "\<exists>es1. effects c1 = effects c @ es1 \<and> (\<forall>e \<in> set es1. send_effect e)"
    using tw(7) by auto
  have empty: "content (outputBuffer c) = []" if "direct c"
    using that b content_empty_iff by (auto simp: direct_def buffers_ok_def)
  show ?thesis
  proof (cases "\<not> faultError \<and> remaining > 0")
    case True
    define c2 where "c2 = (if readableBytes (outputBuffer c1) + remaining \<ge> highWaterMark c1 \<and>
        readableBytes (outputBuffer c1) < highWaterMark c1 \<and> highWaterMarkCallback c1
      then emit (EQueueHighWaterMark (readableBytes (outputBuffer c1) + remaining)) c1 else c1)"
    have c2: "state c2 = state c" "outputBuffer c2 = outputBuffer c" "inputBuffer c2 = inputBuffer c"
      "channel c2 = channel c" "writeCompleteCallback c2 = writeCompleteCallback c" "wire c2 = wire c1"
      "\<exists>es. effects c2 = effects c @ es \<and> (\<forall>e \<in> set es. send_effect e)"
      using same es1 by (auto simp: c2_def)
    obtain bf where bf: "append_data (outputBuffer c) (drop nwrote data) = Inr bf" "buffer_wf bf"
      "content bf = content (outputBuffer c) @ drop nwrote data"
      using append_data_ok b by (auto simp: buffers_ok_def)
    let ?c3 = "c2\<lparr>outputBuffer := bf\<rparr>"
    define c' where "c' = (if \<not> isWriting (channel ?c3) then chan_op EnableWriting ?c3 else ?c3)"
    have c': "state c' = state c" "outputBuffer c' = bf" "inputBuffer c' = inputBuffer c"
      "writeCompleteCallback c' = writeCompleteCallback c" "wire c' = wire c1" "effects c' = effects c2"
      "isWriting (channel c')"
      using c2 isWriting_chan_op(1) by (auto simp: c'_def)
    have res: "sendInLoop wr c data = Inr c'"
      using False t True bf(1) tw(1,2) same by (simp add: sendInLoop_def Let_def c'_def c2_def)
    have "stream c' = stream c @ data"
      using bf(3) tw(4,5) empty c'(2,5) by (cases "direct c") (auto simp: stream_def)
    then show ?thesis using res bf(2) b c' c2(7) False by (auto simp: buffers_ok_def)
  next
    case stop: False
    then have res: "sendInLoop wr c data = Inr c1" using False t tw(1,2) by (auto simp: sendInLoop_def)
    have "stream c1 = stream c @ data" if "\<not> (direct c \<and> wr c data = WriteReset)"
    proof -
      have "nwrote = length data" using stop that tw(1,2,3) by auto
      then show ?thesis using tw(4,5) empty same by (cases "direct c") (auto simp: stream_def)
    qed
    moreover have "content (outputBuffer c1) = [] \<or> data = []" if "\<not> (direct c \<and> wr c data = WriteReset)"
      using stop that tw(1,2,3,5) empty same by auto
    ultimately show ?thesis using res es1 b same False by (auto simp: buffers_ok_def)
  qed
qed

subsection \<open>User code\<close>

text \<open>The calls that user code, in a callback or outside, makes on the connection.\<close>

datatype ucall = USend "byte list" | UShutdown | UForceClose | URetrieve nat

fun user_calls ::
  "(TcpConnection \<Rightarrow> byte list \<Rightarrow> write_result) \<Rightarrow> ucall list \<Rightarrow> TcpConnection \<Rightarrow> TcpConnection res" where
  "user_calls wr [] c = Inr c"
| "user_calls wr (USend d # cs) c = rbind (send wr c d) (user_calls wr cs)"
| "user_calls wr (UShutdown # cs) c = user_calls wr cs (shutdown c)"
| "user_calls wr (UForceClose # cs) c = user_calls wr cs (forceClose c)"
| "user_calls wr (URetrieve n # cs) c =
     rbind (retrieve (inputBuffer c) (min n (readableBytes (inputBuffer c))))
           (\<lambda>b. user_calls wr cs (c\<lparr>inputBuffer := b\<rparr>))"

definition user_of ::
  "(TcpConnection \<Rightarrow> byte list \<Rightarrow> write_result) \<Rightarrow> (effect \<Rightarrow> TcpConnection \<Rightarrow> ucall list) \<Rightarrow> effect \<Rightarrow>
   TcpConnection \<Rightarrow> TcpConnection res" where
  "user_of wr script e c = user_calls wr (script e c) c"

text \<open>User code that does not force a connection closed that is closed already.\<close>

definition polite :: "(effect \<Rightarrow> TcpConnection \<Rightarrow> ucall list) \<Rightarrow> bool" where
  "polite script \<longleftrightarrow> (\<forall>e c. state c = kDisconnected \<longrightarrow> UForceClose \<notin> set (script e c))"

abbreviation callbacks :: "effect \<Rightarrow> TcpConnection \<Rightarrow> nat" where
  "callbacks e c \<equiv> count_list (effects c) e"

definition user_keeps :: "TcpConnection \<Rightarrow> TcpConnection \<Rightarrow> bool" where
  "user_keeps c c' \<longleftrightarrow>
     buffers_ok c' \<and> callbacks EConnectionCallback c' = callbacks EConnectionCallback c \<and>
     callbacks ECloseCallback c' = callbacks ECloseCallback c \<and>
     (state c' = state c \<or> state c = kConnected \<and> state c' = kDisconnecting) \<and>
     (state c = kDisconnected \<longrightarrow> channel c' = channel c)"

lemma user_keeps_refl: "buffers_ok c \<Longrightarrow> user_keeps c c"
  by (simp add: user_keeps_def)

lemma user_keeps_trans: "user_keeps c1 c2 \<Longrightarrow> user_keeps c2 c3 \<Longrightarrow> user_keeps c1 c3"
  by (auto simp: user_keeps_def)

lemma count_send_effects: "\<forall>e \<in> set es. send_effect e \<Longrightarrow> \<not> send_effect x \<Longrightarrow> count_list es x = 0"
  by (auto simp: count_list_0_iff)

lemma send_keeps:
  assumes "buffers_ok c" "write_ok wr"
  shows "\<exists>c'. send wr c d = Inr c' \<and> user_keeps c c'"
proof (cases "state c = kConnected")
  case True
  obtain c' es where "sendInLoop wr c d = Inr c'" "buffers_ok c'" "state c' = state c"
    "effects c' = effects c @ es" "\<forall>e \<in> set es. send_effect e"
    using sendInLoop_ok [OF assms] by metis
  then show ?thesis using True count_send_effects [of es] by (auto simp: send_def user_keeps_def)
next
  case False
  then show ?thesis using user_keeps_refl [OF assms(1)] by (simp add: send_def)
qed

lemma shutdown_keeps: "buffers_ok c \<Longrightarrow> user_keeps c (shutdown c)"
  by (auto simp: shutdown_def shutdownInLoop_def user_keeps_def buffers_ok_def)

lemma forceClose_keeps: "buffers_ok c \<Longrightarrow> state c \<noteq> kDisconnected \<Longrightarrow> user_keeps c (forceClose c)"
  by (auto simp: forceClose_def user_keeps_def buffers_ok_def)

lemma retrieve_keeps:
  assumes "buffers_ok c"
  shows "\<exists>b. retrieve (inputBuffer c) (min n (readableBytes (inputBuffer c))) = Inr b \<and>
    user_keeps c (c\<lparr>inputBuffer := b\<rparr>)"
  using retrieve_ok [of "inputBuffer c" "min n (readableBytes (inputBuffer c))"] assms
  by (auto simp: user_keeps_def buffers_ok_def)

lemma user_calls_ok:
  assumes "buffers_ok c" "write_ok wr" "state c = kDisconnected \<longrightarrow> UForceClose \<notin> set cs"
  shows "\<exists>c'. user_calls wr cs c = Inr c' \<and> user_keeps c c'"
  using assms(1,3)
proof (induction cs arbitrary: c)
  case Nil
  then show ?case by (simp add: user_keeps_refl)
next
  case (Cons u cs)
  have "\<exists>c1. user_calls wr (u # cs) c = user_calls wr cs c1 \<and> user_keeps c c1"
  proof (cases u)
    case (USend d)
    then show ?thesis using send_keeps [OF Cons.prems(1) assms(2), of d] by auto
  next
    case UShutdown
    then show ?thesis using shutdown_keeps [OF Cons.prems(1)] by auto
  next
    case UForceClose
    then show ?thesis using forceClose_keeps [OF Cons.prems(1)] Cons.prems(2) by auto
  next
    case (URetrieve n)
    then show ?thesis using retrieve_keeps [OF Cons.prems(1), of n] by auto
  qed
  then obtain c1 where c1: "user_calls wr (u # cs) c = user_calls wr cs c1" "user_keeps c c1" by blast
  have "buffers_ok c1" "state c1 = kDisconnected \<longrightarrow> UForceClose \<notin> set cs"
    using c1(2) Cons.prems(2) by (auto simp: user_keeps_def)
  then obtain c' where "user_calls wr cs c1 = Inr c'" "user_keeps c1 c'" using Cons.IH by blast
  then show ?case using c1 user_keeps_trans by auto
qed

lemma user_of_ok:
  assumes "buffers_ok c" "write_ok wr" "polite script"
  shows "\<exists>c'. user_of wr script e c = Inr c' \<and> user_keeps c c'"
  unfolding user_of_def using assms by (intro user_calls_ok) (auto simp: polite_def)

subsection \<open>The life of a connection\<close>

fun life_callbacks :: "StateE \<Rightarrow> nat" where
  "life_callbacks kConnecting = 0"
| "life_callbacks kConnected = 1"
| "life_callbacks kDisconnecting = 1"
| "life_callbacks kDisconnected = 2"

definition conn_inv :: "TcpConnection \<Rightarrow> bool" where
  "conn_inv c \<longleftrightarrow>
     buffers_ok c \<and> callbacks EConnectionCallback c = life_callbacks (state c) \<and>
     callbacks ECloseCallback c \<le> (if state c = kDisconnected then 1 else 0) \<and>
     (state c = kDisconnected \<or> state c = kConnecting \<longrightarrow> isNoneEvent (channel c))"

lemma conn_inv_user: "conn_inv c \<Longrightarrow> user_keeps c c' \<Longrightarrow> state c \<noteq> kConnecting \<Longrightarrow> conn_inv c'"
  by (auto simp: conn_inv_def user_keeps_def)

lemma handleClose_ok:
  assumes i: "conn_inv c" and w: "write_ok wr" and p: "polite script"
    and st: "state c = kConnected \<or> state c = kDisconnecting"
  shows "\<exists>c'. handleClose (user_of wr script) c = Inr c' \<and> conn_inv c' \<and> state c' = kDisconnected"
proof -
  let ?c1 = "emit EConnectionCallback (chan_op DisableAll (setState kDisconnected c))"
  have b1: "buffers_ok ?c1" using i by (simp add: conn_inv_def buffers_ok_def)
  obtain c2 where c2: "user_of wr script EConnectionCallback ?c1 = Inr c2" "user_keeps ?c1 c2"
    using user_of_ok [OF b1 w p] by blast
  have b2: "buffers_ok (emit ECloseCallback c2)" using c2(2) by (simp add: user_keeps_def buffers_ok_def)
  obtain c3 where c3: "user_of wr script ECloseCallback (emit ECloseCallback c2) = Inr c3"
    "user_keeps (emit ECloseCallback c2) c3"
    using user_of_ok [OF b2 w p] by blast
  have "conn_inv c3 \<and> state c3 = kDisconnected"
    using i st c2(2) c3(2) isWriting_chan_op(4)
    by (auto simp: conn_inv_def user_keeps_def)
  then show ?thesis using c2(1) c3(1) st by (simp add: handleClose_def Let_def ensure_holds)
qed

lemma handleRead_ok:
  assumes i: "conn_inv c" and w: "write_ok wr" and p: "polite script"
    and st: "state c = kConnected \<or> state c = kDisconnecting"
  shows "\<exists>c'. handleRead (user_of wr script) rv t c = Inr c' \<and> conn_inv c'"
proof (cases "rv c (readFd_iov (inputBuffer c))")
  case (Inl e)
  then show ?thesis using readFd_error [of "rv c" "inputBuffer c" e 0] i
    by (auto simp: handleRead_def conn_inv_def buffers_ok_def)
next
  case (Inr data)
  then obtain b where b: "readFd (rv c) (inputBuffer c) 0 = Inr (int (length data), 0, b)" "buffer_wf b"
    using readFd_data [of "inputBuffer c" "rv c" data 0] i by (auto simp: conn_inv_def buffers_ok_def)
  let ?c1 = "c\<lparr>inputBuffer := b\<rparr>"
  have i1: "conn_inv ?c1" using i b(2) by (simp add: conn_inv_def buffers_ok_def)
  show ?thesis
  proof (cases "data = []")
    case True
    then show ?thesis using handleClose_ok [OF i1 w p] st b(1) by (auto simp: handleRead_def)
  next
    case False
    let ?c2 = "emit (EMessageCallback t) ?c1"
    have i2: "conn_inv ?c2" using i1 by (simp add: conn_inv_def buffers_ok_def)
    then obtain c' where "user_of wr script (EMessageCallback t) ?c2 = Inr c'" "user_keeps ?c2 c'"
      using user_of_ok [OF _ w p] by (auto simp: conn_inv_def)
    then show ?thesis using conn_inv_user [OF i2] st b(1) False by (auto simp: handleRead_def)
  qed
qed

lemma handleWrite_content:
  assumes b: "buffers_ok c" and n: "content (outputBuffer c) \<noteq> []" and w: "isWriting (channel c)"
  shows "handleWrite wr c =
    Inr (case wr c (content (outputBuffer c)) of
           Wrote k \<Rightarrow> c\<lparr>wire := wire c @ take k (content (outputBuffer c))\<rparr> | _ \<Rightarrow> c)"
proof -
  have r: "0 < readableBytes (outputBuffer c)" using b n content_empty_iff by (auto simp: buffers_ok_def)
  have d: "subrange (buffer (outputBuffer c)) (peek (outputBuffer c))
      (peek (outputBuffer c) + readableBytes (outputBuffer c)) = content (outputBuffer c)"
    using b content_prefix [of "outputBuffer c" "readableBytes (outputBuffer c)"] length_content
    by (auto simp: buffers_ok_def)
  show ?thesis using w r retrieve_0 [OF r] unfolding handleWrite_def d Let_def
    by (auto split: write_result.split)
qed

lemma conn_inv_quiet:
  assumes "conn_inv c" "state c = kConnected \<or> state c = kDisconnecting"
  shows "buffer_wf b \<Longrightarrow> conn_inv (c\<lparr>outputBuffer := b\<rparr>)" "conn_inv (chan_op op c)"
    "conn_inv (emit EQueueWriteComplete c)" "conn_inv (shutdownInLoop c)"
  using assms by (auto simp: conn_inv_def buffers_ok_def shutdownInLoop_def)

lemma handleWrite_ok:
  assumes i: "conn_inv c" and st: "state c = kConnected \<or> state c = kDisconnecting"
  shows "\<exists>c'. handleWrite wr c = Inr c' \<and> conn_inv c'"
proof (cases "isWriting (channel c)")
  case True
  show ?thesis
  proof (cases "content (outputBuffer c) = []")
    case False
    then show ?thesis using handleWrite_content [OF _ False True] i
      by (auto simp: conn_inv_def buffers_ok_def split: write_result.split)
  next
    case empty: True
    have b: "buffer_wf (outputBuffer c)" "buffers_ok c" using i by (simp_all add: conn_inv_def buffers_ok_def)
    then have r: "readableBytes (outputBuffer c) = 0" using empty content_empty_iff by blast
    then have "retrieve (outputBuffer c) 0 = Inr (retrieveAll (outputBuffer c))"
      by (simp add: retrieve_def)
    moreover have "readableBytes (retrieveAll (outputBuffer c)) = 0"
      by (simp add: retrieveAll_def readableBytes_def)
    ultimately show ?thesis using i st True retrieveAll_wf [OF b(1)]
      by (cases "wr c []") (auto simp: handleWrite_def r Let_def intro!: conn_inv_quiet)
  qed
next
  case False
  then show ?thesis using i by (simp add: handleWrite_def)
qed

lemma connectEstablished_ok:
  assumes i: "conn_inv c" and w: "write_ok wr" and p: "polite script" and st: "state c = kConnecting"
  shows "\<exists>c'. connectEstablished (user_of wr script) c = Inr c' \<and> conn_inv c'"
proof -
  let ?c2 = "chan_op EnableReading ((setState kConnected c)\<lparr>channel := channel_tie (channel c)\<rparr>)"
  let ?c3 = "emit EConnectionCallback ?c2"
  have i3: "conn_inv ?c3" using i st by (simp add: conn_inv_def buffers_ok_def)
  then obtain c' where "user_of wr script EConnectionCallback ?c3 = Inr c'" "user_keeps ?c3 c'"
    using user_of_ok [OF _ w p] by (auto simp: conn_inv_def)
  then show ?thesis using conn_inv_user [OF i3] st
    by (auto simp: connectEstablished_def Let_def)
qed

lemma connectDestroyed_ok:
  assumes i: "conn_inv c" and w: "write_ok wr" and p: "polite script"
    and st: "state c = kConnected \<or> state c = kDisconnected"
  shows "\<exists>c'. connectDestroyed (user_of wr script) c = Inr c' \<and> conn_inv c' \<and> state c' = kDisconnected"
proof -
  let ?c1 = "emit EConnectionCallback (chan_op DisableAll (setState kDisconnected c))"
  have "\<exists>c1. (if state c = kConnected then user_of wr script EConnectionCallback ?c1 else Inr c) = Inr c1 \<and>
      conn_inv c1 \<and> state c1 = kDisconnected"
  proof (cases "state c = kConnected")
    case True
    have i1: "conn_inv ?c1" using i True isWriting_chan_op(4) by (simp add: conn_inv_def buffers_ok_def)
    then obtain c1 where c1: "user_of wr script EConnectionCallback ?c1 = Inr c1" "user_keeps ?c1 c1"
      using user_of_ok [OF _ w p] by (auto simp: conn_inv_def)
    then have "conn_inv c1" "state c1 = kDisconnected" using conn_inv_user [OF i1] by (auto simp: user_keeps_def)
    then show ?thesis using c1(1) True by simp
  next
    case False
    then show ?thesis using i st by simp
  qed
  then obtain c1 where "(if state c = kConnected then user_of wr script EConnectionCallback ?c1 else Inr c) = Inr c1"
      "conn_inv c1" "state c1 = kDisconnected" by blast
  then show ?thesis
    unfolding connectDestroyed_def by (auto simp: conn_inv_def buffers_ok_def isNoneEvent_def ensure_def)
qed

text \<open>Everything that can happen to a connection in the thread of its loop, whose owner destroys
  it when it is established or closed: the events of its channel arrive while the channel wants
  any, a forced close arrives after it was queued.\<close>

inductive conn_step ::
  "(TcpConnection \<Rightarrow> byte list \<Rightarrow> write_result) \<Rightarrow> (effect \<Rightarrow> TcpConnection \<Rightarrow> ucall list) \<Rightarrow>
   TcpConnection \<Rightarrow> TcpConnection res \<Rightarrow> bool" for wr script where
  establish: "state c = kConnecting \<Longrightarrow> conn_step wr script c (connectEstablished (user_of wr script) c)"
| call: "state c \<noteq> kConnecting \<Longrightarrow> (state c = kDisconnected \<longrightarrow> UForceClose \<notin> set us) \<Longrightarrow>
    conn_step wr script c (user_calls wr us c)"
| readable: "\<not> isNoneEvent (channel c) \<Longrightarrow> conn_step wr script c (handleRead (user_of wr script) rv t c)"
| writable: "\<not> isNoneEvent (channel c) \<Longrightarrow> conn_step wr script c (handleWrite wr c)"
| hangup: "\<not> isNoneEvent (channel c) \<Longrightarrow> conn_step wr script c (handleClose (user_of wr script) c)"
| forced: "EQueueForceClose \<in> set (effects c) \<Longrightarrow> conn_step wr script c (forceCloseInLoop (user_of wr script) c)"
| destroy: "state c = kConnected \<or> state c = kDisconnected \<Longrightarrow>
    conn_step wr script c (connectDestroyed (user_of wr script) c)"

inductive conn_reach ::
  "(TcpConnection \<Rightarrow> byte list \<Rightarrow> write_result) \<Rightarrow> (effect \<Rightarrow> TcpConnection \<Rightarrow> ucall list) \<Rightarrow>
   TcpConnection \<Rightarrow> bool" for wr script where
  new: "conn_reach wr script (new_TcpConnection nm f)"
| step: "conn_reach wr script c \<Longrightarrow> conn_step wr script c (Inr c') \<Longrightarrow> conn_reach wr script c'"

lemma conn_inv_active: "conn_inv c \<Longrightarrow> \<not> isNoneEvent (channel c) \<Longrightarrow> state c = kConnected \<or> state c = kDisconnecting"
  by (cases "state c") (auto simp: conn_inv_def)

lemma conn_step_ok:
  assumes "conn_step wr script c r" "conn_inv c" "write_ok wr" "polite script"
  shows "\<exists>c'. r = Inr c' \<and> conn_inv c'"
  using assms(1)
proof cases
  case establish
  then show ?thesis using connectEstablished_ok [OF assms(2-4)] by blast
next
  case (call us)
  have "buffers_ok c" using assms(2) by (simp add: conn_inv_def)
  then show ?thesis using user_calls_ok [OF _ assms(3), of c us] conn_inv_user [OF assms(2)] call by blast
next
  case (readable rv t)
  then show ?thesis using handleRead_ok [OF assms(2-4) conn_inv_active [OF assms(2)]] by blast
next
  case writable
  then show ?thesis using handleWrite_ok [OF assms(2) conn_inv_active [OF assms(2)]] by blast
next
  case hangup
  then show ?thesis using handleClose_ok [OF assms(2-4) conn_inv_active [OF assms(2)]] by blast
next
  case forced
  then show ?thesis using handleClose_ok [OF assms(2-4)] assms(2) by (auto simp: forceCloseInLoop_def)
next
  case destroy
  then show ?thesis using connectDestroyed_ok [OF assms(2-4)] by blast
qed

lemma conn_reach_inv:
  assumes "conn_reach wr script c" "write_ok wr" "polite script"
  shows "conn_inv c"
  using assms(1)
proof (induction rule: conn_reach.induct)
  case (new nm f)
  then show ?case
    by (simp add: conn_inv_def new_TcpConnection_def buffers_ok_def isNoneEvent_def kNoneEvent_def new_Channel_def
        setReadCallback_def setWriteCallback_def setCloseCallback_def setErrorCallback_def)
next
  case (step c c')
  then show ?case using conn_step_ok [OF step.hyps(2) step.IH assms(2,3)] by auto
qed

subsection \<open>Properties\<close>


definition wr_none :: "TcpConnection \<Rightarrow> byte list \<Rightarrow> write_result" where
  "wr_none c data = WouldBlock"


text \<open>C6: sendInLoop keeps the byte stream: what the kernel took followed by what is buffered grows by
  exactly the data sent, in order, whatever part the kernel takes, and what stays buffered is being
  watched for writability; only a reset connection drops the data, and a closed one ignores it.\<close>

theorem sendInLoop_stream:
  assumes "buffers_ok c" "write_ok wr"
  shows "\<exists>c'. sendInLoop wr c data = Inr c' \<and>
    (state c = kDisconnected \<longrightarrow> c' = c) \<and>
    (state c \<noteq> kDisconnected \<and> \<not> (direct c \<and> wr c data = WriteReset) \<longrightarrow>
       wire c' @ content (outputBuffer c') = wire c @ content (outputBuffer c) @ data \<and>
       (content (outputBuffer c') = [] \<or> isWriting (channel c') \<or> data = []))"
  using sendInLoop_ok [OF assms, of data] unfolding stream_def append_assoc by blast

lemma buffers_ok_new: "buffers_ok (new_TcpConnection nm f)"
  by (simp add: buffers_ok_def new_TcpConnection_def)

theorem sendInLoop_stream_witness:
  "\<exists>c'. sendInLoop (\<lambda>_ _. Wrote 2) ((new_TcpConnection ''c'' 5)\<lparr>wire := ''ab''\<rparr>) ''hello'' = Inr c' \<and>
     wire c' @ content (outputBuffer c') = ''abhello''" (is "\<exists>c'. sendInLoop ?wr ?c _ = _ \<and> _")
proof -
  let ?w = "\<lambda>_ d. Wrote (min 2 (length d))"
  have "buffers_ok ?c" using buffers_ok_new by (simp add: buffers_ok_def)
  moreover have "write_ok ?w" by (simp add: write_ok_def)
  moreover have "sendInLoop ?wr ?c ''hello'' = sendInLoop ?w ?c ''hello''"
    by (simp add: sendInLoop_def tryWrite_def)
  ultimately show ?thesis using sendInLoop_stream [of ?c ?w "''hello''"]
    by (auto simp: new_TcpConnection_def)
qed

fun handleWrites :: "(TcpConnection \<Rightarrow> byte list \<Rightarrow> write_result) \<Rightarrow> nat \<Rightarrow> TcpConnection \<Rightarrow> TcpConnection res" where
  "handleWrites wr 0 c = Inr c"
| "handleWrites wr (Suc k) c = rbind (handleWrite wr c) (handleWrites wr k)"

text \<open>C37: handleWrite never takes the bytes it wrote out of the buffer: after any number of writable
  events a connection with buffered output still has all of it buffered, still watches for
  writability, has neither completed a write nor shut its socket down, and if the kernel takes
  everything each time, the peer has received the whole output once per event.\<close>

theorem handleWrite_resends:
  assumes "buffers_ok c" "isWriting (channel c)" "content (outputBuffer c) \<noteq> []"
  shows "\<exists>c'. handleWrites wr k c = Inr c' \<and>
    outputBuffer c' = outputBuffer c \<and> channel c' = channel c \<and> state c' = state c \<and> effects c' = effects c \<and>
    ((\<forall>c d. wr c d = Wrote (length d)) \<longrightarrow>
       wire c' = wire c @ concat (replicate k (content (outputBuffer c))))"
  using assms
proof (induction k arbitrary: c)
  case 0
  then show ?case by simp
next
  case (Suc k)
  let ?out = "content (outputBuffer c)"
  let ?c1 = "case wr c ?out of Wrote n \<Rightarrow> c\<lparr>wire := wire c @ take n ?out\<rparr> | _ \<Rightarrow> c"
  have f: "outputBuffer ?c1 = outputBuffer c" "channel ?c1 = channel c" "state ?c1 = state c"
    "effects ?c1 = effects c" "buffers_ok ?c1"
    using Suc.prems(1) by (simp_all add: buffers_ok_def split: write_result.split)
  have "handleWrites wr (Suc k) c = handleWrites wr k ?c1"
    using handleWrite_content [OF Suc.prems(1,3,2)] by simp
  moreover obtain c' where "handleWrites wr k ?c1 = Inr c'" "outputBuffer c' = outputBuffer c"
    "channel c' = channel c" "state c' = state c" "effects c' = effects c"
    "(\<forall>c d. wr c d = Wrote (length d)) \<longrightarrow> wire c' = wire ?c1 @ concat (replicate k ?out)"
    using Suc.IH [of ?c1] Suc.prems f by auto
  ultimately show ?case by (intro exI [of _ c']) (auto split: write_result.split)
qed

definition pending_conn :: TcpConnection where
  "pending_conn = (case sendInLoop wr_none (setState kConnected (new_TcpConnection ''c'' 5)) ''data'' of
     Inr c \<Rightarrow> c | Inl _ \<Rightarrow> new_TcpConnection ''c'' 5)"

lemma pending_conn_facts:
  "buffers_ok pending_conn \<and> isWriting (channel pending_conn) \<and> content (outputBuffer pending_conn) = ''data'' \<and>
   wire pending_conn = []"
proof -
  let ?c = "setState kConnected (new_TcpConnection ''c'' 5)"
  have b: "buffers_ok ?c" using buffers_ok_new by (simp add: buffers_ok_def)
  have w: "write_ok wr_none" by (simp add: write_ok_def wr_none_def)
  obtain c' where c': "sendInLoop wr_none ?c ''data'' = Inr c'" "buffers_ok c'" "stream c' = stream ?c @ ''data''"
    "content (outputBuffer c') = [] \<or> isWriting (channel c') \<or> ''data'' = []"
    using sendInLoop_ok [OF b w, of "''data''"] by (auto simp: wr_none_def)
  have "wire c' = []"
    using c'(1) by (auto simp: sendInLoop_def tryWrite_def wr_none_def new_TcpConnection_def Let_def split: if_splits)
  then show ?thesis using c' by (auto simp: pending_conn_def stream_def new_TcpConnection_def)
qed

theorem handleWrite_resends_witness:
  "\<exists>c'. handleWrites (\<lambda>_ d. Wrote (length d)) 3 pending_conn = Inr c' \<and> wire c' = ''datadatadata'' \<and>
     content (outputBuffer c') = ''data''"
  using handleWrite_resends [of pending_conn "\<lambda>_ d. Wrote (length d)" 3] pending_conn_facts
  by (auto simp: numeral_3_eq_3)

text \<open>forceClose tests for kDisconnected where kDisconnecting is meant: a connection that is
  shutting down, by shutdown() or by forceCloseWithDelay(), is left alone, so the delayed close never
  closes it; a closed connection is made kDisconnecting again and closed a second time, with a third
  run of the connection callback.\<close>

lemma forceClose_wrong_state:
  "(state c = kDisconnecting \<longrightarrow> forceClose c = c) \<and>
    (state c = kConnected \<longrightarrow> forceClose (forceCloseWithDelay seconds c) = forceCloseWithDelay seconds c) \<and>
    (state c = kDisconnected \<longrightarrow>
       (\<exists>c'. forceCloseInLoop (user_of wr (\<lambda>_ _. [])) (forceClose c) = Inr c' \<and>
         callbacks EConnectionCallback c' = callbacks EConnectionCallback c + 1 \<and>
         callbacks ECloseCallback c' = callbacks ECloseCallback c + 1))"
  by (auto simp: forceClose_def forceCloseWithDelay_def forceCloseInLoop_def handleClose_def user_of_def Let_def)

text \<open>The callback that \<open>forceCloseWithDelay\<close> leaves in the timer queue never has an effect, whether the
  connection is freed when the timer fires or still shutting down.\<close>

lemma delayed_close_no_effect:
  assumes "objects a = None \<or> (\<exists>c. state c = kConnected \<and> objects a = Some (forceCloseWithDelay seconds c))"
  shows "weak_call (makeWeakCallback a forceClose) objects = objects"
  using assms by (auto simp: weak_call_def makeWeakCallback_def forceClose_def forceCloseWithDelay_def split: option.split)

text \<open>A connection destroyed by its owner while it is shutting down, as when a TcpServer is
  destroyed after shutdown() and before the peer has closed, fails the assertion that its channel
  wants no events.\<close>

lemma connectDestroyed_disconnecting:
  assumes "state c = kDisconnecting" "\<not> isNoneEvent (channel c)"
  shows "connectDestroyed user c = Inl (AssertionFailed ''isNoneEvent()'') \<and>
    delete_TcpConnection c = Inl (AssertionFailed ''state_ == kDisconnected'')"
  using assms by (simp add: connectDestroyed_def delete_TcpConnection_def ensure_def)

end
