(* ===== verification/EventLoopThreadPool.thy ===== *)
theory EventLoopThreadPool
  imports Format "HOL-Library.Multiset"
begin

section \<open>The pool of loops (src/src/EventLoopThreadPool.h, src/src/EventLoopThreadPool.cpp)\<close>

text \<open>
  The loops a server spreads its connections over. A loop is a value of the type \<open>'l\<close>; starting
  the thread named \<open>s\<close> and waiting for its loop is the argument \<open>startLoop\<close>. All calls are made
  in the thread of the base loop.

  The choice of a loop is an interface of its own, the locale \<open>balancer\<close>: a server relies only
  on what it promises. The pool is interpreted as a balancer on its own operations.
\<close>

record 'l EventLoopThreadPool =
  baseLoop :: 'l
  pool_name :: string
  pool_started :: bool
  numThreads :: int
  pool_next :: nat
  threads :: "string list"
  loops :: "'l list"

definition new_EventLoopThreadPool :: "'l \<Rightarrow> string \<Rightarrow> 'l EventLoopThreadPool" where
  "new_EventLoopThreadPool base nameArg =
     \<lparr>baseLoop = base, pool_name = nameArg, pool_started = False, numThreads = 0, pool_next = 0, threads = [], loops = []\<rparr>"

definition pool_setThreadNum :: "int \<Rightarrow> 'l EventLoopThreadPool \<Rightarrow> 'l EventLoopThreadPool" where
  "pool_setThreadNum n p = p\<lparr>numThreads := n\<rparr>"

text \<open>The name of the \<open>i\<close>-th thread; the buffer has 32 bytes more than the name of the pool.\<close>

definition thread_name :: "string \<Rightarrow> nat \<Rightarrow> string" where
  "thread_name name i =
     snprintf (length name + 32) (takeWhile (\<lambda>c. c \<noteq> CHR 0x00) name @ dec_digits i)"

fun start_threads :: "(string \<Rightarrow> 'l) \<Rightarrow> nat \<Rightarrow> nat \<Rightarrow> 'l EventLoopThreadPool \<Rightarrow> 'l EventLoopThreadPool" where
  "start_threads startLoop i 0 p = p"
| "start_threads startLoop i (Suc n) p =
     (let t = thread_name (pool_name p) i
      in start_threads startLoop (Suc i) n (p\<lparr>threads := threads p @ [t], loops := loops p @ [startLoop t]\<rparr>))"

text \<open>The second component is the loop on which the init callback runs, if there is no thread to
  run it.\<close>

definition pool_start :: "(string \<Rightarrow> 'l) \<Rightarrow> bool \<Rightarrow> 'l EventLoopThreadPool \<Rightarrow> ('l EventLoopThreadPool \<times> 'l option) res" where
  "pool_start startLoop has_cb p =
     ensure (\<not> pool_started p) ''!started_''
     (let p1 = start_threads startLoop 0 (nat (numThreads p)) (p\<lparr>pool_started := True\<rparr>)
      in Inr (p1, if numThreads p1 = 0 \<and> has_cb then Some (baseLoop p1) else None))"

definition getNextLoop :: "'l EventLoopThreadPool \<Rightarrow> ('l \<times> 'l EventLoopThreadPool) res" where
  "getNextLoop p =
     ensure (pool_started p) ''started_''
     (if loops p \<noteq> []
      then if pool_next p < length (loops p)
           then let loop = loops p ! pool_next p;
                    n = pool_next p + 1
                in Inr (loop, p\<lparr>pool_next := (if n \<ge> length (loops p) then 0 else n)\<rparr>)
           else Inl (UndefinedBehaviour ''loops_[next_]'')
      else Inr (baseLoop p, p))"

definition getLoopForHash :: "nat \<Rightarrow> 'l EventLoopThreadPool \<Rightarrow> 'l" where
  "getLoopForHash hashCode p =
     (if loops p \<noteq> [] then loops p ! (hashCode mod length (loops p)) else baseLoop p)"

definition getAllLoops :: "'l EventLoopThreadPool \<Rightarrow> 'l list res" where
  "getAllLoops p =
     ensure (pool_started p) ''started_'' (Inr (if loops p = [] then [baseLoop p] else loops p))"

subsection \<open>The choice of loops as an interface\<close>

lemma mset_rotations [simp]: "mset (rotate n xs) = mset xs"
proof (induction n)
  case 0
  then show ?case by simp
next
  case (Suc n)
  have "mset (rotate1 ys) = mset ys" for ys :: "'a list" by (cases ys) simp_all
  then show ?case using Suc by simp
qed

text \<open>A sequence of choices.\<close>

fun pick_many :: "('p \<Rightarrow> ('l \<times> 'p) res) \<Rightarrow> nat \<Rightarrow> 'p \<Rightarrow> ('l list \<times> 'p) res" where
  "pick_many pick 0 p = Inr ([], p)"
| "pick_many pick (Suc n) p =
     rbind (pick p) (\<lambda>(l, p1). rbind (pick_many pick n p1) (\<lambda>(ls, p2). Inr (l # ls, p2)))"

text \<open>A balancer promises that its choices come from its members and go around them in order.\<close>

locale balancer =
  fixes pick :: "'p \<Rightarrow> ('l \<times> 'p) res"
    and members :: "'p \<Rightarrow> 'l list"
    and position :: "'p \<Rightarrow> nat"
    and ok :: "'p \<Rightarrow> bool"
  assumes pick_ok: "ok p \<Longrightarrow> \<exists>p'. pick p = Inr (members p ! position p, p') \<and> ok p' \<and> members p' = members p \<and>
      position p' = (position p + 1) mod length (members p)"
    and members_ok: "ok p \<Longrightarrow> position p < length (members p)"
begin

lemma pick_many_ok:
  "ok p \<Longrightarrow> \<exists>p'. pick_many pick n p =
     Inr (map (\<lambda>i. members p ! ((position p + i) mod length (members p))) [0..<n], p') \<and>
     ok p' \<and> members p' = members p"
proof (induction n arbitrary: p)
  case 0
  then show ?case by simp
next
  case (Suc n)
  let ?m = "members p" and ?k = "length (members p)"
  obtain p1 where p1: "pick p = Inr (?m ! position p, p1)" "ok p1" "members p1 = ?m" "position p1 = (position p + 1) mod ?k"
    using pick_ok [OF Suc.prems] by blast
  obtain p2 where p2: "pick_many pick n p1 = Inr (map (\<lambda>i. ?m ! (((position p + 1) mod ?k + i) mod ?k)) [0..<n], p2)"
    "ok p2" "members p2 = ?m"
    using Suc.IH [OF p1(2)] p1(3,4) by auto
  have "map (\<lambda>i. ?m ! (((position p + 1) mod ?k + i) mod ?k)) [0..<n] =
      map (\<lambda>i. ?m ! ((position p + i) mod ?k)) [Suc 0..<Suc n]"
    by (simp add: map_Suc_upt [symmetric] mod_add_left_eq comp_def del: upt_Suc)
  moreover have "position p mod ?k = position p" using members_ok [OF Suc.prems] by simp
  ultimately show ?case using p1(1) p2 by (simp add: upt_conv_Cons del: upt_Suc)
qed

text \<open>In a whole number of rounds every member is chosen equally often.\<close>

lemma pick_round:
  assumes "ok p"
  shows "\<exists>ls p'. pick_many pick (length (members p)) p = Inr (ls, p') \<and> mset ls = mset (members p) \<and> ok p' \<and> members p' = members p"
proof -
  let ?m = "members p" and ?k = "length (members p)" and ?i = "position p"
  have k: "?i < ?k" using members_ok [OF assms] .
  have "map (\<lambda>i. ?m ! ((?i + i) mod ?k)) [0..<?k] = rotate ?i ?m"
    by (rule nth_equalityI) (simp_all add: nth_rotate)
  then show ?thesis using pick_many_ok [OF assms, of ?k] by (auto simp: mset_rotations)
qed

end

text \<open>A started pool is a balancer: its members are its loops, or the base loop when it has none.\<close>

definition pool_members :: "'l EventLoopThreadPool \<Rightarrow> 'l list" where
  "pool_members p = (if loops p = [] then [baseLoop p] else loops p)"

definition pool_position :: "'l EventLoopThreadPool \<Rightarrow> nat" where
  "pool_position p = (if loops p = [] then 0 else pool_next p)"

definition pool_ok :: "'l EventLoopThreadPool \<Rightarrow> bool" where
  "pool_ok p \<longleftrightarrow> pool_started p \<and> (loops p \<noteq> [] \<longrightarrow> pool_next p < length (loops p))"

lemma getNextLoop_ok:
  assumes "pool_ok p"
  shows "\<exists>p'. getNextLoop p = Inr (pool_members p ! pool_position p, p') \<and> pool_ok p' \<and> pool_members p' = pool_members p \<and>
    pool_position p' = (pool_position p + 1) mod length (pool_members p)"
proof (cases "loops p = []")
  case True
  then show ?thesis using assms by (simp add: getNextLoop_def pool_ok_def pool_members_def pool_position_def)
next
  case False
  then have n: "pool_next p < length (loops p)" using assms by (simp add: pool_ok_def)
  then have "(if pool_next p + 1 \<ge> length (loops p) then 0 else pool_next p + 1) = (pool_next p + 1) mod length (loops p)"
    by (cases "pool_next p + 1 = length (loops p)") auto
  then show ?thesis using assms False n
    by (auto simp: getNextLoop_def pool_ok_def pool_members_def pool_position_def Let_def)
qed

lemma pool_position_less: "pool_ok p \<Longrightarrow> pool_position p < length (pool_members p)"
  by (simp add: pool_ok_def pool_members_def pool_position_def)

interpretation rr: balancer getNextLoop pool_members pool_position pool_ok
  by unfold_locales (erule getNextLoop_ok, erule pool_position_less)

lemma start_threads_fields:
  "pool_started (start_threads f i n p) = pool_started p" "pool_next (start_threads f i n p) = pool_next p"
  "baseLoop (start_threads f i n p) = baseLoop p" "numThreads (start_threads f i n p) = numThreads p"
  by (induction n arbitrary: i p) (simp_all add: Let_def)

lemma loops_start_threads:
  "loops (start_threads f i n p) = loops p @ map (\<lambda>k. f (thread_name (pool_name p) k)) [i..<i + n]"
proof (induction n arbitrary: i p)
  case 0
  then show ?case by simp
next
  case (Suc n)
  have "[i..<i + Suc n] = i # [Suc i..<Suc i + n]" by (simp add: upt_conv_Cons del: upt_Suc)
  then show ?case using Suc.IH [of "Suc i"] by (simp add: Let_def del: upt_Suc)
qed

subsection \<open>Properties\<close>

text \<open>Round robin: once a pool with at least one thread was started, the \<open>i\<close>-th call of
  \<open>getNextLoop\<close> returns the loop of thread \<open>i mod n\<close>; no call fails or reads outside the vector, a
  whole round picks every loop once, and without threads every call returns the base loop.\<close>

lemma getNextLoop_round_robin:
  assumes "pool_start startLoop has_cb (pool_setThreadNum n (new_EventLoopThreadPool base name)) = Inr (p, cb)" "0 \<le> n"
  shows "\<exists>ls p'. pick_many getNextLoop k p = Inr (ls, p') \<and> length ls = k \<and>
    (\<forall>i < k. ls ! i = (if n = 0 then base else startLoop (thread_name name (i mod nat n)))) \<and>
    (\<exists>round p''. pick_many getNextLoop (length (loops p)) p' = Inr (round, p'') \<and> (n = 0 \<or> mset round = mset (loops p)))"
proof -
  have p: "p = start_threads startLoop 0 (nat n) (new_EventLoopThreadPool base name\<lparr>numThreads := n, pool_started := True\<rparr>)"
    using assms by (auto simp: pool_start_def pool_setThreadNum_def new_EventLoopThreadPool_def Let_def)
  have loops: "loops p = map (\<lambda>k. startLoop (thread_name name k)) [0..<nat n]"
    unfolding p loops_start_threads by (simp add: new_EventLoopThreadPool_def)
  have fields: "pool_started p" "pool_next p = 0" "baseLoop p = base"
    unfolding p start_threads_fields by (simp_all add: new_EventLoopThreadPool_def)
  have ok: "pool_ok p" using fields by (auto simp: pool_ok_def)
  have m: "pool_position p = 0" "pool_members p = (if n = 0 then [base] else loops p)"
    using fields loops assms(2) by (auto simp: pool_position_def pool_members_def)
  obtain p' where p': "pick_many getNextLoop k p =
      Inr (map (\<lambda>i. pool_members p ! ((0 + i) mod length (pool_members p))) [0..<k], p')" "pool_ok p'" "pool_members p' = pool_members p"
    using rr.pick_many_ok [OF ok, of k] unfolding m(1) by blast
  have nth: "pool_members p ! (i mod length (pool_members p)) = (if n = 0 then base else startLoop (thread_name name (i mod nat n)))" for i
    using assms(2) unfolding m(2) loops by auto
  have "\<exists>round p''. pick_many getNextLoop (length (loops p)) p' = Inr (round, p'') \<and> (n = 0 \<or> mset round = mset (loops p))"
  proof (cases "n = 0")
    case True
    then show ?thesis using loops by simp
  next
    case False
    then show ?thesis using rr.pick_round [OF p'(2)] p'(3) m(2) by auto
  qed
  then show ?thesis using p'(1) nth by (auto simp del: upt_Suc)
qed

end
