(* ===== verification/Sockets.thy ===== *)
theory Sockets
  imports Endian StringPiece Format
begin

section \<open>Addresses and socket calls (src/src/InetAddress.h, .cpp, src/src/SocketsOps.h, .cpp, src/src/Socket.h, .cpp)\<close>

text \<open>
  \<open>InetAddress\<close> is a union of \<open>sockaddr_in\<close> and \<open>sockaddr_in6\<close>. Both begin with the family and
  the port; the IPv4 address lies over \<open>sin6_flowinfo\<close>, the eight bytes of padding behind it over
  the first half of the IPv6 address. The record has one field for each part of that memory. Ports
  and IPv4 addresses are in network byte order, on a host of the given byte order.

  A system call is the argument that holds its answer; the functions that end in \<open>OrDie\<close>, and
  those that call inside \<open>assert\<close>, fail an assertion when the answer is an error. \<open>inet_ntop\<close> and
  \<open>inet_pton\<close> are arguments too.
\<close>

definition AF_INET :: nat where "AF_INET = 2"
definition AF_INET6 :: nat where "AF_INET6 = 10"

record InetAddress =
  sin_family :: nat
  sin_port :: "16 word"
  sin_addr :: "32 word"
  sin6_addr :: "byte list"
  sin6_scope_id :: "32 word"

definition in6addr_any :: "byte list" where "in6addr_any = replicate 16 (CHR 0x00)"
definition in6addr_loopback :: "byte list" where "in6addr_loopback = replicate 15 (CHR 0x00) @ [CHR 0x01]"
definition kInaddrAny :: "32 word" where "kInaddrAny = 0"
definition kInaddrLoopback :: "32 word" where "kInaddrLoopback = 0x7f000001"

text \<open>\<open>memZero\<close> clears the member of the union it is given; \<open>mem\<close> is what was there.\<close>

definition zero_addr :: "InetAddress \<Rightarrow> InetAddress" where
  "zero_addr mem = mem\<lparr>sin_family := 0, sin_port := 0, sin_addr := 0,
     sin6_addr := replicate 8 (CHR 0x00) @ drop 8 (sin6_addr mem)\<rparr>"

definition zero_addr6 :: "InetAddress \<Rightarrow> InetAddress" where
  "zero_addr6 mem = \<lparr>sin_family = 0, sin_port = 0, sin_addr = 0, sin6_addr = in6addr_any, sin6_scope_id = 0\<rparr>"

definition InetAddress_port :: "endianness \<Rightarrow> InetAddress \<Rightarrow> 16 word \<Rightarrow> bool \<Rightarrow> bool \<Rightarrow> InetAddress" where
  "InetAddress_port e mem port loopbackOnly ipv6 =
     (if ipv6
      then (zero_addr6 mem)\<lparr>sin_family := AF_INET6,
             sin6_addr := (if loopbackOnly then in6addr_loopback else in6addr_any), sin_port := hostToNetwork16 e port\<rparr>
      else (zero_addr mem)\<lparr>sin_family := AF_INET,
             sin_addr := hostToNetwork32 e (if loopbackOnly then kInaddrLoopback else kInaddrAny), sin_port := hostToNetwork16 e port\<rparr>)"

definition fromIpPort4 :: "(string \<Rightarrow> 32 word option) \<Rightarrow> endianness \<Rightarrow> string \<Rightarrow> 16 word \<Rightarrow> InetAddress \<Rightarrow> InetAddress res" where
  "fromIpPort4 inet_pton e ip port addr =
     (let a = addr\<lparr>sin_family := AF_INET, sin_port := hostToNetwork16 e port\<rparr>
      in case inet_pton ip of Some x \<Rightarrow> Inr (a\<lparr>sin_addr := x\<rparr>) | None \<Rightarrow> Inl (AssertionFailed ''ret == 1''))"

definition fromIpPort6 :: "(string \<Rightarrow> byte list option) \<Rightarrow> endianness \<Rightarrow> string \<Rightarrow> 16 word \<Rightarrow> InetAddress \<Rightarrow> InetAddress res" where
  "fromIpPort6 inet_pton6 e ip port addr =
     (let a = addr\<lparr>sin_family := AF_INET6, sin_port := hostToNetwork16 e port\<rparr>
      in case inet_pton6 ip of Some x \<Rightarrow> Inr (a\<lparr>sin6_addr := x\<rparr>) | None \<Rightarrow> Inl (AssertionFailed ''inet_pton == 1''))"

definition InetAddress_ip ::
  "(string \<Rightarrow> 32 word option) \<Rightarrow> (string \<Rightarrow> byte list option) \<Rightarrow> endianness \<Rightarrow> InetAddress \<Rightarrow> string \<Rightarrow> 16 word \<Rightarrow> bool \<Rightarrow>
   InetAddress res" where
  "InetAddress_ip inet_pton inet_pton6 e mem ip port ipv6 =
     (if ipv6 then fromIpPort6 inet_pton6 e ip port (zero_addr6 mem) else fromIpPort4 inet_pton e ip port (zero_addr mem))"

subsection \<open>Printing\<close>

definition INET_ADDRSTRLEN :: nat where "INET_ADDRSTRLEN = 16"
definition INET6_ADDRSTRLEN :: nat where "INET6_ADDRSTRLEN = 46"

text \<open>\<open>buf\<close> is the C string in the buffer of \<open>size\<close> bytes before the call.\<close>

definition sockets_toIp ::
  "(32 word \<Rightarrow> string) \<Rightarrow> (byte list \<Rightarrow> string) \<Rightarrow> nat \<Rightarrow> InetAddress \<Rightarrow> string \<Rightarrow> string res" where
  "sockets_toIp ntop ntop6 bufsize addr buf =
     (if sin_family addr = AF_INET
      then ensure (INET_ADDRSTRLEN \<le> bufsize) ''size >= INET_ADDRSTRLEN'' (Inr (ntop (sin_addr addr)))
      else if sin_family addr = AF_INET6
      then ensure (INET6_ADDRSTRLEN \<le> bufsize) ''size >= INET6_ADDRSTRLEN'' (Inr (ntop6 (sin6_addr addr)))
      else Inr buf)"

definition sockets_toIpPort ::
  "(32 word \<Rightarrow> string) \<Rightarrow> (byte list \<Rightarrow> string) \<Rightarrow> endianness \<Rightarrow> nat \<Rightarrow> InetAddress \<Rightarrow> string \<Rightarrow> string res" where
  "sockets_toIpPort ntop ntop6 e bufsize addr buf =
     rbind (sockets_toIp ntop ntop6 bufsize addr buf) (\<lambda>buf1.
       ensure (length buf1 < bufsize) ''size > end''
       (Inr (buf1 @ snprintf (bufsize - length buf1) ('':'' @ dec_digits (unat (networkToHost16 e (sin_port addr)))))))"

definition toIpPort :: "(32 word \<Rightarrow> string) \<Rightarrow> (byte list \<Rightarrow> string) \<Rightarrow> endianness \<Rightarrow> InetAddress \<Rightarrow> string res" where
  "toIpPort ntop ntop6 e addr = sockets_toIpPort ntop ntop6 e 64 addr []"

definition toIp :: "(32 word \<Rightarrow> string) \<Rightarrow> (byte list \<Rightarrow> string) \<Rightarrow> InetAddress \<Rightarrow> string res" where
  "toIp ntop ntop6 addr = sockets_toIp ntop ntop6 64 addr []"

definition ipNetEndian :: "InetAddress \<Rightarrow> 32 word res" where
  "ipNetEndian addr = ensure (sin_family addr = AF_INET) ''family() == AF_INET'' (Inr (sin_addr addr))"

definition toPort :: "endianness \<Rightarrow> InetAddress \<Rightarrow> 16 word" where
  "toPort e addr = networkToHost16 e (sin_port addr)"

definition setScopeId :: "32 word \<Rightarrow> InetAddress \<Rightarrow> InetAddress" where
  "setScopeId scope_id addr = (if sin_family addr = AF_INET6 then addr\<lparr>sin6_scope_id := scope_id\<rparr> else addr)"

text \<open>\<open>resolve\<close>: the answer of \<open>gethostbyname_r\<close> is the error code and the address type, length and
  first address of the host entry, if there is one.\<close>

definition resolve :: "int \<Rightarrow> (nat \<times> nat \<times> 32 word) option \<Rightarrow> InetAddress \<Rightarrow> (bool \<times> InetAddress) res" where
  "resolve ret he out =
     (case he of
        Some (h_addrtype, h_length, h_addr) \<Rightarrow>
          (if ret = 0
           then ensure (h_addrtype = AF_INET \<and> h_length = 4) ''he->h_addrtype == AF_INET && he->h_length == sizeof(uint32_t)''
                  (Inr (True, out\<lparr>sin_addr := h_addr\<rparr>))
           else Inr (False, out))
      | None \<Rightarrow> Inr (False, out))"

subsection \<open>System calls\<close>

definition createNonblockingOrDie :: "int \<Rightarrow> int res" where
  "createNonblockingOrDie sockfd = ensure (sockfd > 0) ''sockfd > 0'' (Inr sockfd)"

definition bindOrDie :: "int \<Rightarrow> unit res" where
  "bindOrDie ret = ensure (ret \<noteq> -1) ''ret != -1'' (Inr ())"

definition listenOrDie :: "int \<Rightarrow> unit res" where
  "listenOrDie ret = ensure (ret \<noteq> -1) ''ret != -1'' (Inr ())"

definition close_or_die :: "int \<Rightarrow> unit res" where
  "close_or_die ret = ensure (ret = 0) ''::close(sockfd) == 0'' (Inr ())"

definition shutdownWrite_or_die :: "int \<Rightarrow> unit res" where
  "shutdownWrite_or_die ret = ensure (ret = 0) ''::shutdown(sockfd, SHUT_WR) == 0'' (Inr ())"

definition getSocketError :: "int \<Rightarrow> int \<Rightarrow> int \<Rightarrow> int" where
  "getSocketError ret err optval = (if ret < 0 then err else optval)"

definition getLocalAddr :: "int \<Rightarrow> InetAddress \<Rightarrow> InetAddress res" where
  "getLocalAddr ret localaddr = ensure (ret \<noteq> -1) ''::getsockname != -1'' (Inr localaddr)"

definition getPeerAddr :: "int \<Rightarrow> InetAddress \<Rightarrow> InetAddress res" where
  "getPeerAddr ret peeraddr = ensure (ret = 0) ''::getpeername == 0'' (Inr peeraddr)"

definition isSelfConnect :: "InetAddress \<Rightarrow> InetAddress \<Rightarrow> bool" where
  "isSelfConnect localaddr peeraddr \<longleftrightarrow>
     (if sin_family localaddr = AF_INET
      then sin_port localaddr = sin_port peeraddr \<and> sin_addr localaddr = sin_addr peeraddr
      else if sin_family localaddr = AF_INET6
      then sin_port localaddr = sin_port peeraddr \<and> memcmp (sin6_addr localaddr) (sin6_addr peeraddr) 16 = 0
      else False)"

subsection \<open>Accepting\<close>

text \<open>\<open>errno\<close> is threaded through the calls. \<open>fcntl(2)\<close> on a negative descriptor fails with
  \<open>EBADF\<close>; on an open one it succeeds and leaves \<open>errno\<close> alone.\<close>

definition setNonBlockAndCloseOnExec :: "int \<Rightarrow> int \<Rightarrow> int" where
  "setNonBlockAndCloseOnExec sockfd errno = (if sockfd < 0 then 9 else errno)"

text \<open>The answer of \<open>accept(2)\<close> is an errno or a descriptor and the address of the peer; the
  result is \<open>connfd\<close>, \<open>errno\<close> after the call, and the address stored in \<open>addr\<close>. The codes that
  put \<open>errno\<close> back are \<open>EAGAIN\<close>, \<open>ECONNABORTED\<close>, \<open>EINTR\<close>, \<open>EPROTO\<close>, \<open>EPERM\<close> and \<open>EMFILE\<close>.\<close>

definition sockets_accept :: "int + int \<times> InetAddress \<Rightarrow> int \<Rightarrow> InetAddress \<Rightarrow> int \<times> int \<times> InetAddress" where
  "sockets_accept answer errno addr =
     (let (connfd, errno1, addr1) = (case answer of Inl err \<Rightarrow> (-1, err, addr) | Inr (f, a) \<Rightarrow> (f, errno, a));
          errno2 = setNonBlockAndCloseOnExec connfd errno1
      in if connfd < 0
         then let savedErrno = errno2
              in if savedErrno \<in> {11, 103, 4, 71, 1, 24} then (connfd, savedErrno, addr1) else (connfd, errno2, addr1)
         else (connfd, errno2, addr1))"

definition Socket_accept :: "int + int \<times> InetAddress \<Rightarrow> int \<Rightarrow> InetAddress \<Rightarrow> int \<times> int \<times> InetAddress" where
  "Socket_accept answer errno peeraddr =
     (let (connfd, errno1, addr) = sockets_accept answer errno (zero_addr6 peeraddr)
      in if connfd \<ge> 0 then (connfd, errno1, addr) else (connfd, errno1, peeraddr))"

text \<open>The options of \<open>Socket\<close>: the level, the name and the value that \<open>setsockopt\<close> gets.\<close>

datatype sockopt = TCP_NODELAY | SO_REUSEADDR | SO_REUSEPORT | SO_KEEPALIVE

definition optval_of :: "bool \<Rightarrow> int" where "optval_of on = (if on then 1 else 0)"

definition setTcpNoDelay :: "bool \<Rightarrow> sockopt \<times> int" where "setTcpNoDelay on = (TCP_NODELAY, optval_of on)"
definition setReuseAddr :: "bool \<Rightarrow> sockopt \<times> int" where "setReuseAddr on = (SO_REUSEADDR, optval_of on)"
definition setReusePort :: "bool \<Rightarrow> sockopt \<times> int" where "setReusePort on = (SO_REUSEPORT, optval_of on)"
definition setKeepAlive :: "bool \<Rightarrow> sockopt \<times> int" where "setKeepAlive on = (SO_KEEPALIVE, optval_of on)"

subsection \<open>Kernel statistics\<close>

text \<open>The fields of \<open>struct tcp_info\<close> that are printed; \<open>answer\<close> is what \<open>getsockopt\<close> delivers, \<open>None\<close>
  when it fails. \<open>buf\<close> is what the buffer of the caller held before.\<close>

record tcp_info =
  tcpi_retransmits :: "32 word"
  tcpi_rto :: "32 word"
  tcpi_ato :: "32 word"
  tcpi_snd_mss :: "32 word"
  tcpi_rcv_mss :: "32 word"
  tcpi_lost :: "32 word"
  tcpi_retrans :: "32 word"
  tcpi_rtt :: "32 word"
  tcpi_rttvar :: "32 word"
  tcpi_snd_ssthresh :: "32 word"
  tcpi_snd_cwnd :: "32 word"
  tcpi_total_retrans :: "32 word"

definition memZero_tcp_info :: tcp_info where
  "memZero_tcp_info =
     \<lparr>tcpi_retransmits = 0, tcpi_rto = 0, tcpi_ato = 0, tcpi_snd_mss = 0,
      tcpi_rcv_mss = 0, tcpi_lost = 0, tcpi_retrans = 0, tcpi_rtt = 0,
      tcpi_rttvar = 0, tcpi_snd_ssthresh = 0, tcpi_snd_cwnd = 0, tcpi_total_retrans = 0\<rparr>"

definition getTcpInfo :: "tcp_info option \<Rightarrow> bool \<times> tcp_info" where
  "getTcpInfo answer = (case answer of Some tcpi \<Rightarrow> (True, tcpi) | None \<Rightarrow> (False, memZero_tcp_info))"

definition tcp_info_text :: "tcp_info \<Rightarrow> string" where
  "tcp_info_text i = (let u = (\<lambda>w :: 32 word. dec_digits (unat w)) in
     ''unrecovered='' @ u (tcpi_retransmits i) @
     '' rto='' @ u (tcpi_rto i) @
     '' ato='' @ u (tcpi_ato i) @
     '' snd_mss='' @ u (tcpi_snd_mss i) @
     '' rcv_mss='' @ u (tcpi_rcv_mss i) @
     '' lost='' @ u (tcpi_lost i) @
     '' retrans='' @ u (tcpi_retrans i) @
     '' rtt='' @ u (tcpi_rtt i) @
     '' rttvar='' @ u (tcpi_rttvar i) @
     '' sshthresh='' @ u (tcpi_snd_ssthresh i) @
     '' cwnd='' @ u (tcpi_snd_cwnd i) @
     '' total_retrans='' @ u (tcpi_total_retrans i))"

definition getTcpInfoString :: "tcp_info option \<Rightarrow> nat \<Rightarrow> string \<Rightarrow> bool \<times> string" where
  "getTcpInfoString answer len buf =
     (let (ok, tcpi) = getTcpInfo answer
      in (ok, if ok then snprintf len (tcp_info_text tcpi) else buf))"

text \<open>\<open>TcpConnection::getTcpInfoString\<close>, with its buffer of 1024 bytes.\<close>

definition conn_getTcpInfoString :: "tcp_info option \<Rightarrow> string" where
  "conn_getTcpInfoString answer = snd (getTcpInfoString answer 1024 [])"

subsection \<open>Lemmas\<close>

text \<open>What the manual promises of \<open>inet_ntop\<close>: the text fits the sizes of its header.\<close>

definition ntop_sizes :: "(32 word \<Rightarrow> string) \<Rightarrow> (byte list \<Rightarrow> string) \<Rightarrow> bool" where
  "ntop_sizes ntop ntop6 \<longleftrightarrow> (\<forall>a. length (ntop a) < INET_ADDRSTRLEN) \<and> (\<forall>a. length (ntop6 a) < INET6_ADDRSTRLEN)"

lemma length_port: "length (dec_digits (unat (p :: 16 word))) \<le> 5"
proof -
  have "unat p < 2 ^ LENGTH(16)" by (rule unsigned_less)
  then have "unat p < 10 ^ 5" by simp
  then show ?thesis by (intro length_dec_digits_le) simp_all
qed

lemma toIpPort_text:
  assumes "ntop_sizes ntop ntop6" "sin_family addr \<in> {AF_INET, AF_INET6}"
  shows "toIpPort ntop ntop6 e addr =
    Inr ((if sin_family addr = AF_INET then ntop (sin_addr addr) else ntop6 (sin6_addr addr)) @ '':'' @ dec_digits (unat (toPort e addr)))"
proof -
  let ?ip = "if sin_family addr = AF_INET then ntop (sin_addr addr) else ntop6 (sin6_addr addr)"
  have s: "length (ntop (sin_addr addr)) < 16" "length (ntop6 (sin6_addr addr)) < 46"
    using assms(1) by (simp_all add: ntop_sizes_def INET_ADDRSTRLEN_def INET6_ADDRSTRLEN_def)
  then have ip: "sockets_toIp ntop ntop6 64 addr [] = Inr ?ip" "length ?ip < 46"
    using assms(2) by (auto simp: sockets_toIp_def INET_ADDRSTRLEN_def INET6_ADDRSTRLEN_def)
  have "length ('':'' @ dec_digits (unat (toPort e addr))) < 64 - length ?ip"
    using ip(2) length_port [of "toPort e addr"] by simp
  then have "snprintf (64 - length ?ip) ('':'' @ dec_digits (unat (toPort e addr))) = '':'' @ dec_digits (unat (toPort e addr))"
    by (rule snprintf_fits)
  then show ?thesis using ip by (simp add: toIpPort_def sockets_toIpPort_def toPort_def)
qed

lemma toPort_roundtrip:
  "toPort e (InetAddress_port e mem port lo v6) = port"
  by (simp add: toPort_def InetAddress_port_def)

text \<open>After a failed \<open>accept\<close>, \<open>errno\<close> is that of the failed \<open>fcntl\<close>.\<close>

lemma Socket_accept_fails: "fst (Socket_accept (Inl err) errno a) = -1" "fst (snd (Socket_accept (Inl err) errno a)) = 9"
  by (simp_all add: Socket_accept_def sockets_accept_def setNonBlockAndCloseOnExec_def Let_def)

lemma Socket_accept_ok: "0 \<le> f \<Longrightarrow> Socket_accept (Inr (f, peer)) errno a = (f, errno, peer)"
  by (simp add: Socket_accept_def sockets_accept_def setNonBlockAndCloseOnExec_def Let_def)

text \<open>The text of a connection's statistics is never cut off.\<close>

lemma length_uint32: "length (dec_digits (unat (w :: 32 word))) \<le> 10"
proof -
  have "unat w < 2 ^ LENGTH(32)" by (rule unsigned_less)
  then have "unat w < 10 ^ 10" by simp
  then show ?thesis by (intro length_dec_digits_le) simp_all
qed

lemma length_tcp_info_text: "length (tcp_info_text i) < 1024"
proof -
  have "length (tcp_info_text i) \<le> 100 + 12 * 10"
    unfolding tcp_info_text_def Let_def length_append
    using length_uint32 [of "tcpi_retransmits i"] length_uint32 [of "tcpi_rto i"]
      length_uint32 [of "tcpi_ato i"]
      length_uint32 [of "tcpi_snd_mss i"]
      length_uint32 [of "tcpi_rcv_mss i"]
      length_uint32 [of "tcpi_lost i"]
      length_uint32 [of "tcpi_retrans i"]
      length_uint32 [of "tcpi_rtt i"]
      length_uint32 [of "tcpi_rttvar i"]
      length_uint32 [of "tcpi_snd_ssthresh i"]
      length_uint32 [of "tcpi_snd_cwnd i"]
      length_uint32 [of "tcpi_total_retrans i"]
    by simp
  then show ?thesis by simp
qed

lemma conn_getTcpInfoString_text: "conn_getTcpInfoString (Some i) = tcp_info_text i" "conn_getTcpInfoString None = []"
  by (simp_all add: conn_getTcpInfoString_def getTcpInfoString_def getTcpInfo_def length_tcp_info_text)

end
