(* ===== verification/Acceptor.thy ===== *)
theory Acceptor
  imports Sockets Channel
begin

section \<open>The acceptor (src/src/Acceptor.h, src/src/Acceptor.cpp)\<close>

text \<open>
  The listening socket, its channel and the spare descriptor that is kept for the moment when the
  process runs out of descriptors. The descriptors that the acceptor closed and the connections
  that it passed to its callback are recorded in order. The answers of the system calls are
  arguments: \<open>answer\<close> that of \<open>accept(2)\<close>, \<open>second\<close> and \<open>devnull\<close> those of the second
  \<open>accept\<close> and of \<open>open("/dev/null")\<close> in the out-of-descriptors branch.
\<close>

record Acceptor =
  acceptSocket :: int
  acceptChannel :: "unit Channel"
  newConnectionCallback :: bool
  listenning :: bool
  idleFd :: int
  options :: "(sockopt \<times> int) list"
  acceptor_closed :: "int list"
  accepted :: "(int \<times> InetAddress) list"

definition new_Acceptor :: "int \<Rightarrow> int \<Rightarrow> int \<Rightarrow> bool \<Rightarrow> Acceptor res" where
  "new_Acceptor sockfd devnull bind_ret reuseport =
     rbind (createNonblockingOrDie sockfd) (\<lambda>f.
       ensure (devnull \<ge> 0) ''idleFd_ >= 0''
       (rbind (bindOrDie bind_ret) (\<lambda>_.
          Inr \<lparr>acceptSocket = f, acceptChannel = setReadCallback () (new_Channel f), newConnectionCallback = False,
               listenning = False, idleFd = devnull, options = [setReuseAddr True, setReusePort reuseport],
               acceptor_closed = [], accepted = []\<rparr>)))"

definition acceptor_close :: "int \<Rightarrow> Acceptor \<Rightarrow> Acceptor" where
  "acceptor_close f a = a\<lparr>acceptor_closed := acceptor_closed a @ [f]\<rparr>"

definition delete_Acceptor :: "Acceptor \<Rightarrow> Acceptor res" where
  "delete_Acceptor a =
     (let ch = channel_apply DisableAll (acceptChannel a)
      in ensure (isNoneEvent ch) ''isNoneEvent()''
         (Inr (acceptor_close (idleFd a) (a\<lparr>acceptChannel := ch\<lparr>addedToLoop := False\<rparr>\<rparr>))))"

definition acceptor_listen :: "int \<Rightarrow> Acceptor \<Rightarrow> Acceptor res" where
  "acceptor_listen listen_ret a =
     rbind (listenOrDie listen_ret) (\<lambda>_.
       Inr (a\<lparr>listenning := True, acceptChannel := (channel_apply EnableReading (acceptChannel a))\<lparr>addedToLoop := True\<rparr>\<rparr>))"

definition EMFILE :: int where "EMFILE = 24"

definition acceptor_handleRead ::
  "int + int \<times> InetAddress \<Rightarrow> int \<Rightarrow> InetAddress \<Rightarrow> int \<Rightarrow> int \<Rightarrow> Acceptor \<Rightarrow> Acceptor" where
  "acceptor_handleRead answer errno peer second devnull a =
     (let (connfd, errno1, peerAddr) = Socket_accept answer errno peer
      in if connfd \<ge> 0
         then if newConnectionCallback a then a\<lparr>accepted := accepted a @ [(connfd, peerAddr)]\<rparr>
              else acceptor_close connfd a
         else if errno1 = EMFILE
         then let a1 = acceptor_close (idleFd a) a;
                  a2 = acceptor_close second (a1\<lparr>idleFd := second\<rparr>)
              in a2\<lparr>idleFd := devnull\<rparr>
         else a)"

subsection \<open>Properties\<close>

text \<open>C39: A connection that \<open>accept\<close> returned is passed to the callback with the address of its
  peer, or closed when there is no callback. When \<open>accept\<close> fails nothing happens, whatever the
  error: the branch for \<open>EMFILE\<close>, which gives up the spare descriptor to drop the connection, is
  never taken, because \<open>sockets::accept\<close> first calls \<open>fcntl\<close> on the descriptor -1 and so
  replaces \<open>errno\<close>. The pending connection keeps the listening socket readable.\<close>

theorem acceptor_handleRead_cases:
  assumes "0 \<le> f"
  shows "acceptor_handleRead (Inr (f, peer)) errno mem second devnull a =
      (if newConnectionCallback a then a\<lparr>accepted := accepted a @ [(f, peer)]\<rparr>
       else a\<lparr>acceptor_closed := acceptor_closed a @ [f]\<rparr>) \<and>
    acceptor_handleRead (Inl err) errno mem second devnull a = a"
proof -
  obtain addr where "Socket_accept (Inl err) errno mem = (-1, 9, addr)"
    using Socket_accept_fails [of err errno mem] by (metis prod.collapse)
  then show ?thesis
    using assms by (simp add: acceptor_handleRead_def Socket_accept_ok acceptor_close_def EMFILE_def)
qed

theorem acceptor_handleRead_cases_witness:
  "acceptor_handleRead (Inl EMFILE) 0 \<lparr>sin_family = 2, sin_port = 0, sin_addr = 0, sin6_addr = [], sin6_scope_id = 0\<rparr> 7 8
     \<lparr>acceptSocket = 3, acceptChannel = new_Channel 3, newConnectionCallback = True, listenning = True, idleFd = 4,
      options = [], acceptor_closed = [], accepted = []\<rparr> =
     \<lparr>acceptSocket = 3, acceptChannel = new_Channel 3, newConnectionCallback = True, listenning = True, idleFd = 4,
      options = [], acceptor_closed = [], accepted = []\<rparr>"
  by (rule conjunct2 [OF acceptor_handleRead_cases [of 5]]) simp

end
