(* ===== verification/OrdMap.thy ===== *)
theory OrdMap
  imports Prelude
begin

section \<open>Ordered maps\<close>

text \<open>
  \<open>std::map\<close> as the list of its entries in the order of iteration: keys ascend strictly. The
  header fields of a request and of a response and the connections of a server are such maps.
  \<open>om_put\<close> is the assignment \<open>m[k] = v\<close>, \<open>om_erase\<close> is \<open>erase\<close>, which returns how many
  entries it removed, and \<open>find\<close> is \<open>map_of\<close> of the library.
\<close>

fun om_put :: "'k::linorder \<Rightarrow> 'v \<Rightarrow> ('k \<times> 'v) list \<Rightarrow> ('k \<times> 'v) list" where
  "om_put k v [] = [(k, v)]"
| "om_put k v ((k', v') # m) =
     (if k < k' then (k, v) # (k', v') # m
      else if k = k' then (k, v) # m
      else (k', v') # om_put k v m)"

fun om_remove :: "'k \<Rightarrow> ('k \<times> 'v) list \<Rightarrow> ('k \<times> 'v) list" where
  "om_remove k [] = []"
| "om_remove k ((k', v') # m) = (if k = k' then m else (k', v') # om_remove k m)"

definition om_erase :: "'k \<Rightarrow> ('k \<times> 'v) list \<Rightarrow> nat \<times> ('k \<times> 'v) list" where
  "om_erase k m = (if map_of m k = None then 0 else 1, om_remove k m)"

definition om_wf :: "('k::linorder \<times> 'v) list \<Rightarrow> bool" where
  "om_wf m \<longleftrightarrow> sorted_wrt (<) (map fst m)"

lemma om_wf_Nil [simp]: "om_wf []"
  by (simp add: om_wf_def)

lemma om_wf_distinct: "om_wf m \<Longrightarrow> distinct (map fst m)"
  unfolding om_wf_def by (simp add: strict_sorted_iff)

lemma keys_om_put: "fst ` set (om_put k v m) = insert k (fst ` set m)"
proof (induction m)
  case Nil
  then show ?case by simp
next
  case (Cons e m)
  then show ?case by (cases e) (simp add: insert_commute insert_absorb2)
qed

lemma om_wf_put [wf_intros]: "om_wf m \<Longrightarrow> om_wf (om_put k v m)"
proof (induction m)
  case Nil
  then show ?case by (simp add: om_wf_def)
next
  case (Cons e m)
  obtain k' v' where e: "e = (k', v')" by (cases e)
  have "om_wf (om_put k v m)" and "\<forall>x \<in> fst ` set m. k' < x"
    using Cons by (auto simp: om_wf_def e)
  moreover have "\<forall>x \<in> fst ` set (om_put k v m). k' < x" if "k' < k"
    using that \<open>\<forall>x \<in> fst ` set m. k' < x\<close> by (simp add: keys_om_put)
  ultimately show ?case using Cons.prems by (auto simp: om_wf_def e)
qed

lemma map_of_om_put [simp]: "map_of (om_put k v m) = (map_of m)(k \<mapsto> v)"
  by (induction m) auto

lemma om_put_below: "\<forall>x \<in> fst ` set m. x < k \<Longrightarrow> om_put k v m = m @ [(k, v)]"
  by (induction m) auto

lemma set_om_remove: "set (om_remove k m) \<subseteq> set m"
  by (induction m) (auto split: if_splits)

lemma om_wf_remove [wf_intros]: "om_wf m \<Longrightarrow> om_wf (om_remove k m)"
proof (induction m)
  case Nil
  then show ?case by simp
next
  case (Cons e m)
  then show ?case using set_om_remove [of k m] by (cases e) (fastforce simp: om_wf_def)
qed

lemma map_of_om_remove: "om_wf m \<Longrightarrow> map_of (om_remove k m) = (map_of m)(k := None)"
proof (induction m)
  case Nil
  then show ?case by simp
next
  case (Cons e m)
  have "fst e \<notin> fst ` set m" using om_wf_distinct [OF Cons.prems] by simp
  then have "map_of m (fst e) = None" by (simp add: map_of_eq_None_iff)
  moreover have "om_wf m" using Cons.prems by (simp add: om_wf_def)
  ultimately show ?case using Cons.IH by (cases e) (auto simp: fun_eq_iff)
qed

end
