(* ===== verification/TcpServer.thy ===== *)
theory TcpServer
  imports TcpConnection EventLoopThreadPool Acceptor OrdMap StringPiece
begin

section \<open>The server (src/src/TcpServer.h, src/src/TcpServer.cpp)\<close>

text \<open>
  A server names the connections that its acceptor gets, keeps them in a map under their names
  and removes them when they close. Loops are numbers; the base loop is one of them. A connection
  object is a pointer with the name and the loop of the connection. What the server hands to the
  loops is recorded in order in \<open>tasks\<close>: the loop and the function bound to the connection.

  The names are the keys of the map, so the server rests on their being distinct: the lemmas show
  when they are, and that then the assertion of \<open>removeConnectionInLoop\<close> holds in every
  interleaving of new connections, connections that close and the functors of the base loop.
\<close>

record ConnPtr =
  ptr :: nat
  ptr_name :: string
  ptr_loop :: nat

text \<open>What the server's connections print when no callback was set, and on an error of the socket; the
  addresses and the answers of the kernel are arguments. \<open>setTcpNoDelay\<close> sets the option of the socket.\<close>

definition defaultConnectionCallback ::
  "(32 word \<Rightarrow> string) \<Rightarrow> (byte list \<Rightarrow> string) \<Rightarrow> endianness \<Rightarrow> InetAddress \<Rightarrow> InetAddress \<Rightarrow> TcpConnection \<Rightarrow> string res" where
  "defaultConnectionCallback ntop ntop6 e localAddr peerAddr conn =
     (let connectState = (if conn_connected conn then ''UP'' else ''DOWN'')
      in rbind (toIpPort ntop ntop6 e localAddr) (\<lambda>l.
         rbind (toIpPort ntop ntop6 e peerAddr) (\<lambda>p.
         Inr (c_str l @ '' -> '' @ c_str p @ '' is '' @ connectState @ [CHR 0x0A]))))"

definition conn_handleError :: "(int \<Rightarrow> string) \<Rightarrow> int \<Rightarrow> int \<Rightarrow> int \<Rightarrow> TcpConnection \<Rightarrow> string" where
  "conn_handleError strerror ret errno optval c =
     (let err = getSocketError ret errno optval; errmsg = strerror err
      in ''TcpConnection::handleError [ '' @ c_str (conn_name c) @ '' ] -  - SO_ERROR = '' @ dec_int err @ '', '' @ errmsg)"

definition conn_setTcpNoDelay :: "bool \<Rightarrow> sockopt \<times> int" where
  "conn_setTcpNoDelay on = setTcpNoDelay on"

datatype server_task =
    ConnectEstablished ConnPtr
  | ConnectDestroyed ConnPtr
  | RemoveConnectionInLoop ConnPtr
  | AcceptorListen

record TcpServer =
  server_loop :: nat
  ipPort :: string
  server_name :: string
  threadPool :: "nat EventLoopThreadPool"
  acceptor_listenning :: bool
  server_writeComplete :: bool
  server_started :: "32 word"
  nextConnId :: nat
  connections :: "(string \<times> ConnPtr) list"
  tasks :: "(nat \<times> server_task) list"
  allocated :: nat

definition new_TcpServer :: "nat \<Rightarrow> string \<Rightarrow> string \<Rightarrow> TcpServer" where
  "new_TcpServer loop listenIpPort nameArg =
     \<lparr>server_loop = loop, ipPort = listenIpPort, server_name = nameArg,
      threadPool = new_EventLoopThreadPool loop nameArg, acceptor_listenning = False, server_writeComplete = False,
      server_started = 0, nextConnId = 1, connections = [], tasks = [], allocated = 0\<rparr>"

definition hand_to :: "nat \<Rightarrow> server_task \<Rightarrow> TcpServer \<Rightarrow> TcpServer" where
  "hand_to loop t s = s\<lparr>tasks := tasks s @ [(loop, t)]\<rparr>"

text \<open>The destructor hands every connection left to its loop.\<close>

definition delete_TcpServer :: "TcpServer \<Rightarrow> TcpServer" where
  "delete_TcpServer s =
     fold (\<lambda>item s'. hand_to (ptr_loop (snd item)) (ConnectDestroyed (snd item)) s') (connections s) s"

definition server_setThreadNum :: "int \<Rightarrow> TcpServer \<Rightarrow> TcpServer res" where
  "server_setThreadNum n s =
     ensure (0 \<le> n) ''0 <= numThreads'' (Inr (s\<lparr>threadPool := pool_setThreadNum n (threadPool s)\<rparr>))"

text \<open>\<open>getAndSet\<close> of \<open>AtomicInt32\<close>.\<close>

definition getAndSet :: "'a \<Rightarrow> 'a \<Rightarrow> 'a \<times> 'a" where
  "getAndSet newValue val = (val, newValue)"

definition server_start :: "(string \<Rightarrow> nat) \<Rightarrow> bool \<Rightarrow> TcpServer \<Rightarrow> TcpServer res" where
  "server_start startLoop has_cb s =
     (let (old, now) = getAndSet 1 (server_started s);
          s1 = s\<lparr>server_started := now\<rparr>
      in if old = 0
         then rbind (pool_start startLoop has_cb (threadPool s1)) (\<lambda>(pool, _).
                ensure (\<not> acceptor_listenning s1) ''!acceptor_->listenning()''
                (Inr (hand_to (server_loop s1) AcceptorListen (s1\<lparr>threadPool := pool\<rparr>))))
         else Inr s1)"

text \<open>The suffix \<open>-ipPort#id\<close> goes through a buffer of 64 bytes.\<close>

definition conn_suffix :: "string \<Rightarrow> nat \<Rightarrow> string" where
  "conn_suffix ip_port cid = snprintf 64 (''-'' @ ip_port @ ''#'' @ dec_digits cid)"

definition newConnection :: "int \<Rightarrow> TcpServer \<Rightarrow> (TcpConnection \<times> ConnPtr \<times> TcpServer) res" where
  "newConnection sockfd s =
     rbind (getNextLoop (threadPool s)) (\<lambda>(ioLoop, pool).
       let connName = server_name s @ conn_suffix (ipPort s) (nextConnId s);
           conn = (new_TcpConnection connName sockfd)\<lparr>writeCompleteCallback := server_writeComplete s\<rparr>;
           p = \<lparr>ptr = allocated s, ptr_name = connName, ptr_loop = ioLoop\<rparr>;
           s1 = s\<lparr>threadPool := pool, nextConnId := nextConnId s + 1, allocated := allocated s + 1,
                  connections := om_put connName p (connections s)\<rparr>
       in Inr (conn, p, hand_to ioLoop (ConnectEstablished p) s1))"

definition removeConnection :: "ConnPtr \<Rightarrow> TcpServer \<Rightarrow> TcpServer" where
  "removeConnection p s = hand_to (server_loop s) (RemoveConnectionInLoop p) s"

definition removeConnectionInLoop :: "ConnPtr \<Rightarrow> TcpServer \<Rightarrow> TcpServer res" where
  "removeConnectionInLoop p s =
     (let (n, m) = om_erase (ptr_name p) (connections s)
      in ensure (n = 1) ''n == 1'' (Inr (hand_to (ptr_loop p) (ConnectDestroyed p) (s\<lparr>connections := m\<rparr>))))"

subsection \<open>Names\<close>

lemma conn_suffix_inject:
  assumes "length ip_port \<le> 51" "m < 10 ^ 10" "n < 10 ^ 10" "conn_suffix ip_port m = conn_suffix ip_port n"
  shows "m = n"
proof -
  have "conn_suffix ip_port k = ''-'' @ ip_port @ ''#'' @ dec_digits k" if "k < 10 ^ 10" for k
    unfolding conn_suffix_def using length_dec_digits_le [of 10 k] that assms(1) by (intro snprintf_fits) simp
  then show ?thesis using assms(2-4) by simp
qed

subsection \<open>Runs of a server\<close>

text \<open>
  The acceptor gets a connection; an established connection closes, once, and calls
  \<open>removeConnection\<close>; the base loop runs one of the removals it was handed. That is the oldest
  one when the base loop works off its functors, and the newest when a connection of the base
  loop itself closes, where \<open>runInLoop\<close> calls the function at once; the model allows any.
  \<open>created\<close> has every connection object, \<open>closing\<close> those whose close callback ran, \<open>removals\<close>
  the removals still to run.
\<close>

record server_world =
  srv :: TcpServer
  created :: "ConnPtr list"
  closing :: "ConnPtr list"
  removals :: "ConnPtr list"

datatype server_event = Accepts int | Closes ConnPtr | RunsRemoval nat

fun server_exec :: "server_event \<Rightarrow> server_world \<Rightarrow> server_world res option" where
  "server_exec (Accepts sockfd) w =
     Some (rbind (newConnection sockfd (srv w)) (\<lambda>(_, p, s). Inr (w\<lparr>srv := s, created := created w @ [p]\<rparr>)))"
| "server_exec (Closes p) w =
     (if p \<in> set (created w) \<and> p \<notin> set (closing w)
      then Some (Inr (w\<lparr>srv := removeConnection p (srv w), closing := closing w @ [p], removals := removals w @ [p]\<rparr>))
      else None)"
| "server_exec (RunsRemoval i) w =
     (if i < length (removals w)
      then Some (rbind (removeConnectionInLoop (removals w ! i) (srv w)) (\<lambda>s.
             Inr (w\<lparr>srv := s, removals := take i (removals w) @ drop (Suc i) (removals w)\<rparr>)))
      else None)"

inductive server_reach :: "TcpServer \<Rightarrow> server_world \<Rightarrow> bool" for s0 where
  init: "server_reach s0 \<lparr>srv = s0, created = [], closing = [], removals = []\<rparr>"
| step: "server_reach s0 w \<Longrightarrow> server_exec e w = Some (Inr w') \<Longrightarrow> server_reach s0 w'"

text \<open>The map holds exactly the connections that were created and are not removed yet.\<close>

definition conn_name_of :: "TcpServer \<Rightarrow> nat \<Rightarrow> string" where
  "conn_name_of s i = server_name s @ conn_suffix (ipPort s) (i + 1)"

definition names_inv :: "TcpServer \<Rightarrow> server_world \<Rightarrow> bool" where
  "names_inv s0 w \<longleftrightarrow>
     server_name (srv w) = server_name s0 \<and> ipPort (srv w) = ipPort s0 \<and> server_loop (srv w) = server_loop s0 \<and>
     pool_ok (threadPool (srv w)) \<and> nextConnId (srv w) = length (created w) + 1 \<and>
     map ptr_name (created w) = map (conn_name_of s0) [0..<length (created w)] \<and>
     distinct (closing w) \<and> set (closing w) \<subseteq> set (created w)"

definition in_map :: "server_world \<Rightarrow> ConnPtr set" where
  "in_map w = set (created w) - (set (closing w) - set (removals w))"

definition map_inv :: "server_world \<Rightarrow> bool" where
  "map_inv w \<longleftrightarrow>
     om_wf (connections (srv w)) \<and> distinct (removals w) \<and> set (removals w) \<subseteq> set (closing w) \<and>
     (\<forall>p. map_of (connections (srv w)) (ptr_name p) = Some p \<longleftrightarrow> p \<in> in_map w) \<and>
     (\<forall>k p. map_of (connections (srv w)) k = Some p \<longrightarrow> ptr_name p = k)"

definition server_inv :: "TcpServer \<Rightarrow> server_world \<Rightarrow> bool" where
  "server_inv s0 w \<longleftrightarrow> names_inv s0 w \<and> map_inv w"

lemma server_inv_names:
  assumes "server_inv s0 w" "length (ipPort s0) \<le> 51" "length (created w) < 10 ^ 9" "p \<in> set (created w)"
  shows "\<exists>i < length (created w). ptr_name p = conn_name_of s0 i \<and> created w ! i = p"
proof -
  obtain i where i: "i < length (created w)" "created w ! i = p" using assms(4) by (meson in_set_conv_nth)
  have "map ptr_name (created w) ! i = map (conn_name_of s0) [0..<length (created w)] ! i"
    using assms(1) by (simp add: server_inv_def names_inv_def)
  then show ?thesis using i by auto
qed

lemma conn_name_of_inject:
  assumes "length (ipPort s0) \<le> 51" "i < 10 ^ 9" "j < 10 ^ 9" "conn_name_of s0 i = conn_name_of s0 j"
  shows "i = j"
  using conn_suffix_inject [of "ipPort s0" "i + 1" "j + 1"] assms by (simp add: conn_name_of_def)

lemma same_name_same_conn:
  assumes "server_inv s0 w" "length (ipPort s0) \<le> 51" "length (created w) < 10 ^ 9"
    and "p \<in> set (created w)" "q \<in> set (created w)" "ptr_name p = ptr_name q"
  shows "p = q"
proof -
  obtain i where i: "i < length (created w)" "ptr_name p = conn_name_of s0 i" "created w ! i = p"
    using server_inv_names [OF assms(1-4)] by blast
  obtain j where j: "j < length (created w)" "ptr_name q = conn_name_of s0 j" "created w ! j = q"
    using server_inv_names [OF assms(1-3,5)] by blast
  have "i = j" using conn_name_of_inject [OF assms(2), of i j] i j assms(3,6) by simp
  then show ?thesis using i j by simp
qed

lemma new_name:
  assumes "server_inv s0 w" "length (ipPort s0) \<le> 51" "length (created w) < 10 ^ 9" "p \<in> set (created w)"
  shows "ptr_name p \<noteq> conn_name_of s0 (length (created w))"
proof
  assume eq: "ptr_name p = conn_name_of s0 (length (created w))"
  obtain i where i: "i < length (created w)" "ptr_name p = conn_name_of s0 i"
    using server_inv_names [OF assms] by blast
  then have "i = length (created w)" using conn_name_of_inject [OF assms(2), of i "length (created w)"] eq assms(3) by simp
  then show False using i(1) by simp
qed

lemma accept_inv:
  assumes inv: "server_inv s0 w" and small: "length (ipPort s0) \<le> 51" "length (created w) < 10 ^ 9"
  shows "\<exists>w'. server_exec (Accepts sockfd) w = Some (Inr w') \<and> server_inv s0 w'"
proof -
  have names: "names_inv s0 w" and map: "map_inv w" using inv by (simp_all add: server_inv_def)
  have sn: "server_name (srv w) = server_name s0" "ipPort (srv w) = ipPort s0" "nextConnId (srv w) = length (created w) + 1"
    using names by (simp_all add: names_inv_def)
  obtain pool where pool: "getNextLoop (threadPool (srv w)) =
      Inr (pool_members (threadPool (srv w)) ! pool_position (threadPool (srv w)), pool)" "pool_ok pool"
    using getNextLoop_ok names by (auto simp: names_inv_def)
  let ?k = "conn_name_of s0 (length (created w))"
  define q where "q = \<lparr>ptr = allocated (srv w), ptr_name = ?k,
      ptr_loop = pool_members (threadPool (srv w)) ! pool_position (threadPool (srv w))\<rparr>"
  have name: "server_name (srv w) @ conn_suffix (ipPort (srv w)) (nextConnId (srv w)) = ?k"
    by (simp add: conn_name_of_def sn)
  define s1 where "s1 = hand_to (ptr_loop q) (ConnectEstablished q)
      ((srv w)\<lparr>threadPool := pool, nextConnId := nextConnId (srv w) + 1, allocated := allocated (srv w) + 1,
        connections := om_put ?k q (connections (srv w))\<rparr>)"
  let ?w = "w\<lparr>srv := s1, created := created w @ [q]\<rparr>"
  have exec: "server_exec (Accepts sockfd) w = Some (Inr ?w)"
    using pool(1) by (simp add: newConnection_def Let_def name s1_def q_def)
  have s1: "server_name s1 = server_name s0" "ipPort s1 = ipPort s0" "server_loop s1 = server_loop (srv w)"
    "threadPool s1 = pool" "nextConnId s1 = length (created w) + 2" "connections s1 = om_put ?k q (connections (srv w))"
    by (simp_all add: s1_def hand_to_def sn)
  have qn: "ptr_name q = ?k" by (simp add: q_def)
  then have q: "ptr_name q = ?k" "q \<notin> set (created w)" using new_name [OF inv small, of q] by auto
  have closing: "set (closing w) \<subseteq> set (created w)" using names by (simp add: names_inv_def)
  have "map_of (connections s1) (ptr_name p) = Some p \<longleftrightarrow> p \<in> in_map ?w" for p
  proof (cases "ptr_name p = ?k")
    case True
    then have "p \<notin> set (created w)" using new_name [OF inv small] by blast
    then have "p \<in> in_map ?w \<longleftrightarrow> p = q" using closing q(2) by (auto simp: in_map_def)
    then show ?thesis using True s1(6) by auto
  next
    case False
    then have "p \<in> in_map ?w \<longleftrightarrow> p \<in> in_map w" using q(1) by (auto simp: in_map_def)
    then show ?thesis using map False s1(6) by (simp add: map_inv_def)
  qed
  moreover have "\<forall>k p. map_of (connections s1) k = Some p \<longrightarrow> ptr_name p = k"
    using map q(1) s1(6) by (simp add: map_inv_def)
  ultimately have "map_inv ?w" using map s1(6) by (simp add: map_inv_def om_wf_put)
  moreover have "names_inv s0 ?w" using names s1(1-5) pool(2) q(1) by (auto simp: names_inv_def)
  ultimately show ?thesis using exec by (auto simp: server_inv_def)
qed

lemma close_inv:
  assumes inv: "server_inv s0 w" and exec: "server_exec (Closes p) w = Some r"
  shows "\<exists>w'. r = Inr w' \<and> server_inv s0 w' \<and> length (created w') = length (created w)"
proof -
  let ?w = "w\<lparr>srv := removeConnection p (srv w), closing := closing w @ [p], removals := removals w @ [p]\<rparr>"
  have r: "r = Inr ?w" "p \<in> set (created w)" "p \<notin> set (closing w)" using exec by (auto split: if_splits)
  have names: "names_inv s0 w" and map: "map_inv w" using inv by (simp_all add: server_inv_def)
  have "in_map ?w = in_map w" using r(2,3) by (auto simp: in_map_def)
  moreover have "p \<notin> set (removals w)" using r(3) map by (auto simp: map_inv_def)
  ultimately have "map_inv ?w" using map by (auto simp: map_inv_def removeConnection_def hand_to_def)
  moreover have "names_inv s0 ?w"
    using names r(2,3) by (simp add: names_inv_def removeConnection_def hand_to_def)
  ultimately show ?thesis using r(1) by (auto simp: server_inv_def)
qed

lemma removal_inv:
  assumes inv: "server_inv s0 w" and small: "length (ipPort s0) \<le> 51" "length (created w) < 10 ^ 9"
    and exec: "server_exec (RunsRemoval i) w = Some r"
  shows "\<exists>w'. r = Inr w' \<and> server_inv s0 w' \<and> length (created w') = length (created w)"
proof -
  have names: "names_inv s0 w" and map: "map_inv w" using inv by (simp_all add: server_inv_def)
  have i: "i < length (removals w)" using exec by (auto split: if_splits)
  define p ps where "p = removals w ! i" and "ps = take i (removals w) @ drop (Suc i) (removals w)"
  have split: "removals w = take i (removals w) @ p # drop (Suc i) (removals w)"
    using i by (simp add: p_def id_take_nth_drop)
  have "distinct (take i (removals w) @ p # drop (Suc i) (removals w))"
    using map unfolding split [symmetric] by (simp add: map_inv_def)
  then have ps: "distinct ps" "p \<notin> set ps" by (auto simp: ps_def)
  have "set (take i (removals w) @ p # drop (Suc i) (removals w)) = insert p (set ps)" by (auto simp: ps_def)
  then have rem: "set (removals w) = insert p (set ps)" unfolding split [symmetric] .
  have p: "p \<in> set (created w)" "p \<in> set (closing w)" "p \<in> in_map w"
    using names map rem by (auto simp: names_inv_def map_inv_def in_map_def)
  then have found: "map_of (connections (srv w)) (ptr_name p) = Some p" using map by (simp add: map_inv_def)
  define s1 where "s1 = hand_to (ptr_loop p) (ConnectDestroyed p) ((srv w)\<lparr>connections := om_remove (ptr_name p) (connections (srv w))\<rparr>)"
  let ?w = "w\<lparr>srv := s1, removals := ps\<rparr>"
  have r: "r = Inr ?w" using exec i found by (simp add: removeConnectionInLoop_def om_erase_def s1_def p_def [symmetric] ps_def)
  have wf: "om_wf (connections (srv w))" using map by (simp add: map_inv_def)
  have c: "om_wf (connections s1)" using wf by (simp add: s1_def hand_to_def om_wf_remove)
  have m: "map_of (connections s1) = (map_of (connections (srv w)))(ptr_name p := None)"
    by (simp add: s1_def hand_to_def map_of_om_remove [OF wf])
  have in_map: "in_map ?w = in_map w - {p}" using p(2) ps rem by (auto simp: in_map_def)
  have "map_of (connections s1) (ptr_name q) = Some q \<longleftrightarrow> q \<in> in_map ?w" for q
  proof (cases "ptr_name q = ptr_name p")
    case True
    have "q \<notin> in_map ?w"
      using same_name_same_conn [OF inv small p(1), of q] True unfolding in_map by (auto simp: in_map_def)
    then show ?thesis unfolding m using True by simp
  next
    case False
    then have "q \<noteq> p" by blast
    then show ?thesis unfolding m in_map using map False by (simp add: map_inv_def)
  qed
  moreover have "\<forall>k q. map_of (connections s1) k = Some q \<longrightarrow> ptr_name q = k"
    unfolding m using map by (simp add: map_inv_def)
  ultimately have "map_inv ?w" using c ps rem map by (auto simp: map_inv_def)
  moreover have "names_inv s0 ?w" using names by (simp add: names_inv_def s1_def hand_to_def)
  ultimately show ?thesis using r by (auto simp: server_inv_def)
qed

lemma exec_created: "server_exec e w = Some (Inr w') \<Longrightarrow> length (created w) \<le> length (created w')"
  by (cases e) (auto split: if_splits list.splits)

lemma server_exec_inv:
  assumes "server_inv s0 w" "length (ipPort s0) \<le> 51" "length (created w) < 10 ^ 9" "server_exec e w = Some r"
  shows "\<exists>w'. r = Inr w' \<and> server_inv s0 w'"
proof (cases e)
  case (Accepts sockfd)
  then show ?thesis using accept_inv [OF assms(1-3), of sockfd] assms(4) by auto
next
  case (Closes p)
  then show ?thesis using close_inv [OF assms(1)] assms(4) by blast
next
  case (RunsRemoval i)
  then show ?thesis using removal_inv [OF assms(1-3)] assms(4) by blast
qed

text \<open>A server after \<open>setThreadNum\<close> and \<open>start\<close>.\<close>

definition started_server :: "(string \<Rightarrow> nat) \<Rightarrow> int \<Rightarrow> nat \<Rightarrow> string \<Rightarrow> string \<Rightarrow> TcpServer res" where
  "started_server startLoop n loop ip_port name =
     rbind (server_setThreadNum n (new_TcpServer loop ip_port name)) (server_start startLoop False)"

lemma started_server_inv:
  assumes "started_server startLoop n loop ip_port name = Inr s0"
  shows "server_inv s0 \<lparr>srv = s0, created = [], closing = [], removals = []\<rparr>" "ipPort s0 = ip_port"
proof -
  let ?p = "start_threads startLoop 0 (nat n)
    (pool_setThreadNum n (new_EventLoopThreadPool loop name)\<lparr>pool_started := True\<rparr>)"
  have s0: "threadPool s0 = ?p" "connections s0 = []" "nextConnId s0 = 1" "ipPort s0 = ip_port"
    using assms
    by (auto simp: started_server_def server_setThreadNum_def server_start_def new_TcpServer_def getAndSet_def pool_start_def
        pool_setThreadNum_def new_EventLoopThreadPool_def hand_to_def Let_def)
  have "pool_ok ?p"
    by (simp add: pool_ok_def start_threads_fields pool_setThreadNum_def new_EventLoopThreadPool_def)
  then show "server_inv s0 \<lparr>srv = s0, created = [], closing = [], removals = []\<rparr>"
    using s0 by (simp add: server_inv_def names_inv_def map_inv_def in_map_def)
  show "ipPort s0 = ip_port" by (rule s0(4))
qed

lemma server_reach_inv:
  "server_reach s0 w \<Longrightarrow> server_inv s0 \<lparr>srv = s0, created = [], closing = [], removals = []\<rparr> \<Longrightarrow>
   length (ipPort s0) \<le> 51 \<Longrightarrow> length (created w) < 10 ^ 9 \<Longrightarrow> server_inv s0 w"
proof (induction rule: server_reach.induct)
  case init
  then show ?case by simp
next
  case (step w e w')
  have "length (created w) < 10 ^ 9" using exec_created [OF step.hyps(2)] step.prems(3) by (rule le_less_trans)
  then show ?case using server_exec_inv [OF step.IH] step by blast
qed

subsection \<open>Properties\<close>

text \<open>C9: In every interleaving of accepted connections, connections that close and removals that
  the base loop runs later, a started server gives its connections distinct names, its map holds
  exactly those whose removal has not run, and no step fails an assertion, the one of
  \<open>removeConnectionInLoop\<close> included. The address has to leave room for the number in the 64-byte
  buffer of the name, and the connections are fewer than a thousand million.\<close>

theorem server_connections:
  assumes "started_server startLoop n loop ip_port name = Inr s0" "server_reach s0 w"
    and "length ip_port \<le> 51" "length (created w) < 10 ^ 9"
  shows "distinct (map ptr_name (created w)) \<and>
    {p. \<exists>k. map_of (connections (srv w)) k = Some p} = set (created w) - (set (closing w) - set (removals w)) \<and>
    (\<forall>e r. server_exec e w = Some r \<longrightarrow> (\<exists>w'. r = Inr w'))"
proof -
  have inv: "server_inv s0 w" and small: "length (ipPort s0) \<le> 51"
    using server_reach_inv [OF assms(2)] started_server_inv [OF assms(1)] assms(3,4) by simp_all
  have names: "names_inv s0 w" and map: "map_inv w" using inv by (simp_all add: server_inv_def)
  have "inj_on (conn_name_of s0) {0..<length (created w)}"
    using conn_name_of_inject [OF small] assms(4) by (auto intro!: inj_onI)
  then have 1: "distinct (map ptr_name (created w))" using names by (simp add: names_inv_def distinct_map)
  have "{p. \<exists>k. map_of (connections (srv w)) k = Some p} = {p. map_of (connections (srv w)) (ptr_name p) = Some p}"
    using map unfolding map_inv_def by blast
  then have 2: "{p. \<exists>k. map_of (connections (srv w)) k = Some p} = set (created w) - (set (closing w) - set (removals w))"
    using map by (auto simp: map_inv_def in_map_def)
  show ?thesis using 1 2 server_exec_inv [OF inv small assms(4)] by blast
qed

theorem server_connections_witness:
  "\<exists>s0 w. started_server (\<lambda>t. 7) 1 0 ''1.2.3.4:80'' ''srv'' = Inr s0 \<and> length (created w) = 1 \<and> server_reach s0 w \<and>
     {p. \<exists>k. map_of (connections (srv w)) k = Some p} = set (created w)"
proof -
  obtain s0 where s0: "started_server (\<lambda>t. 7) 1 0 ''1.2.3.4:80'' ''srv'' = Inr s0"
    by (simp add: started_server_def server_setThreadNum_def server_start_def new_TcpServer_def getAndSet_def pool_start_def
        pool_setThreadNum_def new_EventLoopThreadPool_def hand_to_def Let_def)
  let ?w = "\<lparr>srv = s0, created = [], closing = [], removals = []\<rparr>"
  obtain w where w: "server_exec (Accepts 5) ?w = Some (Inr w)"
    using accept_inv [OF started_server_inv(1) [OF s0]] started_server_inv(2) [OF s0] by force
  have c: "length (created w) = 1" "closing w = []" using w by auto
  have "server_reach s0 w" using server_reach.step [OF server_reach.init w] .
  then show ?thesis using server_connections [OF s0 _ _, of w] s0 c by auto
qed

end
