(* ===== verification/Connector.thy ===== *)
theory Connector
  imports Channel "HOL-Library.Multiset"
begin

section \<open>The connector (src/src/Connector.h, src/src/Connector.cpp)\<close>

text \<open>
  The state machine that opens a client connection and tries again, with growing delays, until
  it succeeds or is stopped. What the connector hands to the loop is kept in order: \<open>queued\<close>
  has the functors passed to \<open>queueInLoop\<close>, \<open>timers\<close> the delays in milliseconds of the
  \<open>startInLoop\<close> calls passed to \<open>runAfter\<close>. The sockets it closed and those it passed to the
  new-connection callback are recorded in \<open>closed_fds\<close> and \<open>handed_fds\<close>.

  The kernel answers through arguments: \<open>socket\<close> and the errno of \<open>connect(2)\<close>, \<open>SO_ERROR\<close>,
  and whether the socket was connected to itself.
\<close>

datatype States = kDisconnected | kConnecting | kConnected

datatype cn_functor = QStartInLoop | QStopInLoop | QResetChannel

record Connector =
  cn_connect :: bool
  cn_state :: States
  cn_channel :: "unit Channel option"
  retryDelayMs :: int
  queued :: "cn_functor list"
  timers :: "int list"
  opened_fds :: "int list"
  closed_fds :: "int list"
  handed_fds :: "int list"

definition kMaxRetryDelayMs :: int where "kMaxRetryDelayMs = 30 * 1000"
definition kInitRetryDelayMs :: int where "kInitRetryDelayMs = 500"

definition new_Connector :: Connector where
  "new_Connector =
     \<lparr>cn_connect = False, cn_state = kDisconnected, cn_channel = None, retryDelayMs = kInitRetryDelayMs,
      queued = [], timers = [], opened_fds = [], closed_fds = [], handed_fds = []\<rparr>"

definition delete_Connector :: "Connector \<Rightarrow> unit res" where
  "delete_Connector c = ensure (cn_channel c = None) ''!channel_'' (Inr ())"

definition cn_setState :: "States \<Rightarrow> Connector \<Rightarrow> Connector" where
  "cn_setState s c = c\<lparr>cn_state := s\<rparr>"

definition sockets_close :: "int \<Rightarrow> Connector \<Rightarrow> Connector" where
  "sockets_close sockfd c = c\<lparr>closed_fds := closed_fds c @ [sockfd]\<rparr>"

definition cn_queueInLoop :: "cn_functor \<Rightarrow> Connector \<Rightarrow> Connector" where
  "cn_queueInLoop f c = c\<lparr>queued := queued c @ [f]\<rparr>"

subsection \<open>Connecting\<close>

definition retry :: "int \<Rightarrow> Connector \<Rightarrow> Connector" where
  "retry sockfd c =
     (let c1 = cn_setState kDisconnected (sockets_close sockfd c)
      in if cn_connect c1
         then c1\<lparr>timers := timers c1 @ [retryDelayMs c1], retryDelayMs := min (retryDelayMs c1 * 2) kMaxRetryDelayMs\<rparr>
         else c1)"

definition connecting :: "int \<Rightarrow> Connector \<Rightarrow> Connector res" where
  "connecting sockfd c =
     (let c1 = cn_setState kConnecting c
      in ensure (cn_channel c1 = None) ''!channel_''
         (let ch = setErrorCallback () (setWriteCallback () (new_Channel sockfd))
          in Inr (c1\<lparr>cn_channel := Some ((channel_apply EnableWriting ch)\<lparr>addedToLoop := True\<rparr>)\<rparr>)))"

definition EPERM :: int where "EPERM = 1"
definition EINTR :: int where "EINTR = 4"
definition EBADF :: int where "EBADF = 9"
definition EAGAIN :: int where "EAGAIN = 11"
definition EACCES :: int where "EACCES = 13"
definition EFAULT :: int where "EFAULT = 14"
definition ENOTSOCK :: int where "ENOTSOCK = 88"
definition EAFNOSUPPORT :: int where "EAFNOSUPPORT = 97"
definition EADDRINUSE :: int where "EADDRINUSE = 98"
definition EADDRNOTAVAIL :: int where "EADDRNOTAVAIL = 99"
definition ENETUNREACH :: int where "ENETUNREACH = 101"
definition EISCONN :: int where "EISCONN = 106"
definition ECONNREFUSED :: int where "ECONNREFUSED = 111"
definition EALREADY :: int where "EALREADY = 114"
definition EINPROGRESS :: int where "EINPROGRESS = 115"

lemmas errno_defs = EPERM_def EINTR_def EBADF_def EAGAIN_def EACCES_def EFAULT_def ENOTSOCK_def EAFNOSUPPORT_def
  EADDRINUSE_def EADDRNOTAVAIL_def ENETUNREACH_def EISCONN_def ECONNREFUSED_def EALREADY_def EINPROGRESS_def

text \<open>\<open>sockfd\<close> is the descriptor that \<open>createNonblockingOrDie\<close> returns, \<open>savedErrno\<close> is 0 or
  the errno of \<open>connect\<close>.\<close>

definition cn_connect_to :: "int \<Rightarrow> int \<Rightarrow> Connector \<Rightarrow> Connector res" where
  "cn_connect_to sockfd savedErrno c =
     (let c = c\<lparr>opened_fds := opened_fds c @ [sockfd]\<rparr>
      in if savedErrno \<in> {0, EINPROGRESS, EINTR, EISCONN} then connecting sockfd c
         else if savedErrno \<in> {EAGAIN, EADDRINUSE, EADDRNOTAVAIL, ECONNREFUSED, ENETUNREACH} then Inr (retry sockfd c)
         else if savedErrno \<in> {EACCES, EPERM, EAFNOSUPPORT, EALREADY, EBADF, EFAULT, ENOTSOCK} then Inr (sockets_close sockfd c)
         else Inr (sockets_close sockfd c))"

definition startInLoop :: "int \<Rightarrow> int \<Rightarrow> Connector \<Rightarrow> Connector res" where
  "startInLoop sockfd savedErrno c =
     ensure (cn_state c = kDisconnected) ''state_ == kDisconnected''
     (if cn_connect c then cn_connect_to sockfd savedErrno c else Inr c)"

text \<open>\<open>start()\<close> runs \<open>startInLoop\<close> at once in the thread of the loop and queues it in another.\<close>

definition cn_start :: "bool \<Rightarrow> int \<Rightarrow> int \<Rightarrow> Connector \<Rightarrow> Connector res" where
  "cn_start inLoopThread sockfd savedErrno c =
     (let c1 = c\<lparr>cn_connect := True\<rparr>
      in if inLoopThread then startInLoop sockfd savedErrno c1 else Inr (cn_queueInLoop QStartInLoop c1))"

definition cn_stop :: "Connector \<Rightarrow> Connector" where
  "cn_stop c = cn_queueInLoop QStopInLoop (c\<lparr>cn_connect := False\<rparr>)"

definition cn_restart :: "int \<Rightarrow> int \<Rightarrow> Connector \<Rightarrow> Connector res" where
  "cn_restart sockfd savedErrno c =
     startInLoop sockfd savedErrno ((cn_setState kDisconnected c)\<lparr>retryDelayMs := kInitRetryDelayMs, cn_connect := True\<rparr>)"

subsection \<open>The channel of a pending connect\<close>

definition removeAndResetChannel :: "Connector \<Rightarrow> (int \<times> Connector) res" where
  "removeAndResetChannel c =
     (case cn_channel c of
        None \<Rightarrow> Inl (UndefinedBehaviour ''channel_ is null'')
      | Some ch \<Rightarrow>
          (let ch1 = channel_apply DisableAll ch
           in ensure (isNoneEvent ch1) ''isNoneEvent()''
              (Inr (fd ch1, cn_queueInLoop QResetChannel (c\<lparr>cn_channel := Some (ch1\<lparr>addedToLoop := False\<rparr>)\<rparr>)))))"

definition resetChannel :: "Connector \<Rightarrow> Connector" where
  "resetChannel c = c\<lparr>cn_channel := None\<rparr>"

definition stopInLoop :: "Connector \<Rightarrow> Connector res" where
  "stopInLoop c =
     (if cn_state c = kConnecting
      then rbind (removeAndResetChannel (cn_setState kDisconnected c)) (\<lambda>(sockfd, c1). Inr (retry sockfd c1))
      else Inr c)"

definition cn_handleWrite :: "int \<Rightarrow> bool \<Rightarrow> Connector \<Rightarrow> Connector res" where
  "cn_handleWrite so_error selfConnect c =
     (if cn_state c = kConnecting
      then rbind (removeAndResetChannel c) (\<lambda>(sockfd, c1).
             if so_error \<noteq> 0 then Inr (retry sockfd c1)
             else if selfConnect then Inr (retry sockfd c1)
             else let c2 = cn_setState kConnected c1
                  in Inr (if cn_connect c2 then c2\<lparr>handed_fds := handed_fds c2 @ [sockfd]\<rparr> else sockets_close sockfd c2))
      else ensure (cn_state c = kDisconnected) ''state_ == kDisconnected'' (Inr c))"

definition cn_handleError :: "Connector \<Rightarrow> Connector res" where
  "cn_handleError c =
     (if cn_state c = kConnecting
      then rbind (removeAndResetChannel c) (\<lambda>(sockfd, c1). Inr (retry sockfd c1))
      else Inr c)"

subsection \<open>Runs of the connector in its loop\<close>

text \<open>
  The steps of a connector that was started once: the loop runs the next queued functor, a timer
  fires, the channel reports events (the error callback comes before the write callback), the
  user stops it, the client that lost its connection restarts it. A functor or timer that calls
  \<open>connect\<close> carries the answers of the kernel.

  A timer fires and a client restarts only when no \<open>resetChannel\<close> is queued: delays are at
  least half a second, and the loop runs queued functors in the pass in which the events were
  handled.
\<close>

datatype cn_event =
    RunFunctor int int
  | TimerFires int int
  | ChannelEvent bool bool int bool
  | UserStop
  | ClientRestart int int

fun cn_exec :: "cn_event \<Rightarrow> Connector \<Rightarrow> Connector res option" where
  "cn_exec (RunFunctor sockfd err) c =
     (case queued c of
        [] \<Rightarrow> None
      | f # fs \<Rightarrow>
          (let c1 = c\<lparr>queued := fs\<rparr>
           in Some (case f of
                QStartInLoop \<Rightarrow> startInLoop sockfd err c1
              | QStopInLoop \<Rightarrow> stopInLoop c1
              | QResetChannel \<Rightarrow> Inr (resetChannel c1))))"
| "cn_exec (TimerFires sockfd err) c =
     (case timers c of
        [] \<Rightarrow> None
      | t # ts \<Rightarrow> (if QResetChannel \<in> set (queued c) then None else Some (startInLoop sockfd err (c\<lparr>timers := ts\<rparr>))))"
| "cn_exec (ChannelEvent err wr so_error selfConnect) c =
     (case cn_channel c of
        None \<Rightarrow> None
      | Some ch \<Rightarrow>
          (if addedToLoop ch
           then Some (rbind (if err then cn_handleError c else Inr c) (\<lambda>c1. if wr then cn_handleWrite so_error selfConnect c1 else Inr c1))
           else None))"
| "cn_exec UserStop c = Some (Inr (cn_stop c))"
| "cn_exec (ClientRestart sockfd err) c =
     (if cn_state c = kConnected \<and> QResetChannel \<notin> set (queued c) then Some (cn_restart sockfd err c) else None)"

inductive cn_reach :: "Connector \<Rightarrow> bool" where
  started: "cn_start inLoopThread sockfd err new_Connector = Inr c \<Longrightarrow> cn_reach c"
| step: "cn_reach c \<Longrightarrow> cn_exec e c = Some (Inr c') \<Longrightarrow> cn_reach c'"

text \<open>
  The invariant: at most one attempt is under way (a queued or timed start, a pending connect, or
  an established connection); there is a channel exactly while a connect is pending or the reset
  is queued; every socket opened is in exactly one place; the delay stays in its range.
\<close>

definition attempts :: "Connector \<Rightarrow> nat" where
  "attempts c = count_list (queued c) QStartInLoop + length (timers c) + (if cn_state c = kDisconnected then 0 else 1)"

definition pending_fds :: "Connector \<Rightarrow> int list" where
  "pending_fds c = (if cn_state c = kConnecting then (case cn_channel c of Some ch \<Rightarrow> [fd ch] | None \<Rightarrow> []) else [])"

definition cn_inv :: "Connector \<Rightarrow> bool" where
  "cn_inv c \<longleftrightarrow>
     attempts c \<le> 1 \<and>
     (cn_state c = kConnecting \<longrightarrow> (\<exists>ch. cn_channel c = Some ch \<and> addedToLoop ch) \<and> QResetChannel \<notin> set (queued c)) \<and>
     (cn_state c \<noteq> kConnecting \<longrightarrow> (\<forall>ch. cn_channel c = Some ch \<longrightarrow> \<not> addedToLoop ch \<and> QResetChannel \<in> set (queued c))) \<and>
     (QStartInLoop \<in> set (queued c) \<longrightarrow> cn_channel c = None \<and> QResetChannel \<notin> set (queued c)) \<and>
     kInitRetryDelayMs \<le> retryDelayMs c \<and> retryDelayMs c \<le> kMaxRetryDelayMs"

definition fds_inv :: "Connector \<Rightarrow> bool" where
  "fds_inv c \<longleftrightarrow> mset (opened_fds c) = mset (closed_fds c) + mset (handed_fds c) + mset (pending_fds c)"

lemmas cn_simps = cn_setState_def sockets_close_def cn_queueInLoop_def

lemma isNoneEvent_DisableAll [simp]: "isNoneEvent (channel_apply DisableAll ch)"
  by (simp add: channel_apply_def isNoneEvent_def)

lemma fd_channel_apply [simp]: "fd (channel_apply op ch) = fd ch"
  by (simp add: channel_apply_def)

lemma delay_doubles:
  "kInitRetryDelayMs \<le> d \<Longrightarrow> d \<le> kMaxRetryDelayMs \<Longrightarrow>
   kInitRetryDelayMs \<le> min (d * 2) kMaxRetryDelayMs \<and> min (d * 2) kMaxRetryDelayMs \<le> kMaxRetryDelayMs"
  by (auto simp: kInitRetryDelayMs_def kMaxRetryDelayMs_def)

text \<open>A connector with nothing under way.\<close>

definition cn_idle :: "Connector \<Rightarrow> bool" where
  "cn_idle c \<longleftrightarrow> attempts c = 0 \<and> cn_channel c = None \<and> QResetChannel \<notin> set (queued c) \<and>
     kInitRetryDelayMs \<le> retryDelayMs c \<and> retryDelayMs c \<le> kMaxRetryDelayMs"

lemma cn_idle_state: "cn_idle c \<Longrightarrow> cn_state c = kDisconnected"
  by (simp add: cn_idle_def attempts_def split: if_splits)

lemma startInLoop_inv:
  assumes "cn_idle c" "fds_inv c"
  shows "\<exists>c'. startInLoop sockfd err c = Inr c' \<and> cn_inv c' \<and> fds_inv c'"
proof -
  have c: "cn_state c = kDisconnected" "cn_channel c = None" "count_list (queued c) QStartInLoop = 0" "timers c = []"
    "QResetChannel \<notin> set (queued c)" "QStartInLoop \<notin> set (queued c)"
    "kInitRetryDelayMs \<le> retryDelayMs c" "retryDelayMs c \<le> kMaxRetryDelayMs"
    using assms(1) cn_idle_state [OF assms(1)] by (auto simp: cn_idle_def attempts_def count_list_0_iff)
  note d = delay_doubles [OF c(7,8)]
  have conn: "\<exists>c'. connecting sockfd (c\<lparr>opened_fds := opened_fds c @ [sockfd]\<rparr>) = Inr c' \<and> cn_inv c' \<and> fds_inv c'"
    using c assms(2)
    by (simp add: connecting_def cn_setState_def cn_inv_def attempts_def fds_inv_def pending_fds_def
        setErrorCallback_def setWriteCallback_def new_Channel_def)
  have again: "cn_inv (retry sockfd (c\<lparr>opened_fds := opened_fds c @ [sockfd]\<rparr>)) \<and>
      fds_inv (retry sockfd (c\<lparr>opened_fds := opened_fds c @ [sockfd]\<rparr>))"
    using c assms(2) d by (simp add: retry_def cn_simps cn_inv_def attempts_def fds_inv_def pending_fds_def Let_def)
  have give_up: "cn_inv (sockets_close sockfd (c\<lparr>opened_fds := opened_fds c @ [sockfd]\<rparr>)) \<and>
      fds_inv (sockets_close sockfd (c\<lparr>opened_fds := opened_fds c @ [sockfd]\<rparr>))"
    using c assms(2) by (simp add: cn_simps cn_inv_def attempts_def fds_inv_def pending_fds_def)
  have idle: "cn_inv c" using c by (simp add: cn_inv_def attempts_def)
  show ?thesis
    using conn again give_up idle assms(2) c(1) by (simp add: startInLoop_def cn_connect_to_def Let_def)
qed

text \<open>Leaving the state of a pending connect: the channel is taken out and its reset queued.\<close>

lemma pending_channel:
  assumes "cn_inv c" "cn_state c = kConnecting"
  obtains ch ch' where "cn_channel c = Some ch" "addedToLoop ch" "\<not> addedToLoop ch'"
    "removeAndResetChannel c = Inr (fd ch, c\<lparr>cn_channel := Some ch', queued := queued c @ [QResetChannel]\<rparr>)"
    "removeAndResetChannel (cn_setState kDisconnected c) =
       Inr (fd ch, c\<lparr>cn_state := kDisconnected, cn_channel := Some ch', queued := queued c @ [QResetChannel]\<rparr>)"
    "count_list (queued c) QStartInLoop = 0" "QStartInLoop \<notin> set (queued c)" "timers c = []"
proof -
  obtain ch where ch: "cn_channel c = Some ch" "addedToLoop ch" using assms by (auto simp: cn_inv_def)
  have "count_list (queued c) QStartInLoop = 0" "timers c = []" using assms by (auto simp: cn_inv_def attempts_def)
  moreover from this have "QStartInLoop \<notin> set (queued c)" by (simp add: count_list_0_iff)
  ultimately show ?thesis
    using that [OF ch, of "(channel_apply DisableAll ch)\<lparr>addedToLoop := False\<rparr>"] ch(1)
    by (simp add: removeAndResetChannel_def cn_queueInLoop_def cn_setState_def Let_def)
qed

lemma fail_inv:
  assumes "cn_inv c" "fds_inv c" "cn_state c = kConnecting"
  shows "\<exists>sockfd c1. removeAndResetChannel c = Inr (sockfd, c1) \<and> cn_inv (retry sockfd c1) \<and> fds_inv (retry sockfd c1)"
    "\<exists>sockfd c1. removeAndResetChannel (cn_setState kDisconnected c) = Inr (sockfd, c1) \<and>
       cn_inv (retry sockfd c1) \<and> fds_inv (retry sockfd c1)"
proof -
  obtain ch ch' where ch: "cn_channel c = Some ch" "addedToLoop ch" "\<not> addedToLoop ch'"
    "removeAndResetChannel c = Inr (fd ch, c\<lparr>cn_channel := Some ch', queued := queued c @ [QResetChannel]\<rparr>)"
    "removeAndResetChannel (cn_setState kDisconnected c) =
       Inr (fd ch, c\<lparr>cn_state := kDisconnected, cn_channel := Some ch', queued := queued c @ [QResetChannel]\<rparr>)"
    "count_list (queued c) QStartInLoop = 0" "QStartInLoop \<notin> set (queued c)" "timers c = []"
    by (rule pending_channel [OF assms(1,3)])
  have d: "kInitRetryDelayMs \<le> retryDelayMs c" "retryDelayMs c \<le> kMaxRetryDelayMs" using assms(1) by (simp_all add: cn_inv_def)
  have f: "mset (opened_fds c) = add_mset (fd ch) (mset (closed_fds c) + mset (handed_fds c))"
    using assms(2,3) ch(1) by (simp add: fds_inv_def pending_fds_def)
  have "cn_inv (retry (fd ch) (c\<lparr>cn_channel := Some ch', queued := queued c @ [QResetChannel]\<rparr>)) \<and>
      fds_inv (retry (fd ch) (c\<lparr>cn_channel := Some ch', queued := queued c @ [QResetChannel]\<rparr>))"
    "cn_inv (retry (fd ch) (c\<lparr>cn_state := kDisconnected, cn_channel := Some ch', queued := queued c @ [QResetChannel]\<rparr>)) \<and>
      fds_inv (retry (fd ch) (c\<lparr>cn_state := kDisconnected, cn_channel := Some ch', queued := queued c @ [QResetChannel]\<rparr>))"
    using ch(3,6-8) d delay_doubles [OF d] f
    by (simp_all add: retry_def cn_simps cn_inv_def attempts_def fds_inv_def pending_fds_def Let_def)
  then show "\<exists>sockfd c1. removeAndResetChannel c = Inr (sockfd, c1) \<and> cn_inv (retry sockfd c1) \<and> fds_inv (retry sockfd c1)"
    "\<exists>sockfd c1. removeAndResetChannel (cn_setState kDisconnected c) = Inr (sockfd, c1) \<and>
       cn_inv (retry sockfd c1) \<and> fds_inv (retry sockfd c1)"
    using ch(4,5) by auto
qed

lemma success_inv:
  assumes "cn_inv c" "fds_inv c" "cn_state c = kConnecting"
  shows "\<exists>c'. cn_handleWrite so_error selfConnect c = Inr c' \<and> cn_inv c' \<and> fds_inv c'"
proof -
  obtain ch ch' where ch: "cn_channel c = Some ch" "addedToLoop ch" "\<not> addedToLoop ch'"
    "removeAndResetChannel c = Inr (fd ch, c\<lparr>cn_channel := Some ch', queued := queued c @ [QResetChannel]\<rparr>)"
    "removeAndResetChannel (cn_setState kDisconnected c) =
       Inr (fd ch, c\<lparr>cn_state := kDisconnected, cn_channel := Some ch', queued := queued c @ [QResetChannel]\<rparr>)"
    "count_list (queued c) QStartInLoop = 0" "QStartInLoop \<notin> set (queued c)" "timers c = []"
    by (rule pending_channel [OF assms(1,3)])
  have d: "kInitRetryDelayMs \<le> retryDelayMs c" "retryDelayMs c \<le> kMaxRetryDelayMs" using assms(1) by (simp_all add: cn_inv_def)
  have f: "mset (opened_fds c) = add_mset (fd ch) (mset (closed_fds c) + mset (handed_fds c))"
    using assms(2,3) ch(1) by (simp add: fds_inv_def pending_fds_def)
  let ?c1 = "c\<lparr>cn_channel := Some ch', queued := queued c @ [QResetChannel]\<rparr>"
  let ?c2 = "?c1\<lparr>cn_state := kConnected\<rparr>"
  have r: "cn_inv (retry (fd ch) ?c1)" "fds_inv (retry (fd ch) ?c1)" using fail_inv(1) [OF assms] ch(4) by auto
  have "cn_inv (?c2\<lparr>handed_fds := handed_fds ?c2 @ [fd ch]\<rparr>)" "fds_inv (?c2\<lparr>handed_fds := handed_fds ?c2 @ [fd ch]\<rparr>)"
    "cn_inv (sockets_close (fd ch) ?c2)" "fds_inv (sockets_close (fd ch) ?c2)"
    using ch(3,6-8) d f by (simp_all add: cn_simps cn_inv_def attempts_def fds_inv_def pending_fds_def)
  then show ?thesis
    using r assms(3) ch(4) by (simp add: cn_handleWrite_def cn_setState_def Let_def)
qed

lemma state_retry [simp]: "cn_state (retry sockfd c) = kDisconnected"
  by (simp add: retry_def cn_simps Let_def)

lemma cn_inv_channel:
  assumes "cn_inv c" "cn_state c \<noteq> kConnecting" "QResetChannel \<notin> set (queued c)"
  shows "cn_channel c = None"
  using assms by (cases "cn_channel c") (auto simp: cn_inv_def)

lemma run_functor_inv:
  assumes "cn_inv c" "fds_inv c" "cn_exec (RunFunctor sockfd err) c = Some r"
  shows "\<exists>c'. r = Inr c' \<and> cn_inv c' \<and> fds_inv c'"
proof -
  obtain f fs where q: "queued c = f # fs" using assms(3) by (auto split: list.splits)
  let ?c = "c\<lparr>queued := fs\<rparr>"
  have fds: "fds_inv ?c" using assms(2) by (simp add: fds_inv_def pending_fds_def)
  show ?thesis
  proof (cases f)
    case QStartInLoop
    then have "cn_idle ?c" using assms(1) q by (auto simp: cn_idle_def cn_inv_def attempts_def split: if_splits)
    then show ?thesis using startInLoop_inv [OF _ fds] assms(3) q QStartInLoop by auto
  next
    case QStopInLoop
    have "cn_inv ?c" using assms(1) q QStopInLoop by (auto simp: cn_inv_def attempts_def)
    then show ?thesis using fail_inv(2) [OF _ fds] fds assms(3) q QStopInLoop
      by (cases "cn_state c = kConnecting") (auto simp: stopInLoop_def)
  next
    case QResetChannel
    then have "cn_inv (resetChannel ?c)" "fds_inv (resetChannel ?c)"
      using assms(1,2) q by (auto simp: cn_inv_def attempts_def resetChannel_def fds_inv_def pending_fds_def)
    then show ?thesis using assms(3) q QResetChannel by auto
  qed
qed

lemma timer_inv:
  assumes "cn_inv c" "fds_inv c" "cn_exec (TimerFires sockfd err) c = Some r"
  shows "\<exists>c'. r = Inr c' \<and> cn_inv c' \<and> fds_inv c'"
proof -
  obtain t ts where t: "timers c = t # ts" "QResetChannel \<notin> set (queued c)" "r = startInLoop sockfd err (c\<lparr>timers := ts\<rparr>)"
    using assms(3) by (auto split: list.splits if_splits)
  then have "cn_state c = kDisconnected" using assms(1) by (auto simp: cn_inv_def attempts_def split: if_splits)
  then have "cn_idle (c\<lparr>timers := ts\<rparr>)"
    using assms(1) t cn_inv_channel [OF assms(1)] by (auto simp: cn_idle_def cn_inv_def attempts_def)
  moreover have "fds_inv (c\<lparr>timers := ts\<rparr>)" using assms(2) by (simp add: fds_inv_def pending_fds_def)
  ultimately show ?thesis using startInLoop_inv t(3) by simp
qed

lemma channel_event_inv:
  assumes "cn_inv c" "fds_inv c" "cn_exec (ChannelEvent err wr so_error selfConnect) c = Some r"
  shows "\<exists>c'. r = Inr c' \<and> cn_inv c' \<and> fds_inv c'"
proof -
  obtain ch where "cn_channel c = Some ch" "addedToLoop ch" using assms(3) by (auto split: option.splits if_splits)
  then have st: "cn_state c = kConnecting" using assms(1) by (auto simp: cn_inv_def)
  have r: "r = rbind (if err then cn_handleError c else Inr c) (\<lambda>c1. if wr then cn_handleWrite so_error selfConnect c1 else Inr c1)"
    using assms(3) by (auto split: option.splits if_splits)
  show ?thesis
  proof (cases err)
    case True
    obtain c1 where "cn_handleError c = Inr c1" "cn_inv c1" "fds_inv c1" "cn_state c1 = kDisconnected"
      using fail_inv(1) [OF assms(1,2) st] st by (auto simp: cn_handleError_def)
    then show ?thesis using True r by (simp add: cn_handleWrite_def)
  next
    case False
    then show ?thesis using r success_inv [OF assms(1,2) st] assms(1,2) by auto
  qed
qed

lemma restart_inv:
  assumes "cn_inv c" "fds_inv c" "cn_exec (ClientRestart sockfd err) c = Some r"
  shows "\<exists>c'. r = Inr c' \<and> cn_inv c' \<and> fds_inv c'"
proof -
  have st: "cn_state c = kConnected" "QResetChannel \<notin> set (queued c)" "r = cn_restart sockfd err c"
    using assms(3) by (auto split: if_splits)
  let ?c = "(cn_setState kDisconnected c)\<lparr>retryDelayMs := kInitRetryDelayMs, cn_connect := True\<rparr>"
  have "cn_channel c = None" using cn_inv_channel [OF assms(1)] st by simp
  then have "cn_idle ?c" "fds_inv ?c"
    using assms(1,2) st
    by (auto simp: cn_idle_def cn_inv_def attempts_def cn_setState_def fds_inv_def pending_fds_def
        kInitRetryDelayMs_def kMaxRetryDelayMs_def)
  then show ?thesis using startInLoop_inv st(3) by (simp add: cn_restart_def)
qed

lemma cn_exec_inv:
  assumes "cn_inv c" "fds_inv c" "cn_exec e c = Some r"
  shows "\<exists>c'. r = Inr c' \<and> cn_inv c' \<and> fds_inv c'"
proof (cases e)
  case UserStop
  then show ?thesis
    using assms by (auto simp: cn_stop_def cn_queueInLoop_def cn_inv_def attempts_def fds_inv_def pending_fds_def)
qed (use assms run_functor_inv timer_inv channel_event_inv restart_inv in blast)+

lemma cn_reach_inv: "cn_reach c \<Longrightarrow> cn_inv c \<and> fds_inv c"
proof (induction rule: cn_reach.induct)
  case (started inLoop sockfd err c)
  show ?case
  proof (cases inLoop)
    case True
    have "cn_idle (new_Connector\<lparr>cn_connect := True\<rparr>)" "fds_inv (new_Connector\<lparr>cn_connect := True\<rparr>)"
      by (simp_all add: new_Connector_def cn_idle_def attempts_def fds_inv_def pending_fds_def
          kInitRetryDelayMs_def kMaxRetryDelayMs_def)
    then show ?thesis using startInLoop_inv [of "new_Connector\<lparr>cn_connect := True\<rparr>" sockfd err] started True
      by (auto simp: cn_start_def)
  next
    case False
    then have "c = cn_queueInLoop QStartInLoop (new_Connector\<lparr>cn_connect := True\<rparr>)"
      using started by (simp add: cn_start_def)
    then show ?thesis
      by (simp add: new_Connector_def cn_queueInLoop_def cn_inv_def attempts_def fds_inv_def pending_fds_def
          kInitRetryDelayMs_def kMaxRetryDelayMs_def)
  qed
next
  case (step c e c')
  then show ?case using cn_exec_inv by fastforce
qed

subsection \<open>Back-off\<close>

text \<open>A run in which every attempt is refused: the timer fires and \<open>connect\<close> fails again.\<close>

fun refused_runs :: "nat \<Rightarrow> Connector \<Rightarrow> Connector res" where
  "refused_runs 0 c = Inr c"
| "refused_runs (Suc n) c =
     rbind (refused_runs n c) (\<lambda>c1.
       case cn_exec (TimerFires (int n) ECONNREFUSED) c1 of None \<Rightarrow> Inl (UndefinedBehaviour ''no timer'') | Some r \<Rightarrow> r)"

lemma startInLoop_refused:
  "cn_state c = kDisconnected \<Longrightarrow> cn_connect c \<Longrightarrow>
   startInLoop sockfd ECONNREFUSED c = Inr (retry sockfd (c\<lparr>opened_fds := opened_fds c @ [sockfd]\<rparr>))"
  by (simp add: startInLoop_def cn_connect_to_def errno_defs)

lemma refused_runs_delay:
  assumes "cn_state c = kDisconnected" "cn_connect c" "timers c = [d]" "retryDelayMs c = min (500 * 2 ^ k) 30000"
    "QResetChannel \<notin> set (queued c)"
  shows "\<exists>c'. refused_runs n c = Inr c' \<and> cn_state c' = kDisconnected \<and> cn_connect c' \<and>
    QResetChannel \<notin> set (queued c') \<and> retryDelayMs c' = min (500 * 2 ^ (k + n)) 30000 \<and>
    timers c' = [if n = 0 then d else min (500 * 2 ^ (k + n - 1)) 30000]"
proof (induction n)
  case 0
  then show ?case using assms by simp
next
  case (Suc n)
  then obtain c1 where c1: "refused_runs n c = Inr c1" "cn_state c1 = kDisconnected" "cn_connect c1"
    "QResetChannel \<notin> set (queued c1)" "retryDelayMs c1 = min (500 * 2 ^ (k + n)) 30000"
    "timers c1 = [if n = 0 then d else min (500 * 2 ^ (k + n - 1)) 30000]" by blast
  have "min (min (500 * 2 ^ (k + n)) 30000 * 2) 30000 = min (500 * 2 ^ (k + Suc n)) (30000::int)"
    by (simp add: min_def)
  then show ?case
    using c1 by (simp add: startInLoop_refused retry_def cn_simps Let_def kMaxRetryDelayMs_def)
qed

subsection \<open>Properties\<close>



text \<open>C32: Back-off: when every attempt is refused, attempt after attempt is made, and the delay
  before the next one is 500 ms, doubled with each failure, and never more than 30 s.\<close>

theorem connector_backoff:
  "\<exists>c. rbind (cn_start True 3 ECONNREFUSED new_Connector) (refused_runs n) = Inr c \<and>
     timers c = [min (500 * 2 ^ n) 30000]"
proof -
  let ?c = "new_Connector\<lparr>cn_connect := True, opened_fds := [3], closed_fds := [3], timers := [500], retryDelayMs := 1000\<rparr>"
  have "cn_start True 3 ECONNREFUSED new_Connector = Inr ?c"
    by (simp add: cn_start_def startInLoop_refused retry_def cn_simps new_Connector_def kInitRetryDelayMs_def kMaxRetryDelayMs_def)
  moreover obtain c where "refused_runs n ?c = Inr c" "timers c = [if n = 0 then 500 else min (500 * 2 ^ (1 + n - 1)) 30000]"
    by (rule exE [OF refused_runs_delay [of ?c 500 1 n]]) (auto simp: new_Connector_def)
  ultimately show ?thesis by (intro exI [of _ c]) (simp split: if_splits)
qed

text \<open>A connector that is stopped while its socket becomes writable stays in the state
  \<open>kConnected\<close> although it closed the socket, so that a later \<open>start()\<close> fails the assertion
  of \<open>startInLoop\<close>; so does a second \<open>start()\<close> while a connect is pending.\<close>

lemma connector_start_aborts:
  "(\<exists>c c1 c2. cn_start True 3 EINPROGRESS new_Connector = Inr c \<and>
     cn_exec UserStop c = Some (Inr c1) \<and> cn_exec (ChannelEvent False True 0 False) c1 = Some (Inr c2) \<and>
     cn_state c2 = kConnected \<and> closed_fds c2 = [3] \<and>
     cn_start True 4 err c2 = Inl (AssertionFailed ''state_ == kDisconnected'')) \<and>
   (\<exists>c. cn_start True 3 EINPROGRESS new_Connector = Inr c \<and>
     cn_start True 4 err c = Inl (AssertionFailed ''state_ == kDisconnected''))"
  by (simp add: cn_start_def startInLoop_def cn_connect_to_def connecting_def cn_simps new_Connector_def cn_stop_def
      cn_handleWrite_def removeAndResetChannel_def setErrorCallback_def setWriteCallback_def new_Channel_def
      ensure_fails Let_def)

end
