(* ===== verification/TcpClient.thy ===== *)
theory TcpClient
  imports TcpConnection Connector
begin

section \<open>The client (src/src/TcpClient.h, src/src/TcpClient.cpp)\<close>

text \<open>
  A client owns a connector and at most one connection, and starts the connector again when its
  connection goes down. The connection is a pointer, a number, with the object behind it. What the
  client hands to the loop is recorded in \<open>client_tasks\<close>. \<open>user\<close> is the code of the user's
  callbacks, the answers of the kernel to a connect are arguments as in the connector. All of it
  runs in the thread of the loop; the mutex of the class protects \<open>connection_\<close> against readers
  in other threads only.
\<close>

datatype client_task = CTConnectDestroyed nat | CTSetCloseCallback nat | CTRemoveConnector

record TcpClient =
  connector :: Connector
  client_name :: string
  client_retry :: bool
  client_connect :: bool
  client_writeComplete :: bool
  client_nextConnId :: nat
  connection :: "(nat \<times> TcpConnection) option"
  client_tasks :: "client_task list"

definition new_TcpClient :: "string \<Rightarrow> TcpClient" where
  "new_TcpClient nameArg =
     \<lparr>connector = new_Connector, client_name = nameArg, client_retry = False, client_connect = True,
      client_writeComplete = False, client_nextConnId = 1, connection = None, client_tasks = []\<rparr>"

definition enableRetry :: "TcpClient \<Rightarrow> TcpClient" where
  "enableRetry c = c\<lparr>client_retry := True\<rparr>"

definition client_hand :: "client_task \<Rightarrow> TcpClient \<Rightarrow> TcpClient" where
  "client_hand t c = c\<lparr>client_tasks := client_tasks c @ [t]\<rparr>"

definition client_connect_to :: "bool \<Rightarrow> int \<Rightarrow> int \<Rightarrow> TcpClient \<Rightarrow> TcpClient res" where
  "client_connect_to inLoopThread sockfd err c =
     (let c1 = c\<lparr>client_connect := True\<rparr>
      in rbind (cn_start inLoopThread sockfd err (connector c1)) (\<lambda>cn. Inr (c1\<lparr>connector := cn\<rparr>)))"

definition client_disconnect :: "TcpClient \<Rightarrow> TcpClient" where
  "client_disconnect c =
     (let c1 = c\<lparr>client_connect := False\<rparr>
      in case connection c1 of
           Some (p, conn) \<Rightarrow> c1\<lparr>connection := Some (p, shutdown conn)\<rparr>
         | None \<Rightarrow> c1)"

definition client_stop :: "TcpClient \<Rightarrow> TcpClient" where
  "client_stop c = c\<lparr>client_connect := False, connector := cn_stop (connector c)\<rparr>"

text \<open>The suffix \<open>:ipPort#id\<close> goes through a buffer of 32 bytes.\<close>

definition client_suffix :: "string \<Rightarrow> nat \<Rightarrow> string" where
  "client_suffix peerIpPort cid = snprintf 32 ('':'' @ peerIpPort @ ''#'' @ dec_digits cid)"

definition client_newConnection ::
  "(effect \<Rightarrow> TcpConnection \<Rightarrow> TcpConnection res) \<Rightarrow> string \<Rightarrow> int \<Rightarrow> TcpClient \<Rightarrow> TcpClient res" where
  "client_newConnection user peerIpPort sockfd c =
     (let connName = client_name c @ client_suffix peerIpPort (client_nextConnId c);
          conn = (new_TcpConnection connName sockfd)\<lparr>writeCompleteCallback := client_writeComplete c\<rparr>;
          p = client_nextConnId c;
          c1 = c\<lparr>client_nextConnId := client_nextConnId c + 1, connection := Some (p, conn)\<rparr>
      in rbind (connectEstablished user conn) (\<lambda>conn'. Inr (c1\<lparr>connection := Some (p, conn')\<rparr>)))"

definition client_removeConnection :: "nat \<Rightarrow> int \<Rightarrow> int \<Rightarrow> TcpClient \<Rightarrow> TcpClient res" where
  "client_removeConnection p sockfd err c =
     ensure (map_option fst (connection c) = Some p) ''connection_ == conn''
     (let c1 = client_hand (CTConnectDestroyed p) (c\<lparr>connection := None\<rparr>)
      in if client_retry c1 \<and> client_connect c1
         then rbind (cn_restart sockfd err (connector c1)) (\<lambda>cn. Inr (c1\<lparr>connector := cn\<rparr>))
         else Inr c1)"

text \<open>The destructor; \<open>uniq\<close> tells whether the client holds the only reference.\<close>

definition delete_TcpClient :: "bool \<Rightarrow> TcpClient \<Rightarrow> TcpClient" where
  "delete_TcpClient uniq c =
     (case connection c of
        Some (p, conn) \<Rightarrow>
          (let c1 = client_hand (CTSetCloseCallback p) c
           in if uniq then c1\<lparr>connection := Some (p, forceClose conn)\<rparr> else c1)
      | None \<Rightarrow> client_hand CTRemoveConnector (c\<lparr>connector := cn_stop (connector c)\<rparr>))"

subsection \<open>Names\<close>

lemma client_suffix_fits:
  "length peerIpPort \<le> 21 \<Longrightarrow> cid < 10 ^ 8 \<Longrightarrow>
   client_suffix peerIpPort cid = '':'' @ peerIpPort @ ''#'' @ dec_digits cid"
  unfolding client_suffix_def using length_dec_digits_le [of 8 cid] by (intro snprintf_fits) simp

lemma client_suffix_long:
  "30 \<le> length peerIpPort \<Longrightarrow> client_suffix peerIpPort cid = CHR '':'' # take 30 peerIpPort"
  by (simp add: client_suffix_def snprintf_def)

subsection \<open>Properties\<close>

text \<open>When its connection goes down, a client that was told to retry and not to disconnect
  restarts its connector at once: the connection is forgotten and handed to the loop to be
  destroyed, and the connector, whose channel was reset, is connecting again with the first
  retry delay; otherwise the connector is left alone. A connection that is not the current one
  fails the assertion.\<close>

lemma client_reconnects:
  assumes "connection c = Some (p, conn)" "cn_channel (connector c) = None" "q \<noteq> p"
  shows "(\<exists>c'. client_removeConnection p sockfd EINPROGRESS c = Inr c' \<and> connection c' = None \<and>
      client_tasks c' = client_tasks c @ [CTConnectDestroyed p] \<and>
      (if client_retry c \<and> client_connect c
       then cn_state (connector c') = Connector.kConnecting \<and> cn_connect (connector c') \<and>
            retryDelayMs (connector c') = 500 \<and> map_option fd (cn_channel (connector c')) = Some sockfd
       else connector c' = connector c)) \<and>
    client_removeConnection q sockfd err c = Inl (AssertionFailed ''connection_ == conn'')"
proof -
  have "client_removeConnection q sockfd err c = Inl (AssertionFailed ''connection_ == conn'')"
    using assms by (simp add: client_removeConnection_def ensure_fails)
  then show ?thesis
    using assms
    by (cases "client_retry c \<and> client_connect c")
      (auto simp: client_removeConnection_def client_hand_def cn_restart_def startInLoop_def cn_connect_to_def
        connecting_def cn_setState_def kInitRetryDelayMs_def setErrorCallback_def setWriteCallback_def
        new_Channel_def Let_def)
qed

text \<open>The names that a client gives its connections are distinct for a peer whose address and
  port take at most 21 characters, as every IPv4 peer's do; from 30 characters on, which IPv6
  peers reach, the 32-byte buffer cuts off the number and all connections have the same
  name.\<close>

lemma client_names:
  assumes "i < 10 ^ 8" "j < 10 ^ 8" "i \<noteq> j"
  shows "(length peerIpPort \<le> 21 \<longrightarrow> client_suffix peerIpPort i \<noteq> client_suffix peerIpPort j) \<and>
    (30 \<le> length peerIpPort \<longrightarrow> client_suffix peerIpPort i = client_suffix peerIpPort j)"
  using assms by (simp add: client_suffix_fits client_suffix_long)

end
