(* ===== verification/Http.thy ===== *)
theory Http
  imports Buffer Timestamp StringPiece OrdMap
begin

section \<open>HTTP requests (src/src/HttpRequest.h, src/src/HttpContext.h, src/src/HttpContext.cpp)\<close>

text \<open>
  The incremental parser of requests. A range of characters \<open>[begin, end)\<close> is the list of its
  bytes; \<open>headers_\<close> is an ordered map. The loop of \<open>parseRequest\<close> has no exit in two of its
  four states, so it is a partial function: \<open>None\<close> means that the call never returns, and
  the theorems prove when it does return.

  After the operations: a parser on byte strings that consumes one line at a time, the proof
  that the loop on the buffer implements it, that the result does not depend on how the bytes
  are cut into segments, and that a printed request is parsed back.
\<close>

datatype Method = kInvalid | kGet | kPost | kHead | kPut | kDelete

datatype Version = kUnknown | kHttp10 | kHttp11

record HttpRequest =
  rq_method :: Method
  rq_version :: Version
  rq_path :: string
  rq_query :: string
  rq_receiveTime :: Timestamp
  rq_headers :: "(string \<times> string) list"

definition new_HttpRequest :: HttpRequest where
  "new_HttpRequest =
     \<lparr>rq_method = kInvalid, rq_version = kUnknown, rq_path = [], rq_query = [],
      rq_receiveTime = Timestamp 0, rq_headers = []\<rparr>"

definition setVersion :: "Version \<Rightarrow> HttpRequest \<Rightarrow> HttpRequest" where
  "setVersion v rq = rq\<lparr>rq_version := v\<rparr>"

definition setMethod :: "string \<Rightarrow> HttpRequest \<Rightarrow> (bool \<times> HttpRequest) res" where
  "setMethod m rq =
     ensure (rq_method rq = kInvalid) ''method_ == kInvalid''
     (let meth = (if m = ''GET'' then kGet
                  else if m = ''POST'' then kPost
                  else if m = ''HEAD'' then kHead
                  else if m = ''PUT'' then kPut
                  else if m = ''DELETE'' then kDelete
                  else kInvalid)
      in Inr (meth \<noteq> kInvalid, rq\<lparr>rq_method := meth\<rparr>))"

fun methodString :: "Method \<Rightarrow> string" where
  "methodString kGet = ''GET''"
| "methodString kPost = ''POST''"
| "methodString kHead = ''HEAD''"
| "methodString kPut = ''PUT''"
| "methodString kDelete = ''DELETE''"
| "methodString kInvalid = ''UNKNOWN''"

definition setPath :: "string \<Rightarrow> HttpRequest \<Rightarrow> HttpRequest" where
  "setPath s rq = rq\<lparr>rq_path := s\<rparr>"

definition setQuery :: "string \<Rightarrow> HttpRequest \<Rightarrow> HttpRequest" where
  "setQuery s rq = rq\<lparr>rq_query := s\<rparr>"

definition setReceiveTime :: "Timestamp \<Rightarrow> HttpRequest \<Rightarrow> HttpRequest" where
  "setReceiveTime t rq = rq\<lparr>rq_receiveTime := t\<rparr>"

text \<open>The loop that shortens \<open>value\<close> from its end.\<close>

function resize_spaces :: "string \<Rightarrow> string" where
  "resize_spaces value =
     (if value \<noteq> [] \<and> isspace (value ! (length value - 1))
      then resize_spaces (take (length value - 1) value) else value)"
  by auto
termination by (relation "measure length") (auto simp flip: length_greater_0_conv)

declare resize_spaces.simps [simp del]

text \<open>\<open>line\<close> is the range from \<open>start\<close> to \<open>end\<close>, \<open>colon\<close> an offset into it.\<close>

definition rq_addHeader :: "string \<Rightarrow> nat \<Rightarrow> HttpRequest \<Rightarrow> HttpRequest" where
  "rq_addHeader line colon rq =
     (let field = take colon line;
          value = resize_spaces (dropWhile isspace (drop (colon + 1) line))
      in rq\<lparr>rq_headers := om_put field value (rq_headers rq)\<rparr>)"

definition getHeader :: "string \<Rightarrow> HttpRequest \<Rightarrow> string" where
  "getHeader field rq = (case map_of (rq_headers rq) field of Some v \<Rightarrow> v | None \<Rightarrow> [])"

definition rq_swap :: "HttpRequest \<Rightarrow> HttpRequest \<Rightarrow> HttpRequest \<times> HttpRequest" where
  "rq_swap this that =
     (\<lparr>rq_method = rq_method that, rq_version = rq_version that, rq_path = rq_path that,
       rq_query = rq_query that, rq_receiveTime = rq_receiveTime that, rq_headers = rq_headers that\<rparr>,
      \<lparr>rq_method = rq_method this, rq_version = rq_version this, rq_path = rq_path this,
       rq_query = rq_query this, rq_receiveTime = rq_receiveTime this, rq_headers = rq_headers this\<rparr>)"

subsection \<open>The parser\<close>

datatype HttpRequestParseState = kExpectRequestLine | kExpectHeaders | kExpectBody | kGotAll

record HttpContext =
  ctx_state :: HttpRequestParseState
  ctx_request :: HttpRequest

definition new_HttpContext :: HttpContext where
  "new_HttpContext = \<lparr>ctx_state = kExpectRequestLine, ctx_request = new_HttpRequest\<rparr>"

definition gotAll :: "HttpContext \<Rightarrow> bool" where
  "gotAll ctx \<longleftrightarrow> ctx_state ctx = kGotAll"

definition ctx_reset :: "HttpContext \<Rightarrow> HttpContext" where
  "ctx_reset ctx =
     ctx\<lparr>ctx_state := kExpectRequestLine, ctx_request := fst (rq_swap (ctx_request ctx) new_HttpRequest)\<rparr>"

text \<open>The part of \<open>processRequestLine\<close> behind the method: \<open>rest\<close> starts after the first
  space.\<close>

definition processTarget :: "string \<Rightarrow> HttpRequest \<Rightarrow> bool \<times> HttpRequest" where
  "processTarget rest rq =
     (let space = std_find rest (CHR '' '')
      in if space \<noteq> length rest
         then let question = std_find (take space rest) (CHR ''?'');
                  rq1 = (if question \<noteq> space
                         then setQuery (subrange rest question space) (setPath (take question rest) rq)
                         else setPath (take space rest) rq);
                  proto = drop (space + 1) rest
              in if length proto = 8 \<and> take 7 proto = ''HTTP/1.''
                 then if proto ! 7 = CHR ''1'' then (True, setVersion kHttp11 rq1)
                      else if proto ! 7 = CHR ''0'' then (True, setVersion kHttp10 rq1)
                      else (False, rq1)
                 else (False, rq1)
         else (False, rq))"

definition processRequestLine :: "string \<Rightarrow> HttpRequest \<Rightarrow> (bool \<times> HttpRequest) res" where
  "processRequestLine line rq =
     (let space = std_find line (CHR '' '')
      in if space \<noteq> length line
         then rbind (setMethod (take space line) rq) (\<lambda>(known, rq1).
                Inr (if known then processTarget (drop (space + 1) line) rq1 else (False, rq1)))
         else Inr (False, rq))"

text \<open>One pass through the body of the loop of \<open>parseRequest\<close>: \<open>hasMore\<close>, \<open>ok\<close>, the context
  and the buffer after it. The two states without a branch leave everything as it is.\<close>

definition parse_pass ::
  "Timestamp \<Rightarrow> bool \<Rightarrow> HttpContext \<Rightarrow> Buffer \<Rightarrow> (bool \<times> bool \<times> HttpContext \<times> Buffer) res" where
  "parse_pass receiveTime ok ctx buf =
     (case ctx_state ctx of
        kExpectRequestLine \<Rightarrow>
          (case findCRLF buf of
             Some crlf \<Rightarrow>
               rbind (processRequestLine (subrange (buffer buf) (peek buf) crlf) (ctx_request ctx)) (\<lambda>(ok', rq).
                 if ok'
                 then rbind (retrieveUntil buf (crlf + 2)) (\<lambda>buf'.
                        Inr (True, True,
                          ctx\<lparr>ctx_state := kExpectHeaders, ctx_request := setReceiveTime receiveTime rq\<rparr>, buf'))
                 else Inr (False, False, ctx\<lparr>ctx_request := rq\<rparr>, buf))
           | None \<Rightarrow> Inr (False, ok, ctx, buf))
      | kExpectHeaders \<Rightarrow>
          (case findCRLF buf of
             Some crlf \<Rightarrow>
               (let line = subrange (buffer buf) (peek buf) crlf;
                    colon = std_find line (CHR '':'')
                in if colon \<noteq> length line
                   then rbind (retrieveUntil buf (crlf + 2)) (\<lambda>buf'.
                          Inr (True, ok, ctx\<lparr>ctx_request := rq_addHeader line colon (ctx_request ctx)\<rparr>, buf'))
                   else rbind (retrieveUntil buf (crlf + 2)) (\<lambda>buf'.
                          Inr (False, ok, ctx\<lparr>ctx_state := kGotAll\<rparr>, buf')))
           | None \<Rightarrow> Inr (False, ok, ctx, buf))
      | kExpectBody \<Rightarrow> Inr (True, ok, ctx, buf)
      | kGotAll \<Rightarrow> Inr (True, ok, ctx, buf))"

partial_function (option) parse_loop ::
  "Timestamp \<Rightarrow> bool \<Rightarrow> HttpContext \<Rightarrow> Buffer \<Rightarrow> (bool \<times> HttpContext \<times> Buffer) res option" where
  "parse_loop receiveTime ok ctx buf =
     (case parse_pass receiveTime ok ctx buf of
        Inl e \<Rightarrow> Some (Inl e)
      | Inr r \<Rightarrow> (if fst r then parse_loop receiveTime (fst (snd r)) (fst (snd (snd r))) (snd (snd (snd r)))
                  else Some (Inr (snd r))))"

definition parseRequest ::
  "Timestamp \<Rightarrow> HttpContext \<Rightarrow> Buffer \<Rightarrow> (bool \<times> HttpContext \<times> Buffer) res option" where
  "parseRequest receiveTime ctx buf = parse_loop receiveTime True ctx buf"

subsection \<open>A parser of byte strings\<close>

text \<open>\<open>cut_line\<close> splits off the first line, without its \<open>CRLF\<close>. \<open>parse_bytes\<close> is the
  reference: it knows of no buffer and always ends.\<close>

definition cut_line :: "byte list \<Rightarrow> (byte list \<times> byte list) option" where
  "cut_line bs =
     (let i = std_search bs kCRLF in if i = length bs then None else Some (take i bs, drop (i + 2) bs))"

lemma cut_line_shorter: "cut_line bs = Some (line, rest) \<Longrightarrow> length rest < length bs"
  using std_search_le [of bs kCRLF] by (auto simp: cut_line_def Let_def split: if_splits)

lemma cut_line_append: "cut_line bs = Some (line, rest) \<Longrightarrow> cut_line (bs @ ys) = Some (line, rest @ ys)"
  using std_search_le [of bs kCRLF] std_search_append [of bs kCRLF ys] std_search_fits [of bs kCRLF]
  by (auto simp: cut_line_def Let_def split: if_splits)

lemma cut_line_first: "CHR 0x0D \<notin> set line \<Longrightarrow> cut_line (line @ kCRLF @ rest) = Some (line, rest)"
  using std_search_skip [of kCRLF line rest] by (simp add: cut_line_def Let_def)

function parse_bytes :: "Timestamp \<Rightarrow> HttpContext \<Rightarrow> byte list \<Rightarrow> (bool \<times> HttpContext \<times> byte list) res" where
  "parse_bytes t ctx bs =
     (case cut_line bs of
        None \<Rightarrow> Inr (True, ctx, bs)
      | Some (line, rest) \<Rightarrow>
          if ctx_state ctx = kExpectRequestLine
          then case processRequestLine line (ctx_request ctx) of
                 Inl e \<Rightarrow> Inl e
               | Inr (ok, rq) \<Rightarrow>
                   if ok
                   then parse_bytes t (ctx\<lparr>ctx_state := kExpectHeaders, ctx_request := setReceiveTime t rq\<rparr>) rest
                   else Inr (False, ctx\<lparr>ctx_request := rq\<rparr>, bs)
          else if CHR '':'' \<in> set line
          then parse_bytes t (ctx\<lparr>ctx_request := rq_addHeader line (std_find line (CHR '':'')) (ctx_request ctx)\<rparr>) rest
          else Inr (True, ctx\<lparr>ctx_state := kGotAll\<rparr>, rest))"
  by pat_completeness auto
termination by (relation "measure (\<lambda>(t, ctx, bs). length bs)") (auto simp: cut_line_shorter)

declare parse_bytes.simps [simp del]

text \<open>A result on the buffer stands for a result on byte strings.\<close>

definition parse_rel :: "(bool \<times> HttpContext \<times> Buffer) res \<Rightarrow> (bool \<times> HttpContext \<times> byte list) res \<Rightarrow> bool" where
  "parse_rel r s \<longleftrightarrow>
     (case s of
        Inl e \<Rightarrow> r = Inl e
      | Inr (ok, ctx, rest) \<Rightarrow> (\<exists>b. r = Inr (ok, ctx, b) \<and> buffer_wf b \<and> content b = rest))"

lemma first_line:
  assumes "buffer_wf b"
  shows "case cut_line (content b) of
     None \<Rightarrow> findCRLF b = None
   | Some (line, rest) \<Rightarrow> (\<exists>crlf b'. findCRLF b = Some crlf \<and> subrange (buffer b) (peek b) crlf = line \<and>
       retrieveUntil b (crlf + 2) = Inr b' \<and> buffer_wf b' \<and> content b' = rest)"
proof (cases "findCRLF b")
  case None
  then show ?thesis using findCRLF_None_iff [OF assms] by (simp add: cut_line_def)
next
  case (Some p)
  let ?i = "std_search (content b) kCRLF"
  note f = findCRLF_Some [OF assms Some]
  have "subrange (buffer b) (peek b) p = take ?i (content b)"
    using content_prefix [OF assms, of ?i] f(1,4) length_content [OF assms] by simp
  moreover obtain b' where "retrieveUntil b (p + 2) = Inr b'" "buffer_wf b'"
    "content b' = drop (p + 2 - peek b) (content b)"
    using retrieveUntil_ok [OF assms, of "p + 2"] f by auto
  moreover have "p + 2 - peek b = ?i + 2" using f(1) by simp
  ultimately show ?thesis using Some f(4) by (auto simp: cut_line_def Let_def)
qed

text \<open>One pass of the loop over a complete line, in the two states that read lines.\<close>

lemma parse_loop_request_line:
  assumes "ctx_state ctx = kExpectRequestLine" "findCRLF b = Some p" "retrieveUntil b (p + 2) = Inr b'"
  shows "parse_loop t True ctx b =
    (case processRequestLine (subrange (buffer b) (peek b) p) (ctx_request ctx) of
       Inl e \<Rightarrow> Some (Inl e)
     | Inr (ok, rq) \<Rightarrow>
         if ok then parse_loop t True (ctx\<lparr>ctx_state := kExpectHeaders, ctx_request := setReceiveTime t rq\<rparr>) b'
         else Some (Inr (False, ctx\<lparr>ctx_request := rq\<rparr>, b)))"
  using assms by (subst parse_loop.simps) (simp add: parse_pass_def rbind_def split: sum.split)

lemma parse_loop_header:
  assumes "ctx_state ctx = kExpectHeaders" "findCRLF b = Some p" "retrieveUntil b (p + 2) = Inr b'"
    "subrange (buffer b) (peek b) p = line"
  shows "parse_loop t True ctx b =
    (if CHR '':'' \<in> set line
     then parse_loop t True (ctx\<lparr>ctx_request := rq_addHeader line (std_find line (CHR '':'')) (ctx_request ctx)\<rparr>) b'
     else Some (Inr (True, ctx\<lparr>ctx_state := kGotAll\<rparr>, b')))"
  using assms by (subst parse_loop.simps) (simp add: parse_pass_def Let_def std_find_eq_length_iff)

lemma parse_loop_refines:
  "buffer_wf b \<Longrightarrow> content b = bs \<Longrightarrow> ctx_state ctx \<in> {kExpectRequestLine, kExpectHeaders} \<Longrightarrow>
   \<exists>r. parse_loop t True ctx b = Some r \<and> parse_rel r (parse_bytes t ctx bs)"
proof (induction t ctx bs arbitrary: b rule: parse_bytes.induct)
  case (1 t ctx bs)
  show ?case
  proof (cases "cut_line bs")
    case None
    then have "findCRLF b = None" using first_line [OF "1.prems"(1)] "1.prems"(2) by simp
    then have "parse_loop t True ctx b = Some (Inr (True, ctx, b))"
      using "1.prems"(3) by (subst parse_loop.simps) (auto simp: parse_pass_def)
    then show ?thesis
      using None "1.prems" by (simp add: parse_rel_def parse_bytes.simps [of t ctx bs])
  next
    case (Some lr)
    obtain line rest where lr: "lr = (line, rest)" by (cases lr)
    obtain p b' where p: "findCRLF b = Some p" "subrange (buffer b) (peek b) p = line"
      "retrieveUntil b (p + 2) = Inr b'" "buffer_wf b'" "content b' = rest"
      using first_line [OF "1.prems"(1)] "1.prems"(2) Some lr by auto
    consider (line) "ctx_state ctx = kExpectRequestLine" | (head) "ctx_state ctx = kExpectHeaders"
      using "1.prems"(3) by blast
    then show ?thesis
    proof cases
      case line
      note IH = "1.IH"(1) [OF Some lr [symmetric] line _ _ _ p(4,5)]
      show ?thesis using Some lr line p(2) IH "1.prems"(1,2)
        unfolding parse_loop_request_line [OF line p(1,3)]
        by (subst parse_bytes.simps) (auto simp: parse_rel_def [of "Inl e" for e] parse_rel_def [of _ "Inr x" for x] split: sum.split)
    next
      case head
      then have st: "ctx_state ctx \<noteq> kExpectRequestLine" by simp
      note IH = "1.IH"(2) [OF Some lr [symmetric] st _ p(4,5)]
      show ?thesis using Some lr st head p(4,5) IH
        unfolding parse_loop_header [OF head p(1,3,2)]
        by (subst parse_bytes.simps) (auto simp: parse_rel_def [of _ "Inr x" for x])
    qed
  qed
qed

text \<open>In the other two states the loop never returns.\<close>

lemma parse_loop_stuck:
  assumes "ctx_state ctx \<in> {kExpectBody, kGotAll}"
  shows "parse_loop t ok ctx b = None"
proof (rule ccontr)
  assume "parse_loop t ok ctx b \<noteq> None"
  then obtain r where "parse_loop t ok ctx b = Some r" by blast
  moreover have "ctx_state ctx \<notin> {kExpectBody, kGotAll}" if "parse_loop t ok ctx b = Some r" for t ok ctx b r
  proof (rule parse_loop.raw_induct [where P = "\<lambda>t ok ctx b r. ctx_state ctx \<notin> {kExpectBody, kGotAll}", OF _ that])
    fix f t ok ctx b r
    assume IH: "\<And>t ok ctx b r. f t ok ctx b = Some r \<Longrightarrow> ctx_state ctx \<notin> {kExpectBody, kGotAll}"
      and "(case parse_pass t ok ctx b of
        Inl e \<Rightarrow> Some (Inl e)
      | Inr r \<Rightarrow> if fst r then f t (fst (snd r)) (fst (snd (snd r))) (snd (snd (snd r))) else Some (Inr (snd r))) = Some r"
    then show "ctx_state ctx \<notin> {kExpectBody, kGotAll}"
      using IH [of t ok ctx b r] by (cases "ctx_state ctx") (simp_all add: parse_pass_def)
  qed
  ultimately have "ctx_state ctx \<notin> {kExpectBody, kGotAll}" by blast
  then show False using assms by simp
qed

subsection \<open>Segments\<close>

text \<open>Bytes that arrive later do not change what was read, and reading goes on where it stopped.\<close>

lemma parse_bytes_append:
  "\<not> gotAll ctx \<Longrightarrow> parse_bytes t ctx (xs @ ys) =
     (case parse_bytes t ctx xs of
        Inl e \<Rightarrow> Inl e
      | Inr (ok, ctx', rest) \<Rightarrow>
          if ok \<and> \<not> gotAll ctx' then parse_bytes t ctx' (rest @ ys) else Inr (ok, ctx', rest @ ys))"
proof (induction t ctx xs rule: parse_bytes.induct)
  case (1 t ctx bs)
  show ?case
  proof (cases "cut_line bs")
    case None
    then show ?thesis using "1.prems" by (simp add: parse_bytes.simps [of t ctx bs])
  next
    case (Some lr)
    obtain line rest where lr: "lr = (line, rest)" by (cases lr)
    note cut = Some [unfolded lr] and cut' = cut_line_append [OF Some [unfolded lr], of ys]
    show ?thesis
    proof (cases "ctx_state ctx = kExpectRequestLine")
      case line: True
      show ?thesis
      proof (cases "processRequestLine line (ctx_request ctx)")
        case (Inl e)
        then show ?thesis using cut cut' line
          by (simp add: parse_bytes.simps [of t ctx bs] parse_bytes.simps [of t ctx "bs @ ys"])
      next
        case (Inr okrq)
        obtain ok rq where okrq: "okrq = (ok, rq)" by (cases okrq)
        show ?thesis
          using "1.IH"(1) [OF Some lr [symmetric] line Inr okrq [symmetric]] cut cut' line Inr okrq
          by (cases ok) (simp_all add: parse_bytes.simps [of t ctx bs] parse_bytes.simps [of t ctx "bs @ ys"] gotAll_def)
      qed
    next
      case head: False
      show ?thesis
        using "1.IH"(2) [OF Some lr [symmetric] head] cut cut' head "1.prems"
        by (cases "CHR '':'' \<in> set line")
          (simp_all add: parse_bytes.simps [of t ctx bs] parse_bytes.simps [of t ctx "bs @ ys"] gotAll_def)
    qed
  qed
qed

lemma parse_bytes_waits:
  "parse_bytes t ctx bs = Inr (True, ctx', rest) \<Longrightarrow> \<not> gotAll ctx' \<Longrightarrow> cut_line rest = None"
proof (induction t ctx bs rule: parse_bytes.induct)
  case (1 t ctx bs)
  show ?case
  proof (cases "cut_line bs")
    case None
    then show ?thesis using "1.prems" by (simp add: parse_bytes.simps [of t ctx bs])
  next
    case (Some lr)
    obtain line rest where lr: "lr = (line, rest)" by (cases lr)
    note p = "1.prems" [unfolded parse_bytes.simps [of t ctx bs] Some lr]
    show ?thesis using p "1.IH" [OF Some lr [symmetric]]
      by (cases "ctx_state ctx = kExpectRequestLine")
        (auto simp: gotAll_def split: sum.splits if_splits)
  qed
qed

lemma parse_bytes_states:
  "parse_bytes t ctx bs = Inr (ok, ctx', rest) \<Longrightarrow> ctx_state ctx \<in> {kExpectRequestLine, kExpectHeaders} \<Longrightarrow>
   ctx_state ctx' \<in> {kExpectRequestLine, kExpectHeaders, kGotAll}"
proof (induction t ctx bs rule: parse_bytes.induct)
  case (1 t ctx bs)
  show ?case
  proof (cases "cut_line bs")
    case None
    then show ?thesis using "1.prems" by (auto simp: parse_bytes.simps [of t ctx bs])
  next
    case (Some lr)
    obtain line rest where lr: "lr = (line, rest)" by (cases lr)
    note p = "1.prems"(1) [unfolded parse_bytes.simps [of t ctx bs] Some lr]
    show ?thesis using p "1.IH" [OF Some lr [symmetric]] "1.prems"(2)
      by (cases "ctx_state ctx = kExpectRequestLine") (auto split: sum.splits if_splits)
  qed
qed

text \<open>The bytes of a connection as they arrive: each segment is appended and parsed, until the
  request is complete or refused; what arrives later stays in the buffer.\<close>

fun deliver :: "Timestamp \<Rightarrow> byte list list \<Rightarrow> HttpContext \<Rightarrow> Buffer \<Rightarrow> (bool \<times> HttpContext \<times> Buffer) res option" where
  "deliver t [] ctx buf = Some (Inr (True, ctx, buf))"
| "deliver t (seg # segs) ctx buf =
     (case append_data buf seg of
        Inl e \<Rightarrow> Some (Inl e)
      | Inr buf1 \<Rightarrow>
          (case parseRequest t ctx buf1 of
             None \<Rightarrow> None
           | Some (Inl e) \<Rightarrow> Some (Inl e)
           | Some (Inr (ok, ctx', buf2)) \<Rightarrow>
               if ok \<and> \<not> gotAll ctx' then deliver t segs ctx' buf2
               else Some (rbind (append_data buf2 (concat segs)) (\<lambda>buf3. Inr (ok, ctx', buf3)))))"

definition parse_view :: "(bool \<times> HttpContext \<times> Buffer) res \<Rightarrow> (bool \<times> HttpContext \<times> byte list) res" where
  "parse_view r = map_sum id (\<lambda>(ok, ctx, b). (ok, ctx, content b)) r"

lemma parse_rel_view: "parse_rel r s \<Longrightarrow> parse_view r = s"
  by (auto simp: parse_rel_def parse_view_def split: sum.splits)

lemma parse_view_Inr: "parse_view r = Inr (ok, ctx, rest) \<Longrightarrow> \<exists>b. r = Inr (ok, ctx, b) \<and> content b = rest"
  by (cases r) (auto simp: parse_view_def)

lemma parseRequest_view:
  assumes "buffer_wf b" "ctx_state ctx \<in> {kExpectRequestLine, kExpectHeaders}"
  shows "map_option parse_view (parseRequest t ctx b) = Some (parse_bytes t ctx (content b))"
  using parse_loop_refines [OF assms(1) refl assms(2), of t] parse_rel_view
  by (auto simp: parseRequest_def)

lemma deliver_view:
  "buffer_wf b \<Longrightarrow> ctx_state ctx \<in> {kExpectRequestLine, kExpectHeaders} \<Longrightarrow> cut_line (content b) = None \<Longrightarrow>
   map_option parse_view (deliver t segs ctx b) = Some (parse_bytes t ctx (content b @ concat segs))"
proof (induction segs arbitrary: ctx b)
  case Nil
  then show ?case by (simp add: parse_view_def parse_bytes.simps [of t ctx "content b"])
next
  case (Cons seg segs)
  obtain b1 where b1: "append_data b seg = Inr b1" "buffer_wf b1" "content b1 = content b @ seg"
    using append_data_ok [OF Cons.prems(1)] by blast
  obtain r where r: "parseRequest t ctx b1 = Some r" "parse_rel r (parse_bytes t ctx (content b1))"
    using parse_loop_refines [OF b1(2) refl Cons.prems(2)] by (auto simp: parseRequest_def)
  have nga: "\<not> gotAll ctx" using Cons.prems(2) by (auto simp: gotAll_def)
  note whole = parse_bytes_append [OF nga, of t "content b1" "concat segs"]
  show ?case
  proof (cases "parse_bytes t ctx (content b1)")
    case (Inl e)
    then show ?thesis using b1 r whole by (simp add: parse_rel_def parse_view_def)
  next
    case (Inr q)
    obtain ok ctx' rest where q: "q = (ok, ctx', rest)" by (cases q)
    obtain b2 where b2: "r = Inr (ok, ctx', b2)" "buffer_wf b2" "content b2 = rest"
      using r(2) Inr q by (auto simp: parse_rel_def)
    show ?thesis
    proof (cases "ok \<and> \<not> gotAll ctx'")
      case True
      then have "cut_line rest = None" using parse_bytes_waits [of t ctx "content b1" ctx' rest] Inr q by simp
      moreover have "ctx_state ctx' \<in> {kExpectRequestLine, kExpectHeaders}"
        using parse_bytes_states [OF Inr [unfolded q] Cons.prems(2)] True by (auto simp: gotAll_def)
      ultimately show ?thesis using Cons.IH [of b2 ctx'] b1 b2 r True whole Inr q by simp
    next
      case False
      obtain b3 where "append_data b2 (concat segs) = Inr b3" "content b3 = rest @ concat segs"
        using append_data_ok [OF b2(2)] b2(3) by blast
      then show ?thesis using b1 b2 r False whole Inr q by (auto simp: parse_view_def)
    qed
  qed
qed

subsection \<open>Printing a request\<close>

fun print_version :: "Version \<Rightarrow> string" where
  "print_version kHttp10 = ''HTTP/1.0''"
| "print_version _ = ''HTTP/1.1''"

definition print_header :: "string \<times> string \<Rightarrow> string" where
  "print_header h = fst h @ '': '' @ snd h"

definition print_request :: "HttpRequest \<Rightarrow> byte list" where
  "print_request rq =
     (methodString (rq_method rq) @ '' '' @ rq_path rq @ rq_query rq @ '' '' @ print_version (rq_version rq)) @ kCRLF @
     concat (map (\<lambda>h. print_header h @ kCRLF) (rq_headers rq)) @ kCRLF"

text \<open>The requests that have a printed form: no separators inside the parts.\<close>

definition trimmed :: "string \<Rightarrow> bool" where
  "trimmed v \<longleftrightarrow> v = [] \<or> \<not> isspace (hd v) \<and> \<not> isspace (last v)"

definition printable_header :: "string \<times> string \<Rightarrow> bool" where
  "printable_header h \<longleftrightarrow>
     CHR '':'' \<notin> set (fst h) \<and> CHR 0x0D \<notin> set (fst h) \<and> CHR 0x0D \<notin> set (snd h) \<and> trimmed (snd h)"

definition printable :: "HttpRequest \<Rightarrow> bool" where
  "printable rq \<longleftrightarrow>
     rq_method rq \<noteq> kInvalid \<and> rq_version rq \<noteq> kUnknown \<and>
     set (rq_path rq) \<inter> {CHR '' '', CHR ''?'', CHR 0x0D} = {} \<and>
     set (rq_query rq) \<inter> {CHR '' '', CHR 0x0D} = {} \<and>
     (rq_query rq = [] \<or> hd (rq_query rq) = CHR ''?'') \<and>
     om_wf (rq_headers rq) \<and> list_all printable_header (rq_headers rq)"

lemma resize_spaces_trimmed: "trimmed v \<Longrightarrow> resize_spaces v = v"
  by (subst resize_spaces.simps) (auto simp: trimmed_def last_conv_nth)

lemma dropWhile_trimmed: "trimmed v \<Longrightarrow> dropWhile isspace (CHR '' '' # v) = v"
  by (cases v) (auto simp: trimmed_def isspace_def)

lemma addHeader_print_header:
  assumes "printable_header h"
  shows "rq_addHeader (print_header h) (std_find (print_header h) (CHR '':'')) rq =
    rq\<lparr>rq_headers := om_put (fst h) (snd h) (rq_headers rq)\<rparr>"
proof -
  have "std_find (print_header h) (CHR '':'') = length (fst h)"
    using assms std_find_first [of "CHR '':''" "fst h" "CHR '' '' # snd h"]
    by (simp add: print_header_def printable_header_def)
  moreover have "resize_spaces (dropWhile isspace (CHR '' '' # snd h)) = snd h"
    unfolding dropWhile_trimmed [OF assms [unfolded printable_header_def, THEN conjunct2, THEN conjunct2, THEN conjunct2]]
    using assms by (simp add: resize_spaces_trimmed printable_header_def)
  ultimately show ?thesis by (simp add: rq_addHeader_def print_header_def Let_def)
qed

lemma parse_headers:
  "list_all printable_header hs \<Longrightarrow> om_wf (rq_headers rq @ hs) \<Longrightarrow>
   parse_bytes t \<lparr>ctx_state = kExpectHeaders, ctx_request = rq\<rparr>
     (concat (map (\<lambda>h. print_header h @ kCRLF) hs) @ kCRLF @ rest) =
   Inr (True, \<lparr>ctx_state = kGotAll, ctx_request = rq\<lparr>rq_headers := rq_headers rq @ hs\<rparr>\<rparr>, rest)"
proof (induction hs arbitrary: rq)
  case Nil
  then show ?case using cut_line_first [of "[]" rest] by (subst parse_bytes.simps) simp
next
  case (Cons h hs)
  let ?rest = "concat (map (\<lambda>h. print_header h @ kCRLF) hs) @ kCRLF @ rest"
  let ?rq = "rq\<lparr>rq_headers := rq_headers rq @ [h]\<rparr>"
  have h: "printable_header h" using Cons.prems by simp
  have "\<forall>x \<in> fst ` set (rq_headers rq). x < fst h"
    using Cons.prems(2) by (auto simp: om_wf_def sorted_wrt_append)
  then have add: "rq_addHeader (print_header h) (std_find (print_header h) (CHR '':'')) rq = ?rq"
    by (simp add: addHeader_print_header [OF h] om_put_below)
  have colon: "CHR '':'' \<in> set (print_header h)" by (simp add: print_header_def)
  have "cut_line (print_header h @ kCRLF @ ?rest) = Some (print_header h, ?rest)"
    using h by (intro cut_line_first) (simp add: print_header_def printable_header_def)
  moreover have "parse_bytes t \<lparr>ctx_state = kExpectHeaders, ctx_request = ?rq\<rparr> ?rest =
    Inr (True, \<lparr>ctx_state = kGotAll, ctx_request = ?rq\<lparr>rq_headers := rq_headers ?rq @ hs\<rparr>\<rparr>, rest)"
    using Cons.prems by (intro Cons.IH) simp_all
  ultimately show ?case using colon add by (subst parse_bytes.simps) simp
qed

lemma setMethod_methodString:
  "rq_method rq = kInvalid \<Longrightarrow> m \<noteq> kInvalid \<Longrightarrow> setMethod (methodString m) rq = Inr (True, rq\<lparr>rq_method := m\<rparr>)"
  by (cases m) (simp_all add: setMethod_def)

lemma std_find_app: "c \<notin> set xs \<Longrightarrow> std_find (xs @ ys) c = length xs + std_find ys c"
  by (induction xs) auto

lemma processTarget_print:
  assumes "printable rq" "rq_query rq0 = []"
  shows "processTarget (rq_path rq @ rq_query rq @ '' '' @ print_version (rq_version rq)) rq0 =
    (True, rq0\<lparr>rq_path := rq_path rq, rq_query := rq_query rq, rq_version := rq_version rq\<rparr>)"
proof -
  let ?pq = "rq_path rq @ rq_query rq" and ?v = "print_version (rq_version rq)"
  have "CHR '' '' \<notin> set ?pq" using assms by (auto simp: printable_def)
  then have sp: "std_find (?pq @ CHR '' '' # ?v) (CHR '' '') = length ?pq" by (rule std_find_first)
  have q: "std_find ?pq (CHR ''?'') = length (rq_path rq)"
    using assms by (cases "rq_query rq") (auto simp: printable_def std_find_app std_find_eq_length_iff)
  have v: "length ?v = 8" "take 7 ?v = ''HTTP/1.''" "?v ! 7 = (if rq_version rq = kHttp10 then CHR ''0'' else CHR ''1'')"
    by (cases "rq_version rq"; simp)+
  show ?thesis
    using sp q v assms unfolding processTarget_def
    by (cases "rq_version rq")
      (auto simp: Let_def setPath_def setQuery_def setVersion_def subrange_def printable_def)
qed

lemma processRequestLine_print:
  assumes "printable rq"
  shows "processRequestLine
      (methodString (rq_method rq) @ '' '' @ rq_path rq @ rq_query rq @ '' '' @ print_version (rq_version rq)) new_HttpRequest =
    Inr (True, new_HttpRequest\<lparr>rq_method := rq_method rq, rq_path := rq_path rq, rq_query := rq_query rq,
      rq_version := rq_version rq\<rparr>)"
proof -
  let ?m = "methodString (rq_method rq)" and ?r = "rq_path rq @ rq_query rq @ '' '' @ print_version (rq_version rq)"
  have "CHR '' '' \<notin> set ?m" by (cases "rq_method rq") auto
  then have sp: "std_find (?m @ CHR '' '' # ?r) (CHR '' '') = length ?m" by (rule std_find_first)
  have "setMethod ?m new_HttpRequest = Inr (True, new_HttpRequest\<lparr>rq_method := rq_method rq\<rparr>)"
    using assms by (intro setMethod_methodString) (simp_all add: new_HttpRequest_def printable_def)
  then show ?thesis
    using sp processTarget_print [OF assms, of "new_HttpRequest\<lparr>rq_method := rq_method rq\<rparr>"]
    by (simp add: processRequestLine_def Let_def new_HttpRequest_def)
qed

lemma parse_print:
  assumes "printable rq"
  shows "parse_bytes (rq_receiveTime rq) new_HttpContext (print_request rq @ rest) =
    Inr (True, \<lparr>ctx_state = kGotAll, ctx_request = rq\<rparr>, rest)"
proof -
  let ?line = "methodString (rq_method rq) @ '' '' @ rq_path rq @ rq_query rq @ '' '' @ print_version (rq_version rq)"
  let ?rest = "concat (map (\<lambda>h. print_header h @ kCRLF) (rq_headers rq)) @ kCRLF @ rest"
  have "CHR 0x0D \<notin> set ?line"
    using assms by (cases "rq_method rq"; cases "rq_version rq") (auto simp: printable_def)
  then have "cut_line (?line @ kCRLF @ ?rest) = Some (?line, ?rest)" by (rule cut_line_first)
  moreover have "print_request rq @ rest = ?line @ kCRLF @ ?rest" by (simp add: print_request_def)
  ultimately show ?thesis
    using processRequestLine_print [OF assms] assms
    by (subst parse_bytes.simps)
      (simp add: new_HttpContext_def printable_def parse_headers setReceiveTime_def new_HttpRequest_def)
qed

subsection \<open>Properties\<close>

text \<open>C7: \<open>parseRequest\<close> returns if and only if the context still expects the request line or a
  header (its loop has no exit in the states \<open>kExpectBody\<close> and \<open>kGotAll\<close>), and where it returns
  it computes the line-by-line parse of the readable bytes: the same verdict, the same context,
  and a well-formed buffer that holds the bytes not consumed.\<close>

theorem parseRequest_terminates:
  assumes "buffer_wf b"
  shows "(parseRequest t ctx b = None \<longleftrightarrow> ctx_state ctx \<in> {kExpectBody, kGotAll}) \<and>
    (\<forall>r. parseRequest t ctx b = Some r \<longrightarrow> parse_rel r (parse_bytes t ctx (content b)))"
proof (cases "ctx_state ctx \<in> {kExpectBody, kGotAll}")
  case True
  then show ?thesis using parse_loop_stuck by (simp add: parseRequest_def)
next
  case False
  then have "ctx_state ctx \<in> {kExpectRequestLine, kExpectHeaders}" by (cases "ctx_state ctx") auto
  then obtain r where "parseRequest t ctx b = Some r" "parse_rel r (parse_bytes t ctx (content b))"
    using parse_loop_refines [OF assms refl] by (auto simp: parseRequest_def)
  then show ?thesis using False by simp
qed

theorem parseRequest_terminates_witness:
  "parseRequest (Timestamp 0) new_HttpContext fresh_buffer \<noteq> None \<and>
   parseRequest (Timestamp 0) (new_HttpContext\<lparr>ctx_state := kGotAll\<rparr>) fresh_buffer = None"
  using parseRequest_terminates [OF buffer_wf_fresh, of "Timestamp 0" new_HttpContext]
    parseRequest_terminates [OF buffer_wf_fresh, of "Timestamp 0" "new_HttpContext\<lparr>ctx_state := kGotAll\<rparr>"]
  by (simp add: new_HttpContext_def)

text \<open>How the network cuts a stream of bytes into segments does not matter: appending and
  parsing segment by segment ends with the verdict, the context and the unread bytes of the
  parse of the whole stream.\<close>

lemma parse_segments:
  "map_option parse_view (deliver t segs new_HttpContext fresh_buffer) =
   Some (parse_bytes t new_HttpContext (concat segs))"
  using deliver_view [of fresh_buffer new_HttpContext t segs]
  by (simp add: new_HttpContext_def cut_line_def)

text \<open>C5: A request that is printed and then delivered in segments of any size is parsed back
  exactly: method, path, query, version, every header and the time of receipt; the bytes behind
  it stay in the buffer.\<close>

theorem request_roundtrip:
  assumes "printable rq" "concat segs = print_request rq @ rest"
  shows "\<exists>b. deliver (rq_receiveTime rq) segs new_HttpContext fresh_buffer =
      Some (Inr (True, \<lparr>ctx_state = kGotAll, ctx_request = rq\<rparr>, b)) \<and> content b = rest"
proof -
  have "map_option parse_view (deliver (rq_receiveTime rq) segs new_HttpContext fresh_buffer) =
    Some (Inr (True, \<lparr>ctx_state = kGotAll, ctx_request = rq\<rparr>, rest))"
    using deliver_view [of fresh_buffer new_HttpContext "rq_receiveTime rq" segs] parse_print [OF assms(1), of rest] assms(2)
    by (simp add: new_HttpContext_def cut_line_def)
  then show ?thesis using parse_view_Inr by fastforce
qed

definition sample_request :: HttpRequest where
  "sample_request =
     \<lparr>rq_method = kGet, rq_version = kHttp11, rq_path = ''/hello'', rq_query = ''?x=1'', rq_receiveTime = Timestamp 7,
      rq_headers = [(''Connection'', ''close''), (''Host'', ''a b'')]\<rparr>"

lemma sample_printable: "printable sample_request"
  by (simp add: sample_request_def printable_def printable_header_def trimmed_def isspace_def om_wf_def)

theorem request_roundtrip_witness:
  "\<exists>b. deliver (Timestamp 7) [take 10 (print_request sample_request), drop 10 (print_request sample_request)]
      new_HttpContext fresh_buffer =
    Some (Inr (True, \<lparr>ctx_state = kGotAll, ctx_request = sample_request\<rparr>, b)) \<and> content b = []"
  using request_roundtrip [OF sample_printable,
      of "[take 10 (print_request sample_request), drop 10 (print_request sample_request)]" "[]"]
  by (simp add: sample_request_def)

end
