(* ===== verification/HttpServer.thy ===== *)
theory HttpServer
  imports Http TcpConnection
begin

section \<open>HTTP responses and the server (src/src/HttpResponse.h, .cpp, src/src/HttpServer.h, .cpp)\<close>

text \<open>
  A response, its printing into a buffer, and the two callbacks that a server installs on a
  connection. The user's \<open>httpCallback_\<close> is the argument \<open>cb\<close>. The \<open>HttpContext\<close> that the
  connection carries in \<open>context_\<close> stands beside the connection; the buffer that \<open>onMessage\<close>
  gets is the input buffer of the connection.

  The lemmas show the bytes of a printed response, that a complete request is answered with
  the response of the callback, and what becomes of a connection that sent a bad request line.
\<close>

type_synonym HttpStatusCode = int

definition kUnknownStatus :: HttpStatusCode where "kUnknownStatus = 0"
definition k200OK :: HttpStatusCode where "k200OK = 200"
definition k301MovedPermanently :: HttpStatusCode where "k301MovedPermanently = 301"
definition k400BadRequest :: HttpStatusCode where "k400BadRequest = 400"
definition k404NotFound :: HttpStatusCode where "k404NotFound = 400"

record HttpResponse =
  rs_headers :: "(string \<times> string) list"
  rs_statusCode :: HttpStatusCode
  rs_statusMessage :: string
  rs_closeConnection :: bool
  rs_body :: string

definition new_HttpResponse :: "bool \<Rightarrow> HttpResponse" where
  "new_HttpResponse close =
     \<lparr>rs_headers = [], rs_statusCode = kUnknownStatus, rs_statusMessage = [], rs_closeConnection = close, rs_body = []\<rparr>"

definition setStatusCode :: "HttpStatusCode \<Rightarrow> HttpResponse \<Rightarrow> HttpResponse" where
  "setStatusCode code rs = rs\<lparr>rs_statusCode := code\<rparr>"

definition setStatusMessage :: "string \<Rightarrow> HttpResponse \<Rightarrow> HttpResponse" where
  "setStatusMessage message rs = rs\<lparr>rs_statusMessage := message\<rparr>"

definition setCloseConnection :: "bool \<Rightarrow> HttpResponse \<Rightarrow> HttpResponse" where
  "setCloseConnection on rs = rs\<lparr>rs_closeConnection := on\<rparr>"

definition rs_addHeader :: "string \<Rightarrow> string \<Rightarrow> HttpResponse \<Rightarrow> HttpResponse" where
  "rs_addHeader key val rs = rs\<lparr>rs_headers := om_put key val (rs_headers rs)\<rparr>"

definition setContentType :: "string \<Rightarrow> HttpResponse \<Rightarrow> HttpResponse" where
  "setContentType contentType rs = rs_addHeader ''Content-Type'' contentType rs"

definition setBody :: "string \<Rightarrow> HttpResponse \<Rightarrow> HttpResponse" where
  "setBody body rs = rs\<lparr>rs_body := body\<rparr>"

text \<open>\<open>append(const StringPiece&)\<close> of the buffer, to which a \<open>std::string\<close> and a C string
  convert.\<close>

definition append_piece :: "Buffer \<Rightarrow> StringPiece \<Rightarrow> Buffer res" where
  "append_piece b p = append_data b (as_string p)"

fun append_pieces :: "Buffer \<Rightarrow> StringPiece list \<Rightarrow> Buffer res" where
  "append_pieces b [] = Inr b"
| "append_pieces b (p # ps) = rbind (append_piece b p) (\<lambda>b'. append_pieces b' ps)"

definition cstr :: "string \<Rightarrow> StringPiece" where
  "cstr s = StringPiece_cstr (s @ [CHR 0x00])"

text \<open>What \<open>appendToBuffer\<close> appends, in its order.\<close>

definition response_pieces :: "HttpResponse \<Rightarrow> StringPiece list" where
  "response_pieces rs =
        [cstr (snprintf 32 (''HTTP/1.1 '' @ dec_int (rs_statusCode rs) @ '' '')),
         StringPiece_string (rs_statusMessage rs),
         cstr kCRLF] @
        (if rs_closeConnection rs
         then [cstr (''Connection: close'' @ kCRLF)]
         else [cstr (snprintf 32 (''Content-Length: '' @ dec_digits (length (rs_body rs)) @ kCRLF)),
               cstr (''Connection: Keep-Alive'' @ kCRLF)]) @
        concat (map (\<lambda>(key, val). [StringPiece_string key, cstr '': '', StringPiece_string val, cstr kCRLF]) (rs_headers rs)) @
        [cstr kCRLF, StringPiece_string (rs_body rs)]"

definition appendToBuffer :: "HttpResponse \<Rightarrow> Buffer \<Rightarrow> Buffer res" where
  "appendToBuffer rs output = append_pieces output (response_pieces rs)"

subsection \<open>The server\<close>

definition defaultHttpCallback :: "HttpRequest \<Rightarrow> HttpResponse \<Rightarrow> HttpResponse" where
  "defaultHttpCallback rq resp =
     setCloseConnection True (setStatusMessage ''Not Found'' (setStatusCode k404NotFound resp))"

definition http_onConnection :: "TcpConnection \<Rightarrow> HttpContext \<Rightarrow> HttpContext" where
  "http_onConnection conn ctx = (if conn_connected conn then new_HttpContext else ctx)"

definition wants_close :: "HttpRequest \<Rightarrow> bool" where
  "wants_close rq \<longleftrightarrow>
     (let connection = getHeader ''Connection'' rq
      in connection = ''close'' \<or> (rq_version rq = kHttp10 \<and> connection \<noteq> ''Keep-Alive''))"

definition http_onRequest ::
  "(TcpConnection \<Rightarrow> byte list \<Rightarrow> write_result) \<Rightarrow> (HttpRequest \<Rightarrow> HttpResponse \<Rightarrow> HttpResponse) \<Rightarrow>
   HttpRequest \<Rightarrow> TcpConnection \<Rightarrow> TcpConnection res" where
  "http_onRequest wr cb rq conn =
     (let response = cb rq (new_HttpResponse (wants_close rq))
      in rbind (new_Buffer kInitialSize) (\<lambda>buf.
         rbind (appendToBuffer response buf) (\<lambda>buf1.
         rbind (send_buffer wr conn buf1) (\<lambda>(conn1, buf2).
         Inr (if rs_closeConnection response then shutdown conn1 else conn1)))))"

definition badRequest :: string where
  "badRequest = ''HTTP/1.1 400 Bad Request'' @ kCRLF @ kCRLF"

definition http_onMessage ::
  "(TcpConnection \<Rightarrow> byte list \<Rightarrow> write_result) \<Rightarrow> (HttpRequest \<Rightarrow> HttpResponse \<Rightarrow> HttpResponse) \<Rightarrow> Timestamp \<Rightarrow>
   HttpContext \<Rightarrow> TcpConnection \<Rightarrow> (HttpContext \<times> TcpConnection) res option" where
  "http_onMessage wr cb receiveTime ctx conn =
     map_option (\<lambda>r. rbind r (\<lambda>(ok, ctx1, buf).
       let conn1 = conn\<lparr>inputBuffer := buf\<rparr>
       in rbind (if \<not> ok then rbind (send wr conn1 (as_string (cstr badRequest))) (\<lambda>c. Inr (shutdown c)) else Inr conn1) (\<lambda>conn2.
          if gotAll ctx1
          then rbind (http_onRequest wr cb (ctx_request ctx1) conn2) (\<lambda>conn3. Inr (ctx_reset ctx1, conn3))
          else Inr (ctx1, conn2))))
     (parseRequest receiveTime ctx (inputBuffer conn))"

subsection \<open>The bytes of a response\<close>

text \<open>What a C string keeps of a string.\<close>

abbreviation upto_nul :: "string \<Rightarrow> string" where
  "upto_nul \<equiv> takeWhile (\<lambda>c. c \<noteq> CHR 0x00)"

definition response_head :: "HttpResponse \<Rightarrow> string" where
  "response_head rs =
     snprintf 32 (''HTTP/1.1 '' @ dec_int (rs_statusCode rs) @ '' '') @ upto_nul (rs_statusMessage rs) @ kCRLF @
     (if rs_closeConnection rs then ''Connection: close'' @ kCRLF
      else snprintf 32 (''Content-Length: '' @ dec_digits (length (rs_body rs)) @ kCRLF) @ ''Connection: Keep-Alive'' @ kCRLF) @
     concat (map (\<lambda>(key, val). upto_nul key @ '': '' @ upto_nul val @ kCRLF) (rs_headers rs)) @ kCRLF"

lemma as_string_cstr_upto: "as_string (cstr s) = upto_nul s"
  using as_string_string [of s] by (simp add: cstr_def as_string_cstr takeWhile_tail)

lemma upto_nul_id: "CHR 0x00 \<notin> set s \<Longrightarrow> upto_nul s = s"
  by (auto simp: takeWhile_eq_all_conv)

lemma length_upto_nul: "length (upto_nul s) = length s \<longleftrightarrow> CHR 0x00 \<notin> set s"
  by (induction s) auto

lemma upto_nul_kCRLF [simp]: "upto_nul kCRLF = kCRLF"
  by (simp add: kCRLF_def)

lemma append_pieces_ok:
  "buffer_wf b \<Longrightarrow>
   \<exists>b'. append_pieces b ps = Inr b' \<and> buffer_wf b' \<and> content b' = content b @ concat (map as_string ps)"
proof (induction ps arbitrary: b)
  case Nil
  then show ?case by simp
next
  case (Cons p ps)
  obtain b1 where "append_data b (as_string p) = Inr b1" "buffer_wf b1" "content b1 = content b @ as_string p"
    using append_data_ok [OF Cons.prems] by blast
  then show ?case using Cons.IH [of b1] by (auto simp: append_piece_def)
qed

lemma no_nul_digits: "CHR 0x00 \<notin> set (dec_digits n)"
  by (rule non_digit_notin_dec_digits) (simp add: is_digit_def)

lemma no_nul_snprintf: "CHR 0x00 \<notin> set s \<Longrightarrow> CHR 0x00 \<notin> set (snprintf n s)"
  by (auto simp: snprintf_def dest: in_set_takeD)

lemma response_pieces_bytes:
  "concat (map as_string (response_pieces rs)) = response_head rs @ upto_nul (rs_body rs)"
proof -
  have 1: "upto_nul (snprintf 32 (''HTTP/1.1 '' @ dec_int (rs_statusCode rs) @ '' '')) =
      snprintf 32 (''HTTP/1.1 '' @ dec_int (rs_statusCode rs) @ '' '')"
    by (intro upto_nul_id no_nul_snprintf) (simp add: dec_int_def no_nul_digits)
  have 2: "upto_nul (snprintf 32 (''Content-Length: '' @ dec_digits (length (rs_body rs)) @ kCRLF)) =
      snprintf 32 (''Content-Length: '' @ dec_digits (length (rs_body rs)) @ kCRLF)"
    by (intro upto_nul_id no_nul_snprintf) (simp add: no_nul_digits kCRLF_def)
  have 3: "concat (map as_string (concat (map (\<lambda>(key, val).
        [StringPiece_string key, cstr '': '', StringPiece_string val, cstr kCRLF]) hs))) =
      concat (map (\<lambda>(key, val). upto_nul key @ '': '' @ upto_nul val @ kCRLF) hs)" for hs
    by (induction hs) (auto simp: as_string_cstr_upto as_string_string)
  have 4: "upto_nul (''Connection: close'' @ kCRLF) = ''Connection: close'' @ kCRLF"
    "upto_nul (''Connection: Keep-Alive'' @ kCRLF) = ''Connection: Keep-Alive'' @ kCRLF"
    by (simp_all add: kCRLF_def)
  show ?thesis
    unfolding response_pieces_def response_head_def map_append concat_append list.map concat.simps
    by (simp only: as_string_cstr_upto as_string_string 1 2 3 4 if_distrib [of "map as_string"] if_distrib [of concat]
        list.map concat.simps append_Nil2 append_assoc upto_nul_kCRLF if_cancel split: if_splits)
qed

lemma appendToBuffer_ok:
  assumes "buffer_wf b"
  shows "\<exists>b'. appendToBuffer rs b = Inr b' \<and> buffer_wf b' \<and>
    content b' = content b @ response_head rs @ upto_nul (rs_body rs)"
  using append_pieces_ok [OF assms, of "response_pieces rs"]
  by (simp add: appendToBuffer_def response_pieces_bytes)

subsection \<open>The callbacks on a connection\<close>

definition never_resets :: "(TcpConnection \<Rightarrow> byte list \<Rightarrow> write_result) \<Rightarrow> bool" where
  "never_resets wr \<longleftrightarrow> (\<forall>c data. wr c data \<noteq> WriteReset)"

text \<open>The whole answer to a request: the response that the callback made of it.\<close>

definition http_answer :: "(HttpRequest \<Rightarrow> HttpResponse \<Rightarrow> HttpResponse) \<Rightarrow> HttpRequest \<Rightarrow> HttpResponse" where
  "http_answer cb rq = cb rq (new_HttpResponse (wants_close rq))"

definition response_bytes :: "HttpResponse \<Rightarrow> byte list" where
  "response_bytes rs = response_head rs @ upto_nul (rs_body rs)"

lemma shutdown_simps [simp]:
  "stream (shutdown c) = stream c" "inputBuffer (shutdown c) = inputBuffer c" "buffers_ok (shutdown c) = buffers_ok c"
  by (simp_all add: shutdown_def shutdownInLoop_def stream_def buffers_ok_def)

lemma state_shutdown [simp]: "state c = kConnected \<Longrightarrow> state (shutdown c) = kDisconnecting"
  by (simp add: shutdown_def shutdownInLoop_def)

lemma send_connected:
  assumes "buffers_ok c" "write_ok wr" "never_resets wr" "state c = kConnected"
  shows "\<exists>c'. sendInLoop wr c data = Inr c' \<and> buffers_ok c' \<and> state c' = kConnected \<and>
    inputBuffer c' = inputBuffer c \<and> stream c' = stream c @ data"
  using sendInLoop_ok [OF assms(1,2), of data] assms(3,4) unfolding never_resets_def
  by (metis StateE.distinct(3))

lemma http_onRequest_ok:
  assumes "buffers_ok c" "write_ok wr" "never_resets wr" "state c = kConnected"
  shows "\<exists>c'. http_onRequest wr cb rq c = Inr c' \<and> buffers_ok c' \<and> inputBuffer c' = inputBuffer c \<and>
    stream c' = stream c @ response_bytes (http_answer cb rq) \<and>
    state c' = (if rs_closeConnection (http_answer cb rq) then kDisconnecting else kConnected)"
proof -
  let ?rs = "http_answer cb rq"
  obtain b where b: "appendToBuffer ?rs fresh_buffer = Inr b" "buffer_wf b" "content b = response_bytes ?rs"
    using appendToBuffer_ok [OF buffer_wf_fresh, of ?rs] by (auto simp: response_bytes_def)
  obtain c1 where c1: "sendInLoop wr c (response_bytes ?rs) = Inr c1" "buffers_ok c1" "state c1 = kConnected"
    "inputBuffer c1 = inputBuffer c" "stream c1 = stream c @ response_bytes ?rs"
    using send_connected [OF assms] by blast
  have "subrange (buffer b) (peek b) (peek b + readableBytes b) = response_bytes ?rs"
    using toStringPiece_content [OF b(2)] b(3) by (simp add: toStringPiece_def)
  then have "send_buffer wr c b = Inr (c1, retrieveAll b)" using assms(4) c1(1) by (simp add: send_buffer_def)
  then have "http_onRequest wr cb rq c = Inr (if rs_closeConnection ?rs then shutdown c1 else c1)"
    using b(1) by (simp add: http_onRequest_def new_Buffer_default http_answer_def)
  then show ?thesis using c1 by simp
qed

lemma ctx_reset_new [simp]: "ctx_reset ctx = new_HttpContext"
  by (simp add: ctx_reset_def new_HttpContext_def rq_swap_def new_HttpRequest_def)

lemma refused_not_gotAll: "parse_bytes t ctx bs = Inr (False, ctx', rest) \<Longrightarrow> \<not> gotAll ctx'"
proof (induction t ctx bs rule: parse_bytes.induct)
  case (1 t ctx bs)
  show ?case
  proof (cases "cut_line bs")
    case None
    then show ?thesis using "1.prems" by (simp add: parse_bytes.simps [of t ctx bs])
  next
    case (Some lr)
    obtain line rest where lr: "lr = (line, rest)" by (cases lr)
    note p = "1.prems" [unfolded parse_bytes.simps [of t ctx bs] Some lr]
    show ?thesis using p "1.IH" [OF Some lr [symmetric]]
      by (cases "ctx_state ctx = kExpectRequestLine") (auto simp: gotAll_def split: sum.splits if_splits)
  qed
qed

lemma as_string_badRequest: "as_string (cstr badRequest) = badRequest"
  unfolding as_string_cstr_upto by (rule upto_nul_id) (simp add: badRequest_def kCRLF_def)

text \<open>A method that was recognised once is not accepted a second time.\<close>

lemma setMethod_twice:
  assumes "processRequestLine line rq = Inr (ok, rq')" "rq_method rq' \<noteq> kInvalid" "rq_method rq = kInvalid"
  shows "processRequestLine line rq' = Inl (AssertionFailed ''method_ == kInvalid'')"
proof -
  have "std_find line (CHR '' '') \<noteq> length line"
    using assms by (auto simp: processRequestLine_def)
  then show ?thesis using assms(2) by (simp add: processRequestLine_def setMethod_def ensure_fails)
qed

text \<open>\<open>onMessage\<close> on every branch.\<close>

lemma http_onMessage_ok:
  assumes "ctx_state ctx \<in> {kExpectRequestLine, kExpectHeaders}"
    and "buffers_ok conn" "write_ok wr" "never_resets wr" "state conn = kConnected"
    and parse: "parse_bytes t ctx (content (inputBuffer conn)) = Inr (ok, ctx1, rest)"
  shows "\<exists>conn'. http_onMessage wr cb t ctx conn = Some (Inr (if gotAll ctx1 then new_HttpContext else ctx1, conn')) \<and>
    buffers_ok conn' \<and> content (inputBuffer conn') = rest \<and>
    stream conn' = stream conn @
      (if \<not> ok then badRequest
       else if gotAll ctx1 then response_bytes (http_answer cb (ctx_request ctx1)) else []) \<and>
    state conn' =
      (if \<not> ok \<or> gotAll ctx1 \<and> rs_closeConnection (http_answer cb (ctx_request ctx1)) then kDisconnecting
       else kConnected)"
proof -
  obtain b where b: "parseRequest t ctx (inputBuffer conn) = Some (Inr (ok, ctx1, b))" "buffer_wf b" "content b = rest"
    using parse_loop_refines [of "inputBuffer conn", OF _ refl assms(1), of t] assms(2) parse
    by (auto simp: parseRequest_def parse_rel_def buffers_ok_def)
  let ?c = "conn\<lparr>inputBuffer := b\<rparr>"
  have c: "buffers_ok ?c" "state ?c = kConnected" "stream ?c = stream conn"
    using assms(2,5) b(2) by (simp_all add: buffers_ok_def stream_def)
  show ?thesis
  proof (cases ok)
    case False
    obtain c1 where "sendInLoop wr ?c badRequest = Inr c1" "buffers_ok c1" "state c1 = kConnected"
      "inputBuffer c1 = b" "stream c1 = stream conn @ badRequest"
      using send_connected [OF c(1) assms(3,4) c(2), of badRequest] c(3) by auto
    moreover have "\<not> gotAll ctx1" using refused_not_gotAll [of t ctx _ ctx1 rest] parse False by simp
    ultimately show ?thesis
      using False b c(2) by (simp add: http_onMessage_def send_def as_string_badRequest)
  next
    case True
    show ?thesis
    proof (cases "gotAll ctx1")
      case False
      then show ?thesis using True b c by (simp add: http_onMessage_def)
    next
      case got: True
      then show ?thesis
        using True b c http_onRequest_ok [OF c(1) assms(3,4) c(2), of cb "ctx_request ctx1"]
        by (auto simp: http_onMessage_def)
    qed
  qed
qed

subsection \<open>Properties\<close>

text \<open>C18: What \<open>onMessage\<close> does with a message on a connected connection, on every branch. A bad
  request line is answered with 400 and the connection shut down; a complete request is
  answered with the bytes of the response that the callback made, the connection is shut down
  exactly when the response says so, and the context starts anew; an incomplete request sends
  nothing. The bytes behind the request stay in the buffer in each case.\<close>

theorem http_onMessage_answers:
  assumes "ctx_state ctx \<in> {kExpectRequestLine, kExpectHeaders}"
    and "buffers_ok conn" "write_ok wr" "never_resets wr" "state conn = kConnected"
    and parse: "parse_bytes t ctx (content (inputBuffer conn)) = Inr (ok, ctx1, rest)"
  shows "\<exists>conn'. http_onMessage wr cb t ctx conn = Some (Inr (if gotAll ctx1 then new_HttpContext else ctx1, conn')) \<and>
    buffers_ok conn' \<and> content (inputBuffer conn') = rest \<and>
    stream conn' = stream conn @
      (if \<not> ok then badRequest
       else if gotAll ctx1 then response_bytes (http_answer cb (ctx_request ctx1)) else []) \<and>
    state conn' =
      (if \<not> ok \<or> gotAll ctx1 \<and> rs_closeConnection (http_answer cb (ctx_request ctx1)) then kDisconnecting
       else kConnected)"
  by (rule http_onMessage_ok [OF assms])

definition sample_conn :: "byte list \<Rightarrow> TcpConnection" where
  "sample_conn bs =
     (new_TcpConnection ''c'' 3)\<lparr>state := kConnected,
        inputBuffer := \<lparr>buffer = replicate 8 (CHR 0x00) @ bs, readerIndex = 8, writerIndex = 8 + length bs\<rparr>\<rparr>"

lemma sample_conn_ok: "buffers_ok (sample_conn bs)" "state (sample_conn bs) = kConnected"
  "content (inputBuffer (sample_conn bs)) = bs"
  by (simp_all add: sample_conn_def buffers_ok_def buffer_wf_def content_def subrange_def new_TcpConnection_def
      kCheapPrepend_def fresh_buffer_def)

theorem http_onMessage_answers_witness:
  "\<exists>conn'. http_onMessage (\<lambda>c d. Wrote (length d)) defaultHttpCallback (Timestamp 7) new_HttpContext
      (sample_conn (print_request sample_request @ ''GET'')) = Some (Inr (new_HttpContext, conn')) \<and>
    content (inputBuffer conn') = ''GET'' \<and> state conn' = kDisconnecting"
proof -
  have "parse_bytes (Timestamp 7) new_HttpContext (content (inputBuffer (sample_conn (print_request sample_request @ ''GET'')))) =
    Inr (True, \<lparr>ctx_state = kGotAll, ctx_request = sample_request\<rparr>, ''GET'')"
    using parse_print [OF sample_printable, of "''GET''"] by (simp add: sample_conn_ok) (simp add: sample_request_def)
  from http_onMessage_answers [OF _ sample_conn_ok(1) _ _ sample_conn_ok(2) this,
      of "\<lambda>c d. Wrote (length d)" defaultHttpCallback]
  show ?thesis
    by (auto simp: new_HttpContext_def write_ok_def never_resets_def gotAll_def http_answer_def
        defaultHttpCallback_def setCloseConnection_def)
qed

text \<open>C38: A client can abort the server. After a request line whose method is known but whose rest
  is bad, the server answers 400 and half-closes, but keeps the line in the buffer and the
  method in the context; any further bytes from that client fail the assertion of
  \<open>setMethod\<close>.\<close>

theorem http_second_message_aborts:
  assumes "buffers_ok conn" "write_ok wr" "never_resets wr" "state conn = kConnected"
    and line: "cut_line (content (inputBuffer conn)) = Some (line, rest)"
      "processRequestLine line new_HttpRequest = Inr (False, rq)" "rq_method rq \<noteq> kInvalid"
  shows "\<exists>ctx1 conn1. http_onMessage wr cb t new_HttpContext conn = Some (Inr (ctx1, conn1)) \<and>
    state conn1 = kDisconnecting \<and>
    (\<forall>seg. \<exists>b. append_data (inputBuffer conn1) seg = Inr b \<and>
       http_onMessage wr cb t' ctx1 (conn1\<lparr>inputBuffer := b\<rparr>) = Some (Inl (AssertionFailed ''method_ == kInvalid'')))"
proof -
  let ?bs = "content (inputBuffer conn)" and ?ctx = "new_HttpContext\<lparr>ctx_request := rq\<rparr>"
  have st: "ctx_state new_HttpContext \<in> {kExpectRequestLine, kExpectHeaders}" "\<not> gotAll ?ctx"
    by (simp_all add: new_HttpContext_def gotAll_def)
  have "parse_bytes t new_HttpContext ?bs = Inr (False, ?ctx, ?bs)"
    using line by (subst parse_bytes.simps) (simp add: new_HttpContext_def)
  from http_onMessage_answers [OF st(1) assms(1-4) this, of cb] st(2)
  obtain conn1 where conn1: "http_onMessage wr cb t new_HttpContext conn = Some (Inr (?ctx, conn1))" "buffers_ok conn1"
    "content (inputBuffer conn1) = ?bs" "state conn1 = kDisconnecting"
    by auto
  have "\<exists>b. append_data (inputBuffer conn1) seg = Inr b \<and>
     http_onMessage wr cb t' ?ctx (conn1\<lparr>inputBuffer := b\<rparr>) = Some (Inl (AssertionFailed ''method_ == kInvalid''))" for seg
  proof -
    obtain b where b: "append_data (inputBuffer conn1) seg = Inr b" "buffer_wf b" "content b = ?bs @ seg"
      using append_data_ok [of "inputBuffer conn1" seg] conn1(2,3) by (auto simp: buffers_ok_def)
    have "parse_bytes t' ?ctx (content b) = Inl (AssertionFailed ''method_ == kInvalid'')"
      using cut_line_append [OF line(1), of seg] b(3) setMethod_twice [OF line(2,3)]
      by (subst parse_bytes.simps) (simp add: new_HttpContext_def new_HttpRequest_def)
    then have "parseRequest t' ?ctx b = Some (Inl (AssertionFailed ''method_ == kInvalid''))"
      using parse_loop_refines [OF b(2) refl, of ?ctx t'] by (auto simp: parseRequest_def parse_rel_def new_HttpContext_def)
    then show ?thesis using b(1) by (simp add: http_onMessage_def)
  qed
  then show ?thesis using conn1(1,4) by blast
qed

theorem http_second_message_aborts_witness:
  "\<exists>ctx1 conn1. http_onMessage (\<lambda>c d. Wrote (length d)) defaultHttpCallback (Timestamp 0) new_HttpContext
      (sample_conn (''GET /'' @ kCRLF @ [])) = Some (Inr (ctx1, conn1)) \<and> state conn1 = kDisconnecting"
proof -
  have "cut_line (content (inputBuffer (sample_conn (''GET /'' @ kCRLF @ [])))) = Some (''GET /'', [])"
    unfolding sample_conn_ok by (rule cut_line_first) simp
  moreover have "processRequestLine ''GET /'' new_HttpRequest = Inr (False, new_HttpRequest\<lparr>rq_method := kGet\<rparr>)"
    by (simp add: processRequestLine_def setMethod_def processTarget_def new_HttpRequest_def)
  ultimately show ?thesis
    using http_second_message_aborts [OF sample_conn_ok(1) _ _ sample_conn_ok(2),
        of "\<lambda>c d. Wrote (length d)" "''GET /'' @ kCRLF @ []" "''GET /''" "[]" "new_HttpRequest\<lparr>rq_method := kGet\<rparr>"
          defaultHttpCallback "Timestamp 0" "Timestamp 0"]
    by (force simp: write_ok_def never_resets_def)
qed



end
