(* ===== verification/HttpSession.thy ===== *)
theory HttpSession
  imports HttpServer
begin

section \<open>HTTP over a connection\<close>

text \<open>
  The composition of the connection, its buffers, the parser and the callbacks of the server: a
  connection whose message callback is \<open>HttpServer::onMessage\<close>, under the read events of its
  channel. The theorems follow a whole session: the requests of a client arrive in segments that
  the network cut as it liked, and the output stream is the sequence of the responses.
\<close>

subsection \<open>A read event\<close>

text \<open>\<open>TcpConnection::handleRead\<close> with the callbacks of \<open>HttpServer\<close>: the connection callback of a
  connection that closes does nothing, and the close callback only hands the connection to the
  server.\<close>

definition http_handleRead ::
  "(TcpConnection \<Rightarrow> byte list \<Rightarrow> write_result) \<Rightarrow> (HttpRequest \<Rightarrow> HttpResponse \<Rightarrow> HttpResponse) \<Rightarrow>
   (TcpConnection \<Rightarrow> nat list \<Rightarrow> int + byte list) \<Rightarrow> Timestamp \<Rightarrow> HttpContext \<Rightarrow> TcpConnection \<Rightarrow>
   (HttpContext \<times> TcpConnection) res option" where
  "http_handleRead wr cb rv t ctx conn =
     (case readFd (rv conn) (inputBuffer conn) 0 of
        Inl e \<Rightarrow> Some (Inl e)
      | Inr (n, saveErrno, b) \<Rightarrow>
          (let c1 = conn\<lparr>inputBuffer := b\<rparr>
           in if n > 0 then http_onMessage wr cb t ctx (emit (EMessageCallback t) c1)
              else if n = 0 then Some (rbind (handleClose (\<lambda>_ c. Inr c) c1) (\<lambda>c2. Inr (http_onConnection c2 ctx, c2)))
              else Some (Inr (ctx, c1))))"

text \<open>It is \<open>handleRead\<close> of the connection with \<open>onMessage\<close> as its message callback, together with
  the context that \<open>onMessage\<close> leaves.\<close>

definition http_user ::
  "(TcpConnection \<Rightarrow> byte list \<Rightarrow> write_result) \<Rightarrow> (HttpRequest \<Rightarrow> HttpResponse \<Rightarrow> HttpResponse) \<Rightarrow> HttpContext \<Rightarrow>
   effect \<Rightarrow> TcpConnection \<Rightarrow> TcpConnection res" where
  "http_user wr cb ctx e c =
     (case e of
        EMessageCallback t \<Rightarrow>
          (case http_onMessage wr cb t ctx c of
             Some r \<Rightarrow> rbind r (\<lambda>(ctx1, c1). Inr c1)
           | None \<Rightarrow> Inl (UndefinedBehaviour ''parseRequest does not return''))
      | _ \<Rightarrow> Inr c)"

lemma http_handleRead_handleRead:
  assumes "http_handleRead wr cb rv t ctx conn = Some r"
  shows "handleRead (http_user wr cb ctx) rv t conn = rbind r (\<lambda>(ctx1, c1). Inr c1)"
  using assms
  by (auto simp: http_handleRead_def handleRead_def http_user_def handleClose_def ensure_def Let_def
      split: sum.splits if_splits)

text \<open>The events of a session: each delivers a segment at a time.\<close>

fun http_session ::
  "(TcpConnection \<Rightarrow> byte list \<Rightarrow> write_result) \<Rightarrow> (HttpRequest \<Rightarrow> HttpResponse \<Rightarrow> HttpResponse) \<Rightarrow>
   (Timestamp \<times> byte list) list \<Rightarrow> HttpContext \<Rightarrow> TcpConnection \<Rightarrow> (HttpContext \<times> TcpConnection) res option" where
  "http_session wr cb [] ctx conn = Some (Inr (ctx, conn))"
| "http_session wr cb ((t, seg) # evs) ctx conn =
     (case http_handleRead wr cb (\<lambda>_ _. Inr seg) t ctx conn of
        None \<Rightarrow> None
      | Some (Inl e) \<Rightarrow> Some (Inl e)
      | Some (Inr (ctx1, conn1)) \<Rightarrow> http_session wr cb evs ctx1 conn1)"

lemma http_session_append:
  "http_session wr cb (xs @ ys) ctx conn =
     (case http_session wr cb xs ctx conn of
        None \<Rightarrow> None
      | Some (Inl e) \<Rightarrow> Some (Inl e)
      | Some (Inr (ctx1, conn1)) \<Rightarrow> http_session wr cb ys ctx1 conn1)"
  by (induction wr cb xs ctx conn rule: http_session.induct) (auto split: option.splits sum.splits)

text \<open>A segment that is not empty is appended to the input and handed to \<open>onMessage\<close>.\<close>

lemma http_handleRead_segment:
  assumes "buffers_ok conn" "seg \<noteq> []"
  shows "\<exists>c. http_handleRead wr cb (\<lambda>_ _. Inr seg) t ctx conn = http_onMessage wr cb t ctx c \<and> buffers_ok c \<and>
    content (inputBuffer c) = content (inputBuffer conn) @ seg \<and> stream c = stream conn \<and> state c = state conn"
proof -
  obtain b where b: "readFd (\<lambda>_. Inr seg) (inputBuffer conn) 0 = Inr (int (length seg), 0, b)" "buffer_wf b"
      "content b = content (inputBuffer conn) @ seg"
    using readFd_data [of "inputBuffer conn" "\<lambda>_. Inr seg" seg 0] assms(1) by (auto simp: buffers_ok_def)
  let ?c = "emit (EMessageCallback t) (conn\<lparr>inputBuffer := b\<rparr>)"
  have "http_handleRead wr cb (\<lambda>_ _. Inr seg) t ctx conn = http_onMessage wr cb t ctx ?c"
    using b(1) assms(2) by (simp add: http_handleRead_def)
  then show ?thesis using b(2,3) assms(1) by (intro exI [of _ ?c]) (simp add: emit_def buffers_ok_def stream_def)
qed

subsection \<open>The time of receipt\<close>

text \<open>The parser writes the time of the event into the request and never reads it.\<close>

definition at_time :: "Timestamp \<Rightarrow> HttpContext \<Rightarrow> HttpContext" where
  "at_time t ctx = ctx\<lparr>ctx_request := (ctx_request ctx)\<lparr>rq_receiveTime := t\<rparr>\<rparr>"

definition untimed :: "(bool \<times> HttpContext \<times> byte list) res \<Rightarrow> (bool \<times> HttpContext \<times> byte list) res" where
  "untimed r = map_sum id (\<lambda>(ok, ctx, rest). (ok, at_time (Timestamp 0) ctx, rest)) r"

lemma at_time_simps [simp]:
  "at_time s (at_time t ctx) = at_time s ctx" "ctx_state (at_time t ctx) = ctx_state ctx"
  "ctx_request (at_time t ctx) = (ctx_request ctx)\<lparr>rq_receiveTime := t\<rparr>"
  "gotAll (at_time t ctx) = gotAll ctx"
  by (simp_all add: at_time_def gotAll_def)

lemma at_time_eq:
  "at_time t ctx = \<lparr>ctx_state = s, ctx_request = rq\<rparr> \<longleftrightarrow> ctx_state ctx = s \<and> (ctx_request ctx)\<lparr>rq_receiveTime := t\<rparr> = rq"
  by (cases ctx) (simp add: at_time_def)

lemma at_time_new [simp]: "at_time (Timestamp 0) new_HttpContext = new_HttpContext"
  by (simp add: at_time_def new_HttpContext_def new_HttpRequest_def)

lemma setMethod_time:
  "setMethod m (rq\<lparr>rq_receiveTime := t\<rparr>) =
     map_sum id (\<lambda>(ok, rq). (ok, rq\<lparr>rq_receiveTime := t\<rparr>)) (setMethod m rq)"
  by (simp add: setMethod_def ensure_def Let_def)

lemma processTarget_time:
  "processTarget rest (rq\<lparr>rq_receiveTime := t\<rparr>) = (\<lambda>(ok, rq). (ok, rq\<lparr>rq_receiveTime := t\<rparr>)) (processTarget rest rq)"
  by (simp add: processTarget_def setQuery_def setPath_def setVersion_def Let_def)

lemma processRequestLine_time:
  "processRequestLine line (rq\<lparr>rq_receiveTime := t\<rparr>) =
     map_sum id (\<lambda>(ok, rq). (ok, rq\<lparr>rq_receiveTime := t\<rparr>)) (processRequestLine line rq)"
  by (auto simp: processRequestLine_def setMethod_time processTarget_time rbind_def Let_def split: sum.splits)

lemma rq_addHeader_time:
  "rq_addHeader line i (rq\<lparr>rq_receiveTime := t\<rparr>) = (rq_addHeader line i rq)\<lparr>rq_receiveTime := t\<rparr>"
  by (simp add: rq_addHeader_def Let_def)

lemma parse_bytes_untimed: "untimed (parse_bytes t (at_time x ctx) bs) = untimed (parse_bytes s ctx bs)"
proof (induction s ctx bs arbitrary: x rule: parse_bytes.induct)
  case (1 s ctx bs)
  show ?case
  proof (cases "cut_line bs")
    case None
    then show ?thesis by (simp add: parse_bytes.simps [of _ _ bs] untimed_def)
  next
    case (Some lr)
    obtain line rest where lr: "lr = (line, rest)" by (cases lr)
    note cut = Some [unfolded lr]
    show ?thesis
    proof (cases "ctx_state ctx = kExpectRequestLine")
      case line: True
      show ?thesis
      proof (cases "processRequestLine line (ctx_request ctx)")
        case (Inl e)
        then show ?thesis using cut line
          by (simp add: parse_bytes.simps [of _ _ bs] processRequestLine_time untimed_def)
      next
        case (Inr p)
        obtain ok rq where p: "p = (ok, rq)" by (cases p)
        let ?c = "ctx\<lparr>ctx_state := kExpectHeaders, ctx_request := setReceiveTime s rq\<rparr>"
        have e: "(at_time x ctx)\<lparr>ctx_state := kExpectHeaders, ctx_request := setReceiveTime t (rq\<lparr>rq_receiveTime := x\<rparr>)\<rparr> = at_time t ?c"
          by (simp add: at_time_def setReceiveTime_def)
        show ?thesis
          using cut line Inr p "1.IH"(1) [OF Some lr [symmetric] line Inr p [symmetric], of t] e
          by (cases ok) (simp_all add: parse_bytes.simps [of _ _ bs] processRequestLine_time untimed_def at_time_def)
      qed
    next
      case head: False
      let ?c = "ctx\<lparr>ctx_request := rq_addHeader line (std_find line (CHR '':'')) (ctx_request ctx)\<rparr>"
      have e: "(at_time x ctx)\<lparr>ctx_request := (rq_addHeader line (std_find line (CHR '':'')) (ctx_request ctx))\<lparr>rq_receiveTime := x\<rparr>\<rparr> = at_time x ?c"
        by (simp add: at_time_def)
      show ?thesis
        using cut head "1.IH"(2) [OF Some lr [symmetric] head, of x] e
        by (cases "CHR '':'' \<in> set line")
          (simp_all add: parse_bytes.simps [of _ _ bs] rq_addHeader_time untimed_def at_time_def)
    qed
  qed
qed

subsection \<open>The requests still owed an answer\<close>

abbreviation printed :: "HttpRequest list \<Rightarrow> byte list" where
  "printed rqs \<equiv> concat (map print_request rqs)"

text \<open>\<open>owed rqs ctx bs\<close>: a context that reads on at the bytes \<open>bs\<close> will find the requests \<open>rqs\<close>, up to
  their times.\<close>

fun owed :: "HttpRequest list \<Rightarrow> HttpContext \<Rightarrow> byte list \<Rightarrow> bool" where
  "owed [] ctx bs \<longleftrightarrow> bs = [] \<and> ctx = new_HttpContext"
| "owed (rq # rqs) ctx bs \<longleftrightarrow>
     (\<forall>t. untimed (parse_bytes t ctx bs) =
        Inr (True, \<lparr>ctx_state = kGotAll, ctx_request = rq\<lparr>rq_receiveTime := Timestamp 0\<rparr>\<rparr>, printed rqs))"

lemma printable_time [simp]: "printable (rq\<lparr>rq_receiveTime := t\<rparr>) = printable rq"
  by (simp add: printable_def)

lemma print_request_time [simp]: "print_request (rq\<lparr>rq_receiveTime := t\<rparr>) = print_request rq"
  by (simp add: print_request_def)

lemma owed_new: "list_all printable rqs \<Longrightarrow> owed rqs new_HttpContext (printed rqs)"
proof (cases rqs)
  case (Cons rq rqs')
  assume "list_all printable rqs"
  then have "parse_bytes t new_HttpContext (print_request rq @ printed rqs') =
      Inr (True, \<lparr>ctx_state = kGotAll, ctx_request = rq\<lparr>rq_receiveTime := t\<rparr>\<rparr>, printed rqs')" for t
    using parse_print [of "rq\<lparr>rq_receiveTime := t\<rparr>" "printed rqs'"] Cons by simp
  then show ?thesis using Cons by (simp add: untimed_def at_time_def)
qed simp

text \<open>What a message that ends inside the stream does to what is owed.\<close>

lemma owed_message:
  assumes "owed (rq # rqs) ctx (bs @ ys)" "\<not> gotAll ctx"
  obtains ctx1 rest where "parse_bytes t ctx bs = Inr (True, ctx1, rest)"
    "gotAll ctx1 \<Longrightarrow> (ctx_request ctx1)\<lparr>rq_receiveTime := Timestamp 0\<rparr> = rq\<lparr>rq_receiveTime := Timestamp 0\<rparr> \<and> rest @ ys = printed rqs"
    "\<not> gotAll ctx1 \<Longrightarrow> owed (rq # rqs) ctx1 (rest @ ys)"
proof -
  have whole: "untimed (parse_bytes t ctx (bs @ ys)) =
      Inr (True, \<lparr>ctx_state = kGotAll, ctx_request = rq\<lparr>rq_receiveTime := Timestamp 0\<rparr>\<rparr>, printed rqs)" for t
    using assms(1) by simp
  note split = parse_bytes_append [OF assms(2), of t bs ys]
  show thesis
  proof (cases "parse_bytes t ctx bs")
    case (Inl e)
    then show thesis using whole [of t] split by (simp add: untimed_def)
  next
    case (Inr p)
    obtain ok ctx1 rest where p: "p = (ok, ctx1, rest)" by (cases p)
    have ok: "ok" using whole [of t] split Inr p by (cases ok) (simp_all add: untimed_def)
    show thesis
    proof (rule that)
      show "parse_bytes t ctx bs = Inr (True, ctx1, rest)" using Inr p ok by simp
      show "(ctx_request ctx1)\<lparr>rq_receiveTime := Timestamp 0\<rparr> = rq\<lparr>rq_receiveTime := Timestamp 0\<rparr> \<and> rest @ ys = printed rqs"
        if "gotAll ctx1"
        using that whole [of t] split Inr p ok by (auto simp: untimed_def at_time_eq)
      show "owed (rq # rqs) ctx1 (rest @ ys)" if g: "\<not> gotAll ctx1"
      proof -
        have w: "untimed (parse_bytes t ctx1 (rest @ ys)) =
            Inr (True, \<lparr>ctx_state = kGotAll, ctx_request = rq\<lparr>rq_receiveTime := Timestamp 0\<rparr>\<rparr>, printed rqs)"
          using g whole [of t] split Inr p ok by simp
        have "untimed (parse_bytes s ctx1 (rest @ ys)) = untimed (parse_bytes t ctx1 (rest @ ys))" for s
        proof -
          have "ctx1 = at_time (rq_receiveTime (ctx_request ctx1)) ctx1" by (simp add: at_time_def)
          then show ?thesis by (metis parse_bytes_untimed)
        qed
        then show ?thesis using w by simp
      qed
    qed
  qed
qed

text \<open>While nothing was answered no line is left unread, so a request that has arrived completely has
  been answered.\<close>

lemma owed_answered:
  assumes "owed (rq # rqs) ctx bs" "cut_line bs = None" "\<not> gotAll ctx"
  shows False
  using assms by (auto simp: parse_bytes.simps [of _ ctx bs] untimed_def at_time_eq gotAll_def)

subsection \<open>Answers\<close>

definition timeless :: "(HttpRequest \<Rightarrow> HttpResponse \<Rightarrow> HttpResponse) \<Rightarrow> bool" where
  "timeless cb \<longleftrightarrow> (\<forall>rq t resp. cb (rq\<lparr>rq_receiveTime := t\<rparr>) resp = cb rq resp)"

lemma http_answer_time:
  assumes "timeless cb"
  shows "http_answer cb (rq\<lparr>rq_receiveTime := t\<rparr>) = http_answer cb rq"
  using assms by (simp add: timeless_def http_answer_def wants_close_def getHeader_def)

lemma http_answer_same:
  assumes "timeless cb" "rq\<lparr>rq_receiveTime := t\<rparr> = rq'\<lparr>rq_receiveTime := t\<rparr>"
  shows "http_answer cb rq = http_answer cb rq'"
  using http_answer_time [OF assms(1)] assms(2) by metis

abbreviation answers :: "(HttpRequest \<Rightarrow> HttpResponse \<Rightarrow> HttpResponse) \<Rightarrow> HttpRequest list \<Rightarrow> byte list" where
  "answers cb rqs \<equiv> concat (map (\<lambda>rq. response_bytes (http_answer cb rq)) rqs)"

text \<open>Requests that may be sent on one connection: printed forms exist and the answers keep the
  connection open.\<close>

definition keeps_alive :: "(HttpRequest \<Rightarrow> HttpResponse \<Rightarrow> HttpResponse) \<Rightarrow> HttpRequest list \<Rightarrow> bool" where
  "keeps_alive cb rqs \<longleftrightarrow> list_all (\<lambda>rq. printable rq \<and> \<not> rs_closeConnection (http_answer cb rq)) rqs"

lemma keeps_alive_Cons [simp]:
  "keeps_alive cb (rq # rqs) \<longleftrightarrow> printable rq \<and> \<not> rs_closeConnection (http_answer cb rq) \<and> keeps_alive cb rqs"
  by (simp add: keeps_alive_def)

lemma keeps_alive_printable: "keeps_alive cb rqs \<Longrightarrow> list_all printable rqs"
  by (simp add: keeps_alive_def list_all_iff)

text \<open>A connection in the middle of a session.\<close>

definition session_ok :: "HttpRequest list \<Rightarrow> HttpContext \<Rightarrow> TcpConnection \<Rightarrow> byte list \<Rightarrow> bool" where
  "session_ok rqs ctx conn ys \<longleftrightarrow>
     buffers_ok conn \<and> state conn = kConnected \<and> ctx_state ctx \<in> {kExpectRequestLine, kExpectHeaders} \<and>
     owed rqs ctx (content (inputBuffer conn) @ ys)"

text \<open>One event answers the next request or none.\<close>

lemma http_event:
  assumes s: "session_ok rqs ctx conn (seg @ ys)" and seg: "seg \<noteq> []"
    and wr: "write_ok wr" "never_resets wr" and cb: "timeless cb" "keeps_alive cb rqs"
  obtains k ctx1 conn1 where "http_handleRead wr cb (\<lambda>_ _. Inr seg) t ctx conn = Some (Inr (ctx1, conn1))"
    "k \<le> 1" "k \<le> length rqs" "session_ok (drop k rqs) ctx1 conn1 ys" "stream conn1 = stream conn @ answers cb (take k rqs)"
    "k = 0 \<Longrightarrow> cut_line (content (inputBuffer conn1)) = None"
proof -
  note ok = s [unfolded session_ok_def]
  obtain c where c: "http_handleRead wr cb (\<lambda>_ _. Inr seg) t ctx conn = http_onMessage wr cb t ctx c" "buffers_ok c"
      "content (inputBuffer c) = content (inputBuffer conn) @ seg" "stream c = stream conn" "state c = kConnected"
    using http_handleRead_segment [OF _ seg, of conn] ok by metis
  obtain rq rqs' where rqs: "rqs = rq # rqs'" using ok seg by (cases rqs) auto
  have ng: "\<not> gotAll ctx" using ok by (auto simp: gotAll_def)
  have "owed (rq # rqs') ctx ((content (inputBuffer conn) @ seg) @ ys)" using ok rqs by simp
  then obtain ctx1 rest where p: "parse_bytes t ctx (content (inputBuffer conn) @ seg) = Inr (True, ctx1, rest)"
      "gotAll ctx1 \<Longrightarrow> (ctx_request ctx1)\<lparr>rq_receiveTime := Timestamp 0\<rparr> = rq\<lparr>rq_receiveTime := Timestamp 0\<rparr> \<and> rest @ ys = printed rqs'"
      "\<not> gotAll ctx1 \<Longrightarrow> owed (rq # rqs') ctx1 (rest @ ys)"
    using owed_message [OF _ ng] by metis
  obtain conn1 where conn1: "http_onMessage wr cb t ctx c = Some (Inr (if gotAll ctx1 then new_HttpContext else ctx1, conn1))"
      "buffers_ok conn1" "content (inputBuffer conn1) = rest"
      "stream conn1 = stream conn @ (if gotAll ctx1 then response_bytes (http_answer cb (ctx_request ctx1)) else [])"
      "state conn1 = (if gotAll ctx1 \<and> rs_closeConnection (http_answer cb (ctx_request ctx1)) then kDisconnecting else kConnected)"
    using http_onMessage_ok [OF _ c(2) wr c(5), of ctx t True ctx1 rest cb] ok c(3,4) p(1) by auto
  show thesis
  proof (cases "gotAll ctx1")
    case True
    then have a: "http_answer cb (ctx_request ctx1) = http_answer cb rq" and r: "rest @ ys = printed rqs'"
      using p(2) http_answer_same [OF cb(1)] by blast+
    have "session_ok rqs' new_HttpContext conn1 ys"
      using True conn1 a r cb(2) rqs owed_new [OF keeps_alive_printable, of cb rqs']
      by (simp add: session_ok_def) (simp add: new_HttpContext_def)
    then show thesis using that [of new_HttpContext conn1 1] c(1) conn1 True a rqs by simp
  next
    case False
    have "ctx_state ctx1 \<in> {kExpectRequestLine, kExpectHeaders}"
      using parse_bytes_states [OF p(1)] ok False by (auto simp: gotAll_def)
    then have "session_ok rqs ctx1 conn1 ys" using False conn1 p(3) rqs by (simp add: session_ok_def)
    moreover have "cut_line rest = None" by (rule parse_bytes_waits [OF p(1) False])
    ultimately show thesis using that [of ctx1 conn1 0] c(1) conn1 False by simp
  qed
qed

subsection \<open>Whole sessions\<close>

lemma keeps_alive_drop: "keeps_alive cb rqs \<Longrightarrow> keeps_alive cb (drop k rqs)"
  by (auto simp: keeps_alive_def list_all_iff dest: in_set_dropD)

lemma session_prefix:
  assumes "session_ok rqs ctx conn (concat (map snd evs) @ ys)" "[] \<notin> snd ` set evs"
    and "write_ok wr" "never_resets wr" "timeless cb" "keeps_alive cb rqs"
  shows "\<exists>k ctx' conn'. http_session wr cb evs ctx conn = Some (Inr (ctx', conn')) \<and> k \<le> length evs \<and> k \<le> length rqs \<and>
    session_ok (drop k rqs) ctx' conn' ys \<and> stream conn' = stream conn @ answers cb (take k rqs) \<and>
    (k = 0 \<longrightarrow> cut_line (content (inputBuffer conn)) = None \<longrightarrow> cut_line (content (inputBuffer conn')) = None)"
  using assms(1,2,6)
proof (induction evs arbitrary: rqs ctx conn)
  case Nil
  then show ?case by (intro exI [of _ 0]) simp
next
  case (Cons ev evs)
  obtain t seg where ev: "ev = (t, seg)" by (cases ev)
  have s: "session_ok rqs ctx conn (seg @ concat (map snd evs) @ ys)" and ne: "seg \<noteq> []" "[] \<notin> snd ` set evs"
    using Cons.prems(1,2) ev by auto
  obtain k1 ctx1 conn1 where 1: "http_handleRead wr cb (\<lambda>_ _. Inr seg) t ctx conn = Some (Inr (ctx1, conn1))"
      "k1 \<le> 1" "k1 \<le> length rqs" "session_ok (drop k1 rqs) ctx1 conn1 (concat (map snd evs) @ ys)"
      "stream conn1 = stream conn @ answers cb (take k1 rqs)" "k1 = 0 \<Longrightarrow> cut_line (content (inputBuffer conn1)) = None"
    by (rule http_event [OF s ne(1) assms(3-5) Cons.prems(3), where t = t]) blast
  obtain k2 ctx' conn' where 2: "http_session wr cb evs ctx1 conn1 = Some (Inr (ctx', conn'))" "k2 \<le> length evs"
      "k2 \<le> length (drop k1 rqs)" "session_ok (drop k2 (drop k1 rqs)) ctx' conn' ys"
      "stream conn' = stream conn1 @ answers cb (take k2 (drop k1 rqs))"
      "k2 = 0 \<longrightarrow> cut_line (content (inputBuffer conn1)) = None \<longrightarrow> cut_line (content (inputBuffer conn')) = None"
    using Cons.IH [OF 1(4) ne(2) keeps_alive_drop [OF Cons.prems(3)]] by (elim exE conjE) (rule that)
  have "answers cb (take (k1 + k2) rqs) = answers cb (take k1 rqs) @ answers cb (take k2 (drop k1 rqs))"
    by (simp add: take_add)
  then show ?case using 1 2 ev by (intro exI [of _ "k1 + k2"] exI [of _ ctx'] exI [of _ conn']) (auto simp: add.commute)
qed

text \<open>Between two requests.\<close>

definition idle :: "TcpConnection \<Rightarrow> bool" where
  "idle conn \<longleftrightarrow> buffers_ok conn \<and> state conn = kConnected \<and> content (inputBuffer conn) = []"

lemma idle_session_ok:
  assumes "idle conn" "keeps_alive cb rqs" "bs = printed rqs"
  shows "session_ok rqs new_HttpContext conn bs"
  using assms owed_new [OF keeps_alive_printable [OF assms(2)]]
  by (simp add: idle_def session_ok_def) (simp add: new_HttpContext_def)

lemma one_request:
  assumes "idle conn" "concat (map snd evs) = print_request rq" "[] \<notin> snd ` set evs"
    and "write_ok wr" "never_resets wr" "timeless cb" "keeps_alive cb [rq]"
  shows "\<exists>conn'. http_session wr cb evs new_HttpContext conn = Some (Inr (new_HttpContext, conn')) \<and> idle conn' \<and>
    stream conn' = stream conn @ response_bytes (http_answer cb rq)"
proof -
  have s: "session_ok [rq] new_HttpContext conn (concat (map snd evs) @ [])"
    using idle_session_ok [OF assms(1,7)] assms(2) by simp
  have "cut_line (content (inputBuffer conn)) = None" using assms(1) by (simp add: idle_def cut_line_def)
  then obtain k ctx' conn' where k: "http_session wr cb evs new_HttpContext conn = Some (Inr (ctx', conn'))" "k \<le> 1"
      "session_ok (drop k [rq]) ctx' conn' []" "stream conn' = stream conn @ answers cb (take k [rq])"
      "k = 0 \<longrightarrow> cut_line (content (inputBuffer conn')) = None"
    using session_prefix [OF s assms(3-7)] by auto
  have "k \<noteq> 0"
  proof
    assume "k = 0"
    then show False using k(3,5) owed_answered [of rq "[]" ctx' "content (inputBuffer conn')"]
      by (auto simp: session_ok_def gotAll_def)
  qed
  then have "k = 1" using k(2) by simp
  then show ?thesis using k by (simp add: session_ok_def idle_def)
qed

lemma aligned_requests:
  assumes "list_all2 (\<lambda>rq evs. concat (map snd evs) = print_request rq \<and> [] \<notin> snd ` set evs) rqs evss"
    and "idle conn" "write_ok wr" "never_resets wr" "timeless cb" "keeps_alive cb rqs"
  shows "\<exists>conn'. http_session wr cb (concat evss) new_HttpContext conn = Some (Inr (new_HttpContext, conn')) \<and>
    idle conn' \<and> stream conn' = stream conn @ answers cb rqs"
  using assms(1,2,6)
proof (induction rqs evss arbitrary: conn rule: list_all2_induct)
  case Nil
  then show ?case by simp
next
  case (Cons rq rqs evs evss)
  have al: "keeps_alive cb [rq]" "keeps_alive cb rqs" using Cons.prems(2) by (simp_all add: keeps_alive_def)
  obtain conn1 where 1: "http_session wr cb evs new_HttpContext conn = Some (Inr (new_HttpContext, conn1))" "idle conn1"
      "stream conn1 = stream conn @ response_bytes (http_answer cb rq)"
    using one_request [OF Cons.prems(1) _ _ assms(3-5) al(1), of evs] Cons.hyps(1) by blast
  from Cons.IH [OF 1(2) al(2)] show ?case using 1 by (auto simp: http_session_append)
qed

text \<open>A callback, a request and a connection for the witnesses.\<close>

definition hello_callback :: "HttpRequest \<Rightarrow> HttpResponse \<Rightarrow> HttpResponse" where
  "hello_callback rq resp = setCloseConnection False (setBody ''hi'' (setStatusMessage ''OK'' (setStatusCode k200OK resp)))"

lemma hello_ok: "timeless hello_callback" "keeps_alive hello_callback [sample_request]"
    "keeps_alive hello_callback [sample_request, sample_request]"
  using sample_printable
  by (simp_all add: timeless_def hello_callback_def keeps_alive_def http_answer_def setCloseConnection_def)

lemma idle_sample: "idle (sample_conn [])"
  using sample_conn_ok [of "[]"] by (simp add: idle_def)

abbreviation (input) write_all :: "TcpConnection \<Rightarrow> byte list \<Rightarrow> write_result" where
  "write_all c d \<equiv> Wrote (length d)"

lemma write_all_ok: "write_ok write_all" "never_resets write_all"
  by (simp_all add: write_ok_def never_resets_def)





end
