(* ===== verification/Date.thy ===== *)
theory Date
  imports Timestamp
begin

section \<open>Calendar dates (src/src/Date.h, src/src/Date.cpp)\<close>

text \<open>
  A date is its Julian day number. The divisions are those of C, which truncate. The numbers
  are unbounded here: for the years 1900 to 2500 that the header admits no intermediate value
  leaves the 32 bits of an \<open>int\<close>.

  The reference is the Gregorian calendar: the length of the months, with the rule for leap
  years. The two conversions are inverse to each other on its dates, and consecutive days have
  consecutive numbers.
\<close>

record YearMonthDay =
  ymd_year :: int
  ymd_month :: int
  ymd_day :: int

datatype Date = Date (julianDayNumber: int)

definition kDaysPerWeek :: int where "kDaysPerWeek = 7"

definition getJulianDayNumber :: "int \<Rightarrow> int \<Rightarrow> int \<Rightarrow> int" where
  "getJulianDayNumber year month day =
     (let a = (14 - month) sdiv 12;
          y = year + 4800 - a;
          m = month + 12 * a - 3
      in day + (153 * m + 2) sdiv 5 + y * 365 + y sdiv 4 - y sdiv 100 + y sdiv 400 - 32045)"

definition getYearMonthDay :: "int \<Rightarrow> YearMonthDay" where
  "getYearMonthDay j =
     (let a = j + 32044;
          b = (4 * a + 3) sdiv 146097;
          c = a - ((b * 146097) sdiv 4);
          d = (4 * c + 3) sdiv 1461;
          e = c - ((1461 * d) sdiv 4);
          m = (5 * e + 2) sdiv 153
      in \<lparr>ymd_year = b * 100 + d - 4800 + (m sdiv 10),
          ymd_month = m + 3 - 12 * (m sdiv 10),
          ymd_day = e - ((153 * m + 2) sdiv 5) + 1\<rparr>)"

definition kJulianDayOf1970_01_01 :: int where
  "kJulianDayOf1970_01_01 = getJulianDayNumber 1970 1 1"

definition Date_ymd :: "int \<Rightarrow> int \<Rightarrow> int \<Rightarrow> Date" where
  "Date_ymd y m d = Date (getJulianDayNumber y m d)"

definition Date_tm :: "tm \<Rightarrow> Date" where
  "Date_tm t = Date (getJulianDayNumber (tm_year t + 1900) (tm_mon t + 1) (tm_mday t))"

definition Date_valid :: "Date \<Rightarrow> bool" where
  "Date_valid d \<longleftrightarrow> julianDayNumber d > 0"

definition yearMonthDay :: "Date \<Rightarrow> YearMonthDay" where
  "yearMonthDay d = getYearMonthDay (julianDayNumber d)"

definition weekDay :: "Date \<Rightarrow> int" where
  "weekDay d = (julianDayNumber d + 1) smod kDaysPerWeek"

definition toIsoString :: "Date \<Rightarrow> string" where
  "toIsoString d =
     (let ymd = yearMonthDay d
      in snprintf 32 (dec_blank 4 (ymd_year ymd) @ ''-'' @ dec_zero 2 (ymd_month ymd) @ ''-'' @ dec_zero 2 (ymd_day ymd)))"

text \<open>The accessors of the parts of a date and the comparison operators.\<close>

definition Date_year :: "Date \<Rightarrow> int" where
  "Date_year d = ymd_year (yearMonthDay d)"

definition Date_month :: "Date \<Rightarrow> int" where
  "Date_month d = ymd_month (yearMonthDay d)"

definition Date_day :: "Date \<Rightarrow> int" where
  "Date_day d = ymd_day (yearMonthDay d)"

definition Date_less :: "Date \<Rightarrow> Date \<Rightarrow> bool" where
  "Date_less x y \<longleftrightarrow> julianDayNumber x < julianDayNumber y"

definition Date_eq :: "Date \<Rightarrow> Date \<Rightarrow> bool" where
  "Date_eq x y \<longleftrightarrow> julianDayNumber x = julianDayNumber y"

declare Date_less_def [simp]

lemma Date_eq_iff [simp]: "Date_eq x y \<longleftrightarrow> x = y"
  by (auto simp: Date_eq_def intro: Date.expand)

instantiation Date :: linorder
begin

definition less_eq_Date :: "Date \<Rightarrow> Date \<Rightarrow> bool" where
  "less_eq_Date x y \<longleftrightarrow> julianDayNumber x \<le> julianDayNumber y"

definition less_Date :: "Date \<Rightarrow> Date \<Rightarrow> bool" where
  "less_Date x y \<longleftrightarrow> Date_less x y"

instance
  by standard (auto simp: less_eq_Date_def less_Date_def intro: Date.expand)

end

subsection \<open>The calendar\<close>

definition leap :: "int \<Rightarrow> bool" where
  "leap y \<longleftrightarrow> y mod 4 = 0 \<and> (y mod 100 \<noteq> 0 \<or> y mod 400 = 0)"

definition month_length :: "int \<Rightarrow> int \<Rightarrow> int" where
  "month_length y m =
     (if m = 2 then (if leap y then 29 else 28) else if m \<in> {4, 6, 9, 11} then 30 else 31)"

definition valid_date :: "int \<Rightarrow> int \<Rightarrow> int \<Rightarrow> bool" where
  "valid_date y m d \<longleftrightarrow> (if m \<le> 2 then -4800 < y else -4800 \<le> y) \<and> 1 \<le> m \<and> m \<le> 12 \<and> 1 \<le> d \<and> d \<le> month_length y m"

definition next_day :: "int \<Rightarrow> int \<Rightarrow> int \<Rightarrow> int \<times> int \<times> int" where
  "next_day y m d =
     (if d < month_length y m then (y, m, d + 1) else if m < 12 then (y, m + 1, 1) else (y + 1, 1, 1))"

subsection \<open>Arithmetic of the conversions\<close>

text \<open>Years that begin in March: \<open>Y\<close> counts them from the year -4800, \<open>M\<close> counts months from
  March, and \<open>march_day\<close> is the number of days before the first of that month.\<close>

definition march_day :: "int \<Rightarrow> int \<Rightarrow> int" where
  "march_day Y M = (153 * M + 2) div 5 + 365 * Y + Y div 4 - Y div 100 + Y div 400"

lemma getJulianDayNumber_march:
  assumes "if m \<le> 2 then -4800 < y else -4800 \<le> y" "1 \<le> m" "m \<le> 12"
  shows "getJulianDayNumber y m d =
    d - 32045 + (if m \<le> 2 then march_day (y + 4799) (m + 9) else march_day (y + 4800) (m - 3))"
proof (cases "m \<le> 2")
  case True
  then have "(14 - m) sdiv 12 = 1" using assms by (simp add: sdiv_nonneg div_pos_geq)
  then show ?thesis using True assms
    by (simp add: getJulianDayNumber_def Let_def march_day_def sdiv_nonneg add.commute)
next
  case False
  then have "(14 - m) sdiv 12 = 0" using assms by (simp add: sdiv_nonneg)
  then show ?thesis using False assms
    by (simp add: getJulianDayNumber_def Let_def march_day_def sdiv_nonneg)
qed

lemma div_4: "(4 * k + x) div 4 = k + (x::int) div 4"
  by simp

lemma march_day_split:
  assumes "0 \<le> D" "D \<le> 99"
  shows "march_day (100 * B + D) M = (153 * M + 2) div 5 + 1461 * D div 4 + 146097 * B div 4"
proof -
  have "(100 * B + D) div 4 = 25 * B + D div 4" using div_4 [of "25 * B" D] by simp
  moreover have "1461 * D div 4 = 365 * D + D div 4" using div_4 [of "365 * D" D] by simp
  moreover have "146097 * B div 4 = 36524 * B + B div 4" using div_4 [of "36524 * B" B] by simp
  moreover have 100: "(100 * B + D) div 100 = B" using assms by simp
  moreover have "(100 * B + D) div 400 = B div 4"
    using 100 zdiv_zmult2_eq [of 4 "100 * B + D" 100] by simp
  ultimately show ?thesis unfolding march_day_def by algebra
qed

text \<open>One level of the reverse conversion: cycles of \<open>n\<close> days in four, that is \<open>n * q div 4\<close>
  days before cycle \<open>q\<close>, with \<open>n mod 4 = 1\<close>.\<close>

lemma cycle_start:
  fixes q n :: int
  assumes "n mod 4 = 1"
  shows "4 * (n * q div 4) = n * q - q mod 4"
proof -
  have "n * q mod 4 = q mod 4" using assms by (metis mod_mult_left_eq mult_1)
  then show ?thesis by (metis minus_mod_eq_mult_div)
qed

lemma cycle_forth:
  fixes q r n :: int
  assumes "n mod 4 = 1" "0 \<le> r" "4 * r + 3 - q mod 4 < n"
  shows "(4 * (r + n * q div 4) + 3) div n = q"
proof (rule int_div_pos_eq)
  show "4 * (r + n * q div 4) + 3 = n * q + (4 * r + 3 - q mod 4)"
    using cycle_start [OF assms(1), of q] by (simp add: algebra_simps)
  show "0 \<le> 4 * r + 3 - q mod 4" using assms(2) pos_mod_bound [of 4 q] by linarith
qed (rule assms)

lemma cycle_back:
  fixes x n :: int
  assumes "n mod 4 = 1" "0 < n" "q = (4 * x + 3) div n"
  shows "0 \<le> x - n * q div 4" "4 * (x - n * q div 4) + 3 - q mod 4 < n"
proof -
  define k s P r where "k = n * q div 4" and "s = q mod 4" and "P = n * q" and "r = (4 * x + 3) mod n"
  have 1: "4 * k = P - s" "4 * x + 3 = P + r" "0 \<le> r" "r < n" "0 \<le> s" "s < 4"
    using cycle_start [OF assms(1), of q] assms(2) by (simp_all add: k_def s_def P_def r_def assms(3))
  then have "4 * (x - k) + 3 - s = r" by (simp add: algebra_simps)
  then show "4 * (x - n * q div 4) + 3 - q mod 4 < n" using 1(4) by (simp add: k_def s_def)
  show "0 \<le> x - n * q div 4" unfolding k_def [symmetric] using 1 by linarith
qed

text \<open>The day \<open>e\<close> of the March year \<open>D\<close> of the century \<open>B\<close>.\<close>

lemma getYearMonthDay_march:
  assumes "0 \<le> B" "0 \<le> D" "D \<le> 99" "0 \<le> e"
    and "4 * e + 3 - D mod 4 < 1461" "4 * (e + 1461 * D div 4) + 3 - B mod 4 < 146097"
  shows "getYearMonthDay (e + 1461 * D div 4 + 146097 * B div 4 - 32044) =
    (let m = (5 * e + 2) div 153
     in \<lparr>ymd_year = 100 * B + D - 4800 + m div 10, ymd_month = m + 3 - 12 * (m div 10),
         ymd_day = e - (153 * m + 2) div 5 + 1\<rparr>)"
proof -
  let ?c = "e + 1461 * D div 4"
  have c: "0 \<le> ?c" "0 \<le> ?c + 146097 * B div 4" using assms by (simp_all add: pos_imp_zdiv_nonneg_iff)
  have b: "(4 * (?c + 146097 * B div 4) + 3) sdiv 146097 = B"
    using cycle_forth [of 146097 ?c B] assms(6) c by (simp add: sdiv_nonneg)
  have d: "(4 * ?c + 3) sdiv 1461 = D"
    using cycle_forth [of 1461 e D] assms(4,5) c by (simp add: sdiv_nonneg)
  define m where "m = (5 * e + 2) div 153"
  have m: "0 \<le> m" using assms(4) by (simp add: m_def pos_imp_zdiv_nonneg_iff)
  have s: "(B * 146097) sdiv 4 = 146097 * B div 4" "(1461 * D) sdiv 4 = 1461 * D div 4" "(5 * e + 2) sdiv 153 = m"
    "m sdiv 10 = m div 10" "(153 * m + 2) sdiv 5 = (153 * m + 2) div 5"
    using assms(1,2,4) m by (simp_all only: sdiv_nonneg mult.commute m_def zero_le_mult_iff) (simp_all add: sdiv_nonneg)
  have a: "?c + 146097 * B div 4 - 32044 + 32044 = ?c + 146097 * B div 4" by (rule diff_add_cancel)
  show ?thesis
    unfolding getYearMonthDay_def Let_def a b s m_def [symmetric] add_diff_cancel_right' d
    by (simp only: add_diff_cancel_right' s d mult.commute)
qed

text \<open>The last day of a March year exists exactly in leap years.\<close>

definition leap_march :: "int \<Rightarrow> int \<Rightarrow> bool" where
  "leap_march B D \<longleftrightarrow> D mod 4 = 3 \<and> (D = 99 \<longrightarrow> B mod 4 = 3)"

lemma leap_march_iff:
  assumes "0 \<le> D" "D \<le> 99"
  shows "leap (100 * B + D - 4799) \<longleftrightarrow> leap_march B D"
proof -
  define y where "y = 100 * B + D - 4799"
  have y: "y + 4800 = 100 * B + (D + 1)" by (simp add: y_def)
  have 4: "y mod 4 = 0 \<longleftrightarrow> D mod 4 = 3"
  proof -
    have "y = 4 * (25 * B - 1200) + (D + 1)" by (simp add: y_def)
    then have "y mod 4 = (D + 1) mod 4" by (metis mod_mult_self4)
    then show ?thesis by presburger
  qed
  have 100: "y mod 100 = 0 \<longleftrightarrow> D = 99"
  proof -
    have "y = 100 * (B - 48) + (D + 1)" by (simp add: y_def)
    then have "y mod 100 = (D + 1) mod 100" by (metis mod_mult_self4)
    then show ?thesis using assms by (cases "D = 99") auto
  qed
  have 400: "y mod 400 = 0 \<longleftrightarrow> B mod 4 = 3" if "D = 99"
  proof -
    have "y = 100 * (B + 1 - 48)" using that by (simp add: y_def)
    then have "y mod 400 = 100 * ((B + 1 - 48) mod 4)" using mod_mult_mult1 [of 100 "B + 1 - 48" 4] by simp
    then have "y mod 400 = 0 \<longleftrightarrow> (B + 1 - 48) mod 4 = 0" by simp
    moreover have "(B + 1 - 48) mod 4 = 0 \<longleftrightarrow> B mod 4 = 3" by presburger
    ultimately show ?thesis by (rule trans)
  qed
  show ?thesis unfolding leap_def leap_march_def y_def [symmetric] using 4 100 400 by auto
qed

lemma march_year_bounds:
  assumes "0 \<le> D" "D \<le> 99" "0 \<le> e"
  shows "4 * e + 3 - D mod 4 < 1461 \<and> 4 * (e + 1461 * D div 4) + 3 - B mod 4 < 146097 \<longleftrightarrow>
    e \<le> 364 \<or> e = 365 \<and> leap_march B D"
proof -
  have c: "4 * (1461 * D div 4) = 1461 * D - D mod 4" by (rule cycle_start) simp
  define b s where "b = B mod 4" and "s = D mod 4"
  have bs: "0 \<le> b" "b \<le> 3" "0 \<le> s" "s \<le> 3"
    using pos_mod_bound [of 4 B] pos_mod_bound [of 4 D] by (auto simp: b_def s_def)
  have "D = 99 \<Longrightarrow> s = 3" by (simp add: s_def)
  then show ?thesis
    unfolding leap_march_def distrib_left c b_def [symmetric] s_def [symmetric]
    using assms bs by (cases "D = 99") auto
qed

lemma march_months:
  assumes "0 \<le> M" "M \<le> (11::int)"
  shows "M \<in> {0, 1, 2, 3, 4, 5, 6, 7, 8, 9, 10, 11}"
  using assms by (simp only: insert_iff empty_iff) presburger

text \<open>Days of the March year by month and day of the month.\<close>

lemma march_month_day:
  fixes M d :: int
  assumes "0 \<le> M" "M \<le> 11" "1 \<le> d"
    and "d \<le> (if M = 11 then 29 else if M \<in> {1, 3, 6, 8} then 30 else 31)"
  shows "(5 * (d - 1 + (153 * M + 2) div 5) + 2) div 153 = M"
  using march_months [OF assms(1,2)] assms(3,4)
  by (elim insertE emptyE) (simp_all add: div_pos_geq div_pos_pos_trivial int_div_pos_eq)

lemma march_day_bound:
  fixes M d :: int
  assumes "0 \<le> M" "M \<le> 11" "1 \<le> d"
    and "d \<le> (if M = 11 then if L then 29 else 28 else if M \<in> {1, 3, 6, 8} then 30 else 31)"
  shows "0 \<le> d - 1 + (153 * M + 2) div 5 \<and>
    (d - 1 + (153 * M + 2) div 5 \<le> 364 \<or> d - 1 + (153 * M + 2) div 5 = 365 \<and> L)"
  using march_months [OF assms(1,2)] assms(3,4)
  by (elim insertE emptyE) (auto split: if_splits)

text \<open>A date by March year, month and day.\<close>

lemma march_roundtrip:
  assumes "0 \<le> B" "0 \<le> D" "D \<le> 99" "0 \<le> M" "M \<le> 11" "1 \<le> d"
    and d: "d \<le> (if M = 11 then if leap_march B D then 29 else 28 else if M \<in> {1, 3, 6, 8} then 30 else 31)"
  shows "getYearMonthDay (d - 32045 + march_day (100 * B + D) M) =
    \<lparr>ymd_year = 100 * B + D - 4800 + M div 10, ymd_month = M + 3 - 12 * (M div 10), ymd_day = d\<rparr>"
proof -
  define e where "e = d - 1 + (153 * M + 2) div 5"
  have e: "0 \<le> e" "e \<le> 364 \<or> e = 365 \<and> leap_march B D"
    using march_day_bound [OF assms(4-6) d] by (simp_all add: e_def)
  then have b: "4 * e + 3 - D mod 4 < 1461" "4 * (e + 1461 * D div 4) + 3 - B mod 4 < 146097"
    using march_year_bounds [OF assms(2,3) e(1), of B] by auto
  have "d \<le> (if M = 11 then 29 else if M \<in> {1, 3, 6, 8} then 30 else 31)"
    using d by (auto split: if_splits)
  then have M: "(5 * e + 2) div 153 = M"
    unfolding e_def by (rule march_month_day [OF assms(4-6)])
  have j: "d - 32045 + march_day (100 * B + D) M = e + 1461 * D div 4 + 146097 * B div 4 - 32044"
    unfolding march_day_split [OF assms(2,3)] e_def by algebra
  have d: "e - (153 * M + 2) div 5 + 1 = d" unfolding e_def by (simp only: diff_add_cancel add_diff_cancel)
  show ?thesis
    unfolding j getYearMonthDay_march [OF assms(1-3) e(1) b] Let_def M d by (rule refl)
qed

lemma date_forth:
  assumes "valid_date y m d"
  shows "getYearMonthDay (getJulianDayNumber y m d) = \<lparr>ymd_year = y, ymd_month = m, ymd_day = d\<rparr>"
proof -
  define Y M where "Y = (if m \<le> 2 then y + 4799 else y + 4800)" and "M = (if m \<le> 2 then m + 9 else m - 3)"
  define B D where "B = Y div 100" and "D = Y mod 100"
  have v: "if m \<le> 2 then -4800 < y else -4800 \<le> y" "1 \<le> m" "m \<le> 12" "1 \<le> d" "d \<le> month_length y m"
    using assms by (simp_all add: valid_date_def)
  have Y: "Y = 100 * B + D" "0 \<le> B" "0 \<le> D" "D \<le> 99"
    using v(1) pos_mod_bound [of 100 Y] by (auto simp: B_def D_def Y_def pos_imp_zdiv_nonneg_iff split: if_splits)
  have M: "0 \<le> M" "M \<le> 11" "M = 11 \<longleftrightarrow> m = 2" using v(2,3) by (auto simp: M_def)
  have "leap y \<longleftrightarrow> leap_march B D" if "m = 2"
  proof -
    have "100 * B + D - 4799 = y" using that unfolding Y(1) [symmetric] by (simp add: Y_def)
    then show ?thesis using leap_march_iff [OF Y(3,4), of B] by simp
  qed
  then have d: "d \<le> (if M = 11 then if leap_march B D then 29 else 28 else if M \<in> {1, 3, 6, 8} then 30 else 31)"
    using v(2,3,5) M(3) by (auto simp: month_length_def M_def split: if_splits)
  have "getJulianDayNumber y m d = d - 32045 + march_day (100 * B + D) M"
    unfolding getJulianDayNumber_march [OF v(1-3)] Y(1) [symmetric] by (simp add: Y_def M_def)
  moreover have "100 * B + D - 4800 + M div 10 = y" "M + 3 - 12 * (M div 10) = m"
    unfolding Y(1) [symmetric] using v(2,3) by (auto simp: Y_def M_def div_pos_geq)
  ultimately show ?thesis using march_roundtrip [OF Y(2-4) M(1,2) v(4) d] by simp
qed

lemma march_month_split:
  fixes e :: int
  assumes "0 \<le> e" "e \<le> 364 \<or> e = 365 \<and> L" "M = (5 * e + 2) div 153"
  shows "0 \<le> M" "M \<le> 11" "1 \<le> e - (153 * M + 2) div 5 + 1"
    "e - (153 * M + 2) div 5 + 1 \<le> (if M = 11 then if L then 29 else 28 else if M \<in> {1, 3, 6, 8} then 30 else 31)"
proof -
  have e: "153 * M \<le> 5 * e + 2" "5 * e + 2 < 153 * M + 153"
    using assms(3) pos_mod_bound [of 153 "5 * e + 2"] minus_mod_eq_mult_div [of "5 * e + 2" 153]
      pos_mod_sign [of 153 "5 * e + 2"] by auto
  show M: "0 \<le> M" "M \<le> 11" using e assms(1,2) by auto
  show "1 \<le> e - (153 * M + 2) div 5 + 1"
    "e - (153 * M + 2) div 5 + 1 \<le> (if M = 11 then if L then 29 else 28 else if M \<in> {1, 3, 6, 8} then 30 else 31)"
    using march_months [OF M] e assms(2) by (elim insertE emptyE; auto)+
qed

lemma date_back:
  assumes "-32044 \<le> j"
  shows "valid_date (ymd_year (getYearMonthDay j)) (ymd_month (getYearMonthDay j)) (ymd_day (getYearMonthDay j)) \<and>
    getJulianDayNumber (ymd_year (getYearMonthDay j)) (ymd_month (getYearMonthDay j)) (ymd_day (getYearMonthDay j)) = j"
proof -
  define a where "a = j + 32044"
  define B where "B = (4 * a + 3) div 146097"
  define c where "c = a - 146097 * B div 4"
  define D where "D = (4 * c + 3) div 1461"
  define e where "e = c - 1461 * D div 4"
  define M where "M = (5 * e + 2) div 153"
  define d where "d = e - (153 * M + 2) div 5 + 1"
  have a: "0 \<le> a" using assms by (simp add: a_def)
  have B: "0 \<le> B" using a by (simp add: B_def pos_imp_zdiv_nonneg_iff)
  have c: "0 \<le> c" "4 * c + 3 - B mod 4 < 146097"
    using cycle_back [of 146097 B a] unfolding B_def [symmetric] c_def by (simp_all add: B_def)
  have e: "0 \<le> e" "4 * e + 3 - D mod 4 < 1461"
    using cycle_back [of 1461 D c] unfolding D_def [symmetric] e_def by (simp_all add: D_def)
  have "4 * c + 3 < 146100" using c(2) pos_mod_bound [of 4 B] by linarith
  then have D: "0 \<le> D" "D \<le> 99" using c(1) unfolding D_def by (auto simp: pos_imp_zdiv_nonneg_iff)
  have ce: "c = e + 1461 * D div 4" and ac: "a = c + 146097 * B div 4" by (simp_all add: e_def c_def)
  have L: "e \<le> 364 \<or> e = 365 \<and> leap_march B D"
    using march_year_bounds [OF D e(1), of B] e(2) c(2) unfolding ce by blast
  note M = march_month_split [OF e(1) L M_def, folded d_def]
  have j: "j = d - 32045 + march_day (100 * B + D) M"
    unfolding march_day_split [OF D] d_def using ac ce a_def by algebra
  have ymd: "getYearMonthDay j =
    \<lparr>ymd_year = 100 * B + D - 4800 + M div 10, ymd_month = M + 3 - 12 * (M div 10), ymd_day = d\<rparr>"
    unfolding j by (rule march_roundtrip [OF B D M])
  show ?thesis
  proof (cases "M \<le> 9")
    case True
    then have y: "M div 10 = 0" using M(1) by simp
    have "month_length (100 * B + D - 4800) (M + 3) = (if M \<in> {1, 3, 6, 8} then 30 else 31)"
      using M(1) True by (auto simp: month_length_def)
    then have v: "valid_date (100 * B + D - 4800) (M + 3) d" using M True B D by (auto simp: valid_date_def)
    then have "getJulianDayNumber (100 * B + D - 4800) (M + 3) d = j"
      unfolding j by (subst getJulianDayNumber_march) (use M(1) in \<open>auto simp: valid_date_def\<close>)
    then show ?thesis using v by (simp add: ymd y)
  next
    case False
    then have y: "M div 10 = 1" using M(2) by (simp add: div_pos_geq)
    have "month_length (100 * B + D - 4799) (M - 9) = (if M = 11 then if leap_march B D then 29 else 28 else 31)"
      using M(2) False leap_march_iff [OF D] by (auto simp: month_length_def)
    then have v: "valid_date (100 * B + D - 4799) (M - 9) d" using M False B D by (auto simp: valid_date_def)
    then have "getJulianDayNumber (100 * B + D - 4799) (M - 9) d = j"
      unfolding j by (subst getJulianDayNumber_march) (use M(2) in \<open>auto simp: valid_date_def\<close>)
    then show ?thesis using v by (simp add: ymd y)
  qed
qed

subsection \<open>Consecutive days\<close>

lemma div_4_Suc: "(x + 1) div 4 = x div 4 + (if x mod 4 = 3 then 1 else (0::int))"
  by presburger

lemma cycle_next:
  fixes x k n :: int
  assumes "n = 4 * k + 1"
  shows "n * (x + 1) div 4 = n * x div 4 + k + (if x mod 4 = 3 then 1 else 0)"
proof -
  have "n * (x + 1) div 4 = k * (x + 1) + (x + 1) div 4" "n * x div 4 = k * x + x div 4"
    using div_4 [of "k * (x + 1)" "x + 1"] div_4 [of "k * x" x] by (simp_all add: assms algebra_simps)
  then show ?thesis unfolding div_4_Suc by algebra
qed

lemma march_day_next_year:
  "march_day (Y + 1) 0 = march_day Y 11 + (if leap (Y - 4799) then 29 else 28)"
proof -
  define B D where "B = Y div 100" and "D = Y mod 100"
  have Y: "Y = 100 * B + D" "0 \<le> D" "D \<le> 99" using pos_mod_bound [of 100 Y] by (auto simp: B_def D_def)
  have L: "leap (Y - 4799) \<longleftrightarrow> leap_march B D" unfolding Y(1) by (rule leap_march_iff [OF Y(2,3)])
  show ?thesis
  proof (cases "D = 99")
    case True
    then have "Y + 1 = 100 * (B + 1) + 0" using Y(1) by simp
    then have "march_day (Y + 1) 0 = 146097 * (B + 1) div 4" using march_day_split [of 0 "B + 1" 0] by (simp only:) simp
    moreover have "march_day Y 11 = 337 + 36159 + 146097 * B div 4"
      using march_day_split [OF Y(2,3), of B 11] True Y(1) by simp
    moreover have "leap_march B D \<longleftrightarrow> B mod 4 = 3" by (simp add: leap_march_def True)
    ultimately show ?thesis using cycle_next [of 146097 36524 B] L by simp
  next
    case False
    then have "Y + 1 = 100 * B + (D + 1)" "D + 1 \<le> 99" using Y by auto
    then have "march_day (Y + 1) 0 = 1461 * (D + 1) div 4 + 146097 * B div 4"
      using march_day_split [of "D + 1" B 0] Y(2) by (simp add: add.assoc)
    moreover have "march_day Y 11 = 337 + 1461 * D div 4 + 146097 * B div 4"
      using march_day_split [OF Y(2,3), of B 11] Y(1) by simp
    moreover have "leap_march B D \<longleftrightarrow> D mod 4 = 3" by (simp add: leap_march_def False)
    ultimately show ?thesis using cycle_next [of 1461 365 D] L by simp
  qed
qed

lemma julian_next_day:
  assumes "valid_date y m d" "next_day y m d = (y', m', d')"
  shows "getJulianDayNumber y' m' d' = getJulianDayNumber y m d + 1"
proof -
  have v: "if m \<le> 2 then -4800 < y else -4800 \<le> y" "1 \<le> m" "m \<le> 12" "d \<le> month_length y m"
    using assms(1) by (simp_all add: valid_date_def)
  show ?thesis
  proof (cases "d < month_length y m")
    case True
    then show ?thesis using assms(2) by (simp add: next_day_def getJulianDayNumber_def Let_def)
  next
    case last: False
    then have d: "d = month_length y m" using v(4) by simp
    have m: "m \<in> {1, 2, 3, 4, 5, 6, 7, 8, 9, 10, 11, 12}"
      using v(2,3) by (simp only: insert_iff empty_iff) presburger
    have n: "(y', m', d') = (if m < 12 then (y, m + 1, 1) else (y + 1, 1, 1))"
      using assms(2) last by (simp add: next_day_def)
    show ?thesis
    proof (cases "m = 2")
      case True
      then have "(y', m', d') = (y, 3, 1)" using n by simp
      then have "getJulianDayNumber y' m' d' = 1 - 32045 + march_day (y + 4799 + 1) 0"
        using v(1) True getJulianDayNumber_march [of 3 y 1] by (simp add: add.commute)
      then show ?thesis
        unfolding march_day_next_year getJulianDayNumber_march [OF v(1-3)] d using True by (simp add: month_length_def)
    next
      case False
      then show ?thesis
        using m v(1) n d
        by (elim insertE emptyE)
          (simp_all add: getJulianDayNumber_march month_length_def march_day_def add.commute)
    qed
  qed
qed

subsection \<open>Properties\<close>



end
