(* ===== verification/TimeZone.thy ===== *)
theory TimeZone
  imports Date Endian
begin

section \<open>Time zones (src/src/TimeZone.h, src/src/TimeZone.cpp)\<close>

text \<open>
  The transition table of a zone, the reader of \<open>TZif\<close> files, the search for the rule that
  holds at a time, and the conversions to and from UTC. \<open>gmtime_r\<close> and \<open>timegm\<close> are
  arguments. A file is \<open>None\<close> when \<open>fopen\<close> fails, else its bytes.

  An element of a vector that does not exist is undefined behaviour and so is the value
  \<open>Inl (UndefinedBehaviour ...)\<close>. Counts of seconds are unbounded; a \<open>time_t\<close> has 64 bits.

  The lemmas show that the binary search finds the last transition not after the given time,
  that a file written from a table is read back as that table, and what the conversions
  compute.
\<close>

record Transition =
  gmttime :: int
  localtime :: int
  localtimeIdx :: nat

record Localtime =
  gmtOffset :: int
  isDst :: bool
  arrbIdx :: nat

record Data =
  transitions :: "Transition list"
  localtimes :: "Localtime list"
  names :: "string list"
  tz_abbreviation :: string

definition new_Data :: Data where
  "new_Data = \<lparr>transitions = [], localtimes = [], names = [], tz_abbreviation = []\<rparr>"

text \<open>\<open>struct Comp\<close>: which of the two times of a transition is compared.\<close>

definition comp_key :: "bool \<Rightarrow> Transition \<Rightarrow> int" where
  "comp_key compareGmt t = (if compareGmt then gmttime t else localtime t)"

definition comp_less :: "bool \<Rightarrow> Transition \<Rightarrow> Transition \<Rightarrow> bool" where
  "comp_less compareGmt lhs rhs \<longleftrightarrow>
     (if compareGmt then gmttime lhs < gmttime rhs else localtime lhs < localtime rhs)"

definition comp_equal :: "bool \<Rightarrow> Transition \<Rightarrow> Transition \<Rightarrow> bool" where
  "comp_equal compareGmt lhs rhs \<longleftrightarrow>
     (if compareGmt then gmttime lhs = gmttime rhs else localtime lhs = localtime rhs)"

definition kSecondsPerDay :: int where "kSecondsPerDay = 24 * 60 * 60"

definition fillHMS :: "int \<Rightarrow> tm \<Rightarrow> tm" where
  "fillHMS seconds utc =
     (let minutes = seconds div 60
      in utc\<lparr>tm_sec := seconds mod 60, tm_min := minutes mod 60, tm_hour := minutes div 60\<rparr>)"

subsection \<open>Reading a zone file\<close>

text \<open>A reader takes the table built so far and the bytes not yet read; an exception leaves the
  table as it is at that moment. \<open>LogicError\<close> is \<open>std::logic_error\<close>, which
  \<open>readTimeZoneFile\<close> catches (\<open>std::length_error\<close> of \<open>reserve\<close> is one).\<close>

datatype read_exception = LogicError string | Fatal error

type_synonym 'a reader = "Data \<times> byte list \<Rightarrow> (read_exception \<times> Data) + ('a \<times> Data \<times> byte list)"

definition tz_return :: "'a \<Rightarrow> 'a reader" where
  "tz_return x = (\<lambda>(d, bs). Inr (x, d, bs))"

definition tz_throw :: "read_exception \<Rightarrow> 'a reader" where
  "tz_throw e = (\<lambda>(d, bs). Inl (e, d))"

definition tz_bind :: "'a reader \<Rightarrow> ('a \<Rightarrow> 'b reader) \<Rightarrow> 'b reader" where
  "tz_bind r k = (\<lambda>s. case r s of Inl e \<Rightarrow> Inl e | Inr (x, s') \<Rightarrow> k x s')"

definition tz_modify :: "(Data \<Rightarrow> Data) \<Rightarrow> unit reader" where
  "tz_modify f = (\<lambda>(d, bs). Inr ((), f d, bs))"

primrec tz_repeat :: "nat \<Rightarrow> 'a reader \<Rightarrow> 'a list reader" where
  "tz_repeat 0 r = tz_return []"
| "tz_repeat (Suc n) r = tz_bind r (\<lambda>x. tz_bind (tz_repeat n r) (\<lambda>xs. tz_return (x # xs)))"

text \<open>The three reads of class \<open>File\<close>. An array of negative size is undefined.\<close>

definition readBytes :: "int \<Rightarrow> string reader" where
  "readBytes n = (\<lambda>(d, bs).
     if n < 0 then Inl (Fatal (UndefinedBehaviour ''array of negative size''), d)
     else if length bs < nat n then Inl (LogicError ''no enough data'', d)
     else Inr (take (nat n) bs, d, drop (nat n) bs))"

definition File_readInt32 :: "endianness \<Rightarrow> int reader" where
  "File_readInt32 e = (\<lambda>(d, bs).
     if length bs < 4 then Inl (LogicError ''bad int32_t data'', d)
     else Inr (sint (networkToHost32 e (bytes_mem e (take 4 bs))), d, drop 4 bs))"

definition readUInt8 :: "nat reader" where
  "readUInt8 = (\<lambda>(d, bs).
     case bs of [] \<Rightarrow> Inl (LogicError ''bad uint8_t data'', d) | b # bs' \<Rightarrow> Inr (of_char b, d, bs'))"

definition read_ttinfo :: "endianness \<Rightarrow> unit reader" where
  "read_ttinfo e =
     tz_bind (File_readInt32 e) (\<lambda>gmtoff.
     tz_bind readUInt8 (\<lambda>isdst.
     tz_bind readUInt8 (\<lambda>abbrind.
     tz_modify (\<lambda>d. d\<lparr>localtimes := localtimes d @ [\<lparr>gmtOffset = gmtoff, isDst = (isdst \<noteq> 0), arrbIdx = abbrind\<rparr>]\<rparr>))))"

text \<open>The loop that combines each transition time with the offset of its rule.\<close>

fun push_transitions :: "(int \<times> nat) list \<Rightarrow> unit reader" where
  "push_transitions [] = tz_return ()"
| "push_transitions ((tr, localIdx) # ts) = (\<lambda>(d, bs).
     if localIdx < length (localtimes d)
     then let local = tr + gmtOffset (localtimes d ! localIdx);
              d' = d\<lparr>transitions := transitions d @ [\<lparr>gmttime = tr, localtime = local, localtimeIdx = localIdx\<rparr>]\<rparr>
          in push_transitions ts (d', bs)
     else Inl (Fatal (UndefinedBehaviour ''localtimes[localIdx]''), d))"

definition read_zone :: "endianness \<Rightarrow> unit reader" where
  "read_zone e =
     tz_bind (readBytes 4) (\<lambda>head.
     if head \<noteq> ''TZif'' then tz_throw (LogicError ''bad head'') else
     tz_bind (readBytes 1) (\<lambda>version.
     tz_bind (readBytes 15) (\<lambda>_.
     tz_bind (File_readInt32 e) (\<lambda>isgmtcnt.
     tz_bind (File_readInt32 e) (\<lambda>isstdcnt.
     tz_bind (File_readInt32 e) (\<lambda>leapcnt.
     tz_bind (File_readInt32 e) (\<lambda>timecnt.
     tz_bind (File_readInt32 e) (\<lambda>typecnt.
     tz_bind (File_readInt32 e) (\<lambda>charcnt.
     if timecnt < 0 then tz_throw (LogicError ''vector::reserve'') else
     tz_bind (tz_repeat (nat timecnt) (File_readInt32 e)) (\<lambda>times.
     tz_bind (tz_repeat (nat timecnt) readUInt8) (\<lambda>locals.
     tz_bind (tz_repeat (nat typecnt) (read_ttinfo e)) (\<lambda>_.
     tz_bind (push_transitions (zip times locals)) (\<lambda>_.
     tz_bind (readBytes charcnt) (\<lambda>abbr.
     tz_modify (\<lambda>d. d\<lparr>tz_abbreviation := abbr\<rparr>)))))))))))))))"

definition readTimeZoneFile :: "endianness \<Rightarrow> byte list option \<Rightarrow> Data \<Rightarrow> (bool \<times> Data) res" where
  "readTimeZoneFile e zonefile data =
     (case zonefile of
        None \<Rightarrow> Inr (True, data)
      | Some bs \<Rightarrow>
          (case read_zone e (data, bs) of
             Inl (LogicError msg, d) \<Rightarrow> Inr (True, d)
           | Inl (Fatal err, d) \<Rightarrow> Inl err
           | Inr (_, d, _) \<Rightarrow> Inr (True, d)))"

subsection \<open>Finding the rule for a time\<close>

text \<open>\<open>std::lower_bound\<close>: the binary search over \<open>len\<close> elements from \<open>first\<close> on.\<close>

function lower_bound :: "('a \<Rightarrow> 'a \<Rightarrow> bool) \<Rightarrow> 'a list \<Rightarrow> 'a \<Rightarrow> nat \<Rightarrow> nat \<Rightarrow> nat" where
  "lower_bound cmp xs v first len =
     (if len = 0 then first
      else let half = len div 2
           in if cmp (xs ! (first + half)) v
              then lower_bound cmp xs v (first + half + 1) (len - half - 1)
              else lower_bound cmp xs v first half)"
  by auto
termination by (relation "measure (\<lambda>(cmp, xs, v, first, len). len)") auto

declare lower_bound.simps [simp del]

definition localtimes_at :: "Data \<Rightarrow> nat \<Rightarrow> Localtime res" where
  "localtimes_at data i =
     (if i < length (localtimes data) then Inr (localtimes data ! i)
      else Inl (UndefinedBehaviour ''localtimes out of range''))"

definition findLocaltime :: "Data \<Rightarrow> Transition \<Rightarrow> bool \<Rightarrow> Localtime res" where
  "findLocaltime data sentry cmp =
     (let ts = transitions data
      in if ts = [] \<or> comp_less cmp sentry (hd ts) then localtimes_at data 0
         else let i = lower_bound (comp_less cmp) ts sentry 0 (length ts)
              in if i \<noteq> length ts
                 then if \<not> comp_equal cmp sentry (ts ! i)
                      then ensure (i \<noteq> 0) ''transI != data.transitions.begin()'' (localtimes_at data (localtimeIdx (ts ! (i - 1))))
                      else localtimes_at data (localtimeIdx (ts ! i))
                 else localtimes_at data (localtimeIdx (last ts)))"

subsection \<open>The zone\<close>

text \<open>The shared pointer \<open>data_\<close> is \<open>None\<close> in an invalid zone.\<close>

type_synonym TimeZone = "Data option"

definition TimeZone_file :: "endianness \<Rightarrow> byte list option \<Rightarrow> TimeZone res" where
  "TimeZone_file e zonefile =
     rbind (readTimeZoneFile e zonefile new_Data) (\<lambda>(ok, data). Inr (if \<not> ok then None else Some data))"

definition TimeZone_fixed :: "int \<Rightarrow> string \<Rightarrow> TimeZone" where
  "TimeZone_fixed eastOfUtc name =
     Some (new_Data\<lparr>localtimes := [\<lparr>gmtOffset = eastOfUtc, isDst = False, arrbIdx = 0\<rparr>], tz_abbreviation := name\<rparr>)"

definition TimeZone_valid :: "TimeZone \<Rightarrow> bool" where
  "TimeZone_valid tz \<longleftrightarrow> tz \<noteq> None"

definition deref_data :: "TimeZone \<Rightarrow> (Data \<Rightarrow> 'a res) \<Rightarrow> 'a res" where
  "deref_data tz k = (case tz of None \<Rightarrow> Inl (AssertionFailed ''data_ != NULL'') | Some data \<Rightarrow> k data)"

definition toLocalTime :: "(int \<Rightarrow> tm) \<Rightarrow> TimeZone \<Rightarrow> int \<Rightarrow> tm res" where
  "toLocalTime gmtime_r tz seconds =
     deref_data tz (\<lambda>data.
       rbind (findLocaltime data \<lparr>gmttime = seconds, localtime = 0, localtimeIdx = 0\<rparr> True) (\<lambda>local.
         if arrbIdx local \<le> length (tz_abbreviation data)
         then Inr ((gmtime_r (seconds + gmtOffset local))\<lparr>tm_isdst := (if isDst local then 1 else 0), tm_gmtoff := gmtOffset local,
                tm_zone := takeWhile (\<lambda>c. c \<noteq> CHR 0x00) (drop (arrbIdx local) (tz_abbreviation data))\<rparr>)
         else Inl (UndefinedBehaviour ''abbreviation out of range'')))"

definition fromLocalTime :: "(int \<Rightarrow> tm) \<Rightarrow> (tm \<Rightarrow> int) \<Rightarrow> TimeZone \<Rightarrow> tm \<Rightarrow> int res" where
  "fromLocalTime gmtime_r timegm tz localTm =
     deref_data tz (\<lambda>data.
       let seconds = timegm localTm
       in rbind (findLocaltime data \<lparr>gmttime = 0, localtime = seconds, localtimeIdx = 0\<rparr> False) (\<lambda>local.
          rbind (if tm_isdst localTm \<noteq> 0
                 then rbind (toLocalTime gmtime_r tz (seconds - gmtOffset local)) (\<lambda>tryTm.
                        Inr (if tm_isdst tryTm = 0 \<and> tm_hour tryTm = tm_hour localTm \<and> tm_min tryTm = tm_min localTm
                             then seconds - 3600 else seconds))
                 else Inr seconds) (\<lambda>seconds'. Inr (seconds' - gmtOffset local))))"

definition zero_tm :: tm where
  "zero_tm = \<lparr>tm_sec = 0, tm_min = 0, tm_hour = 0, tm_mday = 0, tm_mon = 0, tm_year = 0, tm_wday = 0, tm_yday = 0,
     tm_isdst = 0, tm_gmtoff = 0, tm_zone = []\<rparr>"

definition toUtcTime :: "int \<Rightarrow> bool \<Rightarrow> tm" where
  "toUtcTime t yday =
     (let utc = zero_tm\<lparr>tm_zone := ''GMT''\<rparr>;
          seconds = t smod kSecondsPerDay;
          days = t sdiv kSecondsPerDay;
          (seconds, days) = (if seconds < 0 then (seconds + kSecondsPerDay, days - 1) else (seconds, days));
          date = Date (days + kJulianDayOf1970_01_01);
          ymd = yearMonthDay date;
          utc = (fillHMS seconds utc)\<lparr>tm_year := ymd_year ymd - 1900, tm_mon := ymd_month ymd - 1,
                   tm_mday := ymd_day ymd, tm_wday := weekDay date\<rparr>
      in if yday then utc\<lparr>tm_yday := julianDayNumber date - julianDayNumber (Date_ymd (ymd_year ymd) 1 1)\<rparr> else utc)"

definition fromUtcTime_fields :: "int \<Rightarrow> int \<Rightarrow> int \<Rightarrow> int \<Rightarrow> int \<Rightarrow> int \<Rightarrow> int" where
  "fromUtcTime_fields year month day hour minute seconds =
     (let secondsInDay = hour * 3600 + minute * 50 + seconds;
          days = julianDayNumber (Date_ymd year month day) - kJulianDayOf1970_01_01
      in days * kSecondsPerDay + secondsInDay)"

definition fromUtcTime :: "tm \<Rightarrow> int" where
  "fromUtcTime utc =
     fromUtcTime_fields (tm_year utc + 1900) (tm_mon utc + 1) (tm_mday utc) (tm_hour utc) (tm_min utc) (tm_sec utc)"

subsection \<open>Binary search\<close>

text \<open>On a range that is split by \<open>cmp\<close> at \<open>k\<close> the search returns \<open>k\<close>.\<close>

lemma lower_bound_split:
  "first \<le> k \<Longrightarrow> k \<le> first + len \<Longrightarrow>
   (\<And>i. first \<le> i \<Longrightarrow> i < first + len \<Longrightarrow> cmp (xs ! i) v \<longleftrightarrow> i < k) \<Longrightarrow>
   lower_bound cmp xs v first len = k"
proof (induction cmp xs v first len rule: lower_bound.induct)
  case (1 cmp xs v first len)
  show ?case
  proof (cases "len = 0")
    case True
    then show ?thesis using "1.prems" by (simp add: lower_bound.simps)
  next
    case False
    let ?half = "len div 2"
    have half: "?half < len" using False by simp
    show ?thesis
    proof (cases "cmp (xs ! (first + ?half)) v")
      case True
      then have "first + ?half < k" using "1.prems"(3) [of "first + ?half"] half by simp
      then have "lower_bound cmp xs v (first + ?half + 1) (len - ?half - 1) = k"
        using "1.prems" half by (intro "1.IH"(1) [OF False refl True]) auto
      then show ?thesis using False True by (simp add: lower_bound.simps [of cmp xs v first len])
    next
      case no: False
      then have "k \<le> first + ?half" using "1.prems"(3) [of "first + ?half"] half by simp
      then have "lower_bound cmp xs v first ?half = k"
        using "1.prems" half by (intro "1.IH"(2) [OF False refl no]) auto
      then show ?thesis using False no by (simp add: lower_bound.simps [of cmp xs v first len])
    qed
  qed
qed

definition table_sorted :: "bool \<Rightarrow> Data \<Rightarrow> bool" where
  "table_sorted cmp data \<longleftrightarrow> sorted_wrt (<) (map (comp_key cmp) (transitions data))"

definition table_wf :: "Data \<Rightarrow> bool" where
  "table_wf data \<longleftrightarrow>
     localtimes data \<noteq> [] \<and> (\<forall>t \<in> set (transitions data). localtimeIdx t < length (localtimes data))"

text \<open>The rule that holds at the time \<open>v\<close>: that of the last transition not after it, the first
  rule of the table before the first transition.\<close>

definition rule_at :: "bool \<Rightarrow> Data \<Rightarrow> int \<Rightarrow> Localtime" where
  "rule_at cmp data v =
     (case filter (\<lambda>t. comp_key cmp t \<le> v) (transitions data) of
        [] \<Rightarrow> hd (localtimes data)
      | ts \<Rightarrow> localtimes data ! localtimeIdx (last ts))"

lemma sorted_filter_take:
  fixes f :: "'a \<Rightarrow> int"
  assumes "sorted_wrt (<) (map f xs)"
  shows "\<exists>k \<le> length xs. filter (\<lambda>x. f x \<le> v) xs = take k xs \<and> (\<forall>i < length xs. f (xs ! i) \<le> v \<longleftrightarrow> i < k)"
  using assms
proof (induction xs)
  case Nil
  then show ?case by simp
next
  case (Cons x xs)
  then obtain k where k: "k \<le> length xs" "filter (\<lambda>x. f x \<le> v) xs = take k xs"
    "\<forall>i < length xs. f (xs ! i) \<le> v \<longleftrightarrow> i < k" by auto
  show ?case
  proof (cases "f x \<le> v")
    case True
    have "f ((x # xs) ! i) \<le> v \<longleftrightarrow> i < Suc k" if "i < length (x # xs)" for i
      using that k(3) True by (cases i) auto
    then show ?thesis using True k by (intro exI [of _ "Suc k"]) auto
  next
    case False
    then have "\<forall>y \<in> set xs. \<not> f y \<le> v" using Cons.prems by fastforce
    then have "filter (\<lambda>x. f x \<le> v) (x # xs) = []" using False by (auto simp: filter_empty_conv)
    moreover have "\<not> f ((x # xs) ! i) \<le> v" if "i < length (x # xs)" for i
      using that False \<open>\<forall>y \<in> set xs. \<not> f y \<le> v\<close> by (cases i) auto
    ultimately show ?thesis by (intro exI [of _ 0]) auto
  qed
qed

lemma comp_less_key: "comp_less cmp a b \<longleftrightarrow> comp_key cmp a < comp_key cmp b"
  and comp_equal_key: "comp_equal cmp a b \<longleftrightarrow> comp_key cmp a = comp_key cmp b"
  by (simp_all add: comp_less_def comp_equal_def comp_key_def)

text \<open>Where the search ends, when the first \<open>k\<close> transitions are not after the time: at the last of them if it is
  exactly that time, behind it otherwise.\<close>

lemma lower_bound_sorted:
  assumes sorted: "table_sorted cmp data" and k: "0 < k" "k \<le> length (transitions data)"
    "\<forall>i < length (transitions data). comp_key cmp (transitions data ! i) \<le> comp_key cmp sentry \<longleftrightarrow> i < k"
  shows "lower_bound (comp_less cmp) (transitions data) sentry 0 (length (transitions data)) =
    (if comp_key cmp (transitions data ! (k - 1)) = comp_key cmp sentry then k - 1 else k)"
proof -
  let ?ts = "transitions data" and ?v = "comp_key cmp sentry" and ?f = "comp_key cmp"
  let ?i = "if ?f (?ts ! (k - 1)) = ?v then k - 1 else k"
  have mono: "?f (?ts ! i) < ?f (?ts ! j)" if "i < j" "j < length ?ts" for i j
    using sorted that by (auto simp: table_sorted_def sorted_wrt_iff_nth_less)
  have split: "comp_less cmp (?ts ! i) sentry \<longleftrightarrow> i < ?i" if "i < length ?ts" for i
  proof (cases "i = k - 1")
    case True
    then show ?thesis using k that by (auto simp: comp_less_key)
  next
    case i: False
    have "?f (?ts ! (k - 1)) \<le> ?v" using k by auto
    then have "?f (?ts ! i) < ?v" if "i < k"
      using mono [of i "k - 1", THEN less_le_trans] that i k by simp
    moreover have "\<not> ?f (?ts ! i) \<le> ?v" if "\<not> i < k" using k(3) that \<open>i < length ?ts\<close> by auto
    moreover have "i < ?i \<longleftrightarrow> i < k" using i by auto
    ultimately show ?thesis unfolding comp_less_key by fastforce
  qed
  show ?thesis using k(2) by (intro lower_bound_split) (use split in auto)
qed

lemma findLocaltime_rule:
  assumes "table_sorted cmp data" "table_wf data"
  shows "findLocaltime data sentry cmp = Inr (rule_at cmp data (comp_key cmp sentry))"
proof -
  let ?ts = "transitions data" and ?v = "comp_key cmp sentry" and ?f = "comp_key cmp"
  obtain k where k: "k \<le> length ?ts" "filter (\<lambda>t. ?f t \<le> ?v) ?ts = take k ?ts"
    "\<forall>i < length ?ts. ?f (?ts ! i) \<le> ?v \<longleftrightarrow> i < k"
    using sorted_filter_take [of ?f ?ts ?v] assms(1) by (auto simp: table_sorted_def)
  have lt: "localtimes data \<noteq> []" "\<And>i. i < length ?ts \<Longrightarrow> localtimeIdx (?ts ! i) < length (localtimes data)"
    using assms(2) by (auto simp: table_wf_def)
  show ?thesis
  proof (cases "k = 0")
    case True
    then have "?ts = [] \<or> comp_less cmp sentry (hd ?ts)"
      using k(3) by (cases ?ts) (auto simp: comp_less_key)
    then show ?thesis using k(2) True lt(1)
      by (auto simp: findLocaltime_def rule_at_def localtimes_at_def hd_conv_nth)
  next
    case False
    then have first: "\<not> (?ts = [] \<or> comp_less cmp sentry (hd ?ts))"
      using k(1,3) by (cases ?ts) (auto simp: comp_less_key)
    have ne: "take k ?ts \<noteq> []" using False k(1) by auto
    then have "last (take k ?ts) = ?ts ! (k - 1)" using False k(1) by (simp add: last_conv_nth [OF ne])
    then have rule: "rule_at cmp data ?v = localtimes data ! localtimeIdx (?ts ! (k - 1))"
      using ne unfolding rule_at_def k(2) by (cases "take k ?ts") (simp_all del: last.simps)
    let ?i = "if ?f (?ts ! (k - 1)) = ?v then k - 1 else k"
    have i: "lower_bound (comp_less cmp) ?ts sentry 0 (length ?ts) = ?i"
      using lower_bound_sorted [OF assms(1) _ k(1,3)] False by simp
    show ?thesis
    proof (cases "?f (?ts ! (k - 1)) = ?v")
      case True
      then show ?thesis using first i rule k(1) False lt(2) [of "k - 1"]
        by (auto simp: findLocaltime_def Let_def comp_equal_key localtimes_at_def)
    next
      case no: False
      show ?thesis
      proof (cases "k = length ?ts")
        case True
        then show ?thesis using first i no rule lt(2) [of "k - 1"] False
          by (auto simp: findLocaltime_def Let_def localtimes_at_def last_conv_nth)
      next
        case in_range: False
        then have "?f (?ts ! k) \<noteq> ?v" using k(1,3) by (metis le_neq_implies_less less_irrefl order_refl)
        then show ?thesis using first i no rule lt(2) [of "k - 1"] False in_range k(1)
          by (auto simp: findLocaltime_def Let_def localtimes_at_def comp_equal_key)
      qed
    qed
  qed
qed

subsection \<open>Writing a zone file\<close>

text \<open>The \<open>TZif\<close> form of a table, in the byte order of the format.\<close>

definition int32_bytes :: "int \<Rightarrow> byte list" where
  "int32_bytes i = rev (nat_bytes_le 4 (unat (word_of_int i :: 32 word)))"

definition ttinfo_bytes :: "Localtime \<Rightarrow> byte list" where
  "ttinfo_bytes l = int32_bytes (gmtOffset l) @ [char_of (if isDst l then 1 else (0::nat)), char_of (arrbIdx l)]"

definition zone_file :: "Data \<Rightarrow> byte list" where
  "zone_file data =
     ''TZif'' @ [CHR 0x00] @ replicate 15 (CHR 0x00) @ int32_bytes 0 @ int32_bytes 0 @ int32_bytes 0 @
     int32_bytes (int (length (transitions data))) @ int32_bytes (int (length (localtimes data))) @
     int32_bytes (int (length (tz_abbreviation data))) @
     concat (map (\<lambda>t. int32_bytes (gmttime t)) (transitions data)) @
     map (\<lambda>t. char_of (localtimeIdx t)) (transitions data) @
     concat (map ttinfo_bytes (localtimes data)) @ tz_abbreviation data"

definition int32 :: "int \<Rightarrow> bool" where
  "int32 i \<longleftrightarrow> - (2 ^ 31) \<le> i \<and> i < 2 ^ 31"

text \<open>The tables that a file can hold.\<close>

definition storable :: "Data \<Rightarrow> bool" where
  "storable data \<longleftrightarrow>
     names data = [] \<and> int32 (int (length (transitions data))) \<and> int32 (int (length (localtimes data))) \<and>
     int32 (int (length (tz_abbreviation data))) \<and>
     (\<forall>t \<in> set (transitions data). int32 (gmttime t) \<and> localtimeIdx t < 256 \<and> localtimeIdx t < length (localtimes data) \<and>
        localtime t = gmttime t + gmtOffset (localtimes data ! localtimeIdx t)) \<and>
     (\<forall>l \<in> set (localtimes data). int32 (gmtOffset l) \<and> arrbIdx l < 256)"

lemma length_int32_bytes [simp]: "length (int32_bytes i) = 4"
  by (simp add: int32_bytes_def)

lemma readInt32_bytes:
  assumes "int32 i"
  shows "File_readInt32 e (d, int32_bytes i @ bs) = Inr (i, d, bs)"
proof -
  have "bytes_mem e (int32_bytes i) = hostToNetwork32 e (word_of_int i)"
    unfolding int32_bytes_def mem_bytes_hostToNetwork(2) [of e, symmetric] by (rule bytes_mem_mem_bytes) simp
  then have "networkToHost32 e (bytes_mem e (int32_bytes i)) = word_of_int i" by simp
  moreover have "sint (word_of_int i :: 32 word) = i"
    using assms by (simp add: sint_sbintrunc' int32_def signed_take_bit_int_eq_self_iff)
  ultimately show ?thesis by (simp add: File_readInt32_def)
qed

lemma readUInt8_byte: "n < 256 \<Longrightarrow> readUInt8 (d, char_of n # bs) = Inr (n, d, bs)"
  by (simp add: readUInt8_def)

lemma tz_repeat_list:
  assumes "\<And>x d bs. x \<in> set xs \<Longrightarrow> r (d, w x @ bs) = Inr (f x, g x d, bs)"
  shows "tz_repeat (length xs) r (d, concat (map w xs) @ bs) = Inr (map f xs, fold g xs d, bs)"
  using assms
proof (induction xs arbitrary: d)
  case Nil
  then show ?case by (simp add: tz_return_def)
next
  case (Cons x xs)
  have "r (d, w x @ concat (map w xs) @ bs) = Inr (f x, g x d, concat (map w xs) @ bs)" using Cons.prems by simp
  moreover have "tz_repeat (length xs) r (g x d, concat (map w xs) @ bs) = Inr (map f xs, fold g xs (g x d), bs)"
    using Cons.prems by (intro Cons.IH) simp
  ultimately show ?case by (simp add: tz_bind_def tz_return_def)
qed

lemma fold_ignore [simp]: "fold (\<lambda>_ d. d) xs d = d"
  by (induction xs) simp_all

definition push_localtime :: "Localtime \<Rightarrow> Data \<Rightarrow> Data" where
  "push_localtime l d = d\<lparr>localtimes := localtimes d @ [l]\<rparr>"

lemma read_ttinfo_bytes:
  assumes "int32 (gmtOffset l)" "arrbIdx l < 256"
  shows "read_ttinfo e (d, ttinfo_bytes l @ bs) = Inr ((), push_localtime l d, bs)"
proof -
  have 1: "readUInt8 (d, char_of (if isDst l then 1 else (0::nat)) # char_of (arrbIdx l) # bs) =
    Inr (if isDst l then 1 else 0, d, char_of (arrbIdx l) # bs)"
    by (rule readUInt8_byte) simp
  show ?thesis
    unfolding read_ttinfo_def ttinfo_bytes_def append_assoc append_Cons append_Nil
    by (simp add: tz_bind_def readInt32_bytes [OF assms(1)] 1 readUInt8_byte [OF assms(2)] tz_modify_def
        push_localtime_def split: if_splits)
qed

lemma fold_push_localtime: "fold push_localtime ls d = d\<lparr>localtimes := localtimes d @ ls\<rparr>"
  by (induction ls arbitrary: d) (simp_all add: push_localtime_def)

lemma push_transitions_ok:
  assumes "\<forall>t \<in> set ts. localtimeIdx t < length (localtimes d) \<and>
    localtime t = gmttime t + gmtOffset (localtimes d ! localtimeIdx t)"
  shows "push_transitions (zip (map gmttime ts) (map localtimeIdx ts)) (d, bs) =
    Inr ((), d\<lparr>transitions := transitions d @ ts\<rparr>, bs)"
  using assms
proof (induction ts arbitrary: d)
  case Nil
  then show ?case by (simp add: tz_return_def)
next
  case (Cons t ts)
  have t: "\<lparr>gmttime = gmttime t, localtime = gmttime t + gmtOffset (localtimes d ! localtimeIdx t),
      localtimeIdx = localtimeIdx t\<rparr> = t"
    using Cons.prems by (cases t) auto
  then show ?case using Cons.prems Cons.IH [of "d\<lparr>transitions := transitions d @ [t]\<rparr>"] by (simp add: Let_def t)
qed

lemma readBytes_take: "length xs = nat n \<Longrightarrow> 0 \<le> n \<Longrightarrow> readBytes n (d, xs @ bs) = Inr (xs, d, bs)"
  by (simp add: readBytes_def)

lemma read_zone_file:
  assumes "storable data"
  shows "read_zone e (new_Data, zone_file data) = Inr ((), data, [])"
proof -
  note s = assms [unfolded storable_def]
  let ?d1 = "fold push_localtime (localtimes data) new_Data"
  have z: "int32 0" by (simp add: int32_def)
  have times: "tz_repeat (length (transitions data)) (File_readInt32 e)
      (d, concat (map (\<lambda>t. int32_bytes (gmttime t)) (transitions data)) @ bs) = Inr (map gmttime (transitions data), d, bs)" for d bs
    using tz_repeat_list [of "transitions data" "File_readInt32 e" "\<lambda>t. int32_bytes (gmttime t)" gmttime "\<lambda>_ d. d" d bs] s
    by (simp add: readInt32_bytes)
  have idx: "tz_repeat (length (transitions data)) readUInt8
      (d, map (\<lambda>t. char_of (localtimeIdx t)) (transitions data) @ bs) = Inr (map localtimeIdx (transitions data), d, bs)" for d bs
    using tz_repeat_list [of "transitions data" readUInt8 "\<lambda>t. [char_of (localtimeIdx t)]" localtimeIdx "\<lambda>_ d. d" d bs] s
    by (simp add: readUInt8_byte)
  have tt: "tz_repeat (length (localtimes data)) (read_ttinfo e)
      (new_Data, concat (map ttinfo_bytes (localtimes data)) @ bs) = Inr (map (\<lambda>_. ()) (localtimes data), ?d1, bs)" for bs
    using tz_repeat_list [of "localtimes data" "read_ttinfo e" ttinfo_bytes "\<lambda>_. ()" push_localtime new_Data bs] s
    by (simp add: read_ttinfo_bytes)
  have push: "push_transitions (zip (map gmttime (transitions data)) (map localtimeIdx (transitions data))) (?d1, bs) =
      Inr ((), ?d1\<lparr>transitions := transitions data\<rparr>, bs)" for bs
    using push_transitions_ok [of "transitions data" ?d1 bs] s by (simp add: fold_push_localtime new_Data_def)
  have "?d1\<lparr>transitions := transitions data, tz_abbreviation := tz_abbreviation data\<rparr> = data"
    using s by (cases data) (simp add: fold_push_localtime new_Data_def)
  moreover have "readBytes (int (length (tz_abbreviation data))) (d, tz_abbreviation data) = Inr (tz_abbreviation data, d, [])" for d
    using readBytes_take [of "tz_abbreviation data" _ d "[]"] by simp
  moreover have "readBytes 4 (d, ''TZif'' @ bs) = Inr (''TZif'', d, bs)" "readBytes 1 (d, [CHR 0x00] @ bs) = Inr ([CHR 0x00], d, bs)"
    "readBytes 15 (d, replicate 15 (CHR 0x00) @ bs) = Inr (replicate 15 (CHR 0x00), d, bs)" for d bs
    by (rule readBytes_take; simp)+
  ultimately show ?thesis
    unfolding read_zone_def zone_file_def using s
    by (simp only: tz_bind_def sum.case prod.case readInt32_bytes z times idx tt push nat_int not_less of_nat_0_le_iff if_False
        simp_thms if_True tz_modify_def linorder_not_less) (simp add: times idx tt push)
qed

subsection \<open>UTC\<close>

lemma kJulianDayOf1970: "kJulianDayOf1970_01_01 = 2440588"
  by (simp add: kJulianDayOf1970_01_01_def getJulianDayNumber_def sdiv_nonneg)

lemma kSecondsPerDay_eq: "kSecondsPerDay = 86400"
  by (simp add: kSecondsPerDay_def)

lemma sdiv_smod_day:
  "(if t smod 86400 < 0 then (t smod 86400 + 86400, t sdiv 86400 - 1) else (t smod 86400, t sdiv 86400)) =
   (t mod 86400, t div (86400::int))"
proof (cases "0 \<le> t")
  case True
  then show ?thesis by (simp add: sdiv_nonneg smod_nonneg)
next
  case False
  define n where "n = - t"
  have n: "0 < n" "t = - n" using False by (simp_all add: n_def)
  have s: "t sdiv 86400 = - (n div 86400)" "t smod 86400 = - (n mod 86400)"
    using n by (simp_all add: signed_divide_int_def signed_modulo_int_def sgn_if)
  show ?thesis
  proof (cases "n mod 86400 = 0")
    case True
    then show ?thesis using s n(2) by (simp add: zdiv_zminus1_eq_if zmod_zminus1_eq_if)
  next
    case False
    then have "0 < n mod 86400" by (metis pos_mod_sign le_neq_trans zero_less_numeral)
    then show ?thesis using s n(2) False by (simp add: zdiv_zminus1_eq_if zmod_zminus1_eq_if)
  qed
qed

lemma toUtcTime_fields:
  fixes t :: int
  defines "ymd \<equiv> getYearMonthDay (t div 86400 + 2440588)"
  shows "tm_year (toUtcTime t yday) = ymd_year ymd - 1900" "tm_mon (toUtcTime t yday) = ymd_month ymd - 1"
    "tm_mday (toUtcTime t yday) = ymd_day ymd" "tm_sec (toUtcTime t yday) = t mod 86400 mod 60"
    "tm_min (toUtcTime t yday) = t mod 86400 div 60 mod 60" "tm_hour (toUtcTime t yday) = t mod 86400 div 60 div 60"
  unfolding toUtcTime_def kSecondsPerDay_eq ymd_def yearMonthDay_def kJulianDayOf1970 Let_def sdiv_smod_day
  by (simp_all add: fillHMS_def Let_def)

lemma hms_value: "(s::int) = 3600 * (s div 60 div 60) + 60 * (s div 60 mod 60) + s mod 60"
  by presburger

subsection \<open>Properties\<close>

text \<open>C22: \<open>findLocaltime\<close>, by binary search, returns the rule of the last transition whose time
  is not after the given one, and the first rule of the table where there is none; it stays
  inside its vectors and its assertion holds. The table has to be sorted by the time that is
  compared, to name only rules that exist, and to have a rule.\<close>

theorem findLocaltime_correct:
  assumes "table_sorted cmp data" "table_wf data"
  shows "findLocaltime data sentry cmp = Inr (rule_at cmp data (comp_key cmp sentry))"
  by (rule findLocaltime_rule [OF assms])

definition sample_zone :: Data where
  "sample_zone =
     \<lparr>transitions = [\<lparr>gmttime = 100, localtime = 3700, localtimeIdx = 1\<rparr>, \<lparr>gmttime = 5000, localtime = 5000, localtimeIdx = 0\<rparr>],
      localtimes = [\<lparr>gmtOffset = 0, isDst = False, arrbIdx = 0\<rparr>, \<lparr>gmtOffset = 3600, isDst = True, arrbIdx = 4\<rparr>],
      names = [], tz_abbreviation = ''GMT'' @ [CHR 0x00] @ ''BST'' @ [CHR 0x00]\<rparr>"

theorem findLocaltime_correct_witness:
  "findLocaltime sample_zone \<lparr>gmttime = 200, localtime = 0, localtimeIdx = 0\<rparr> True =
     Inr \<lparr>gmtOffset = 3600, isDst = True, arrbIdx = 4\<rparr>"
  using findLocaltime_correct [of True sample_zone "\<lparr>gmttime = 200, localtime = 0, localtimeIdx = 0\<rparr>"]
  by (simp add: sample_zone_def table_sorted_def table_wf_def comp_key_def rule_at_def)

text \<open>C24: A table written as a \<open>TZif\<close> file is read back by \<open>readTimeZoneFile\<close> exactly, on a host
  of either byte order: the counts, the transition times, their rules, the offsets and the
  abbreviations.\<close>

theorem zone_file_roundtrip:
  assumes "storable data"
  shows "readTimeZoneFile e (Some (zone_file data)) new_Data = Inr (True, data)"
  by (simp add: readTimeZoneFile_def read_zone_file [OF assms])

theorem zone_file_roundtrip_witness:
  "readTimeZoneFile LittleEndian (Some (zone_file sample_zone)) new_Data = Inr (True, sample_zone)"
  using zone_file_roundtrip [of sample_zone LittleEndian] by (simp add: storable_def sample_zone_def int32_def)

text \<open>\<open>readTimeZoneFile\<close> reports success also when the file does not exist or does not start
  with \<open>TZif\<close>: the zone then counts as valid, but has no rule, and \<open>toLocalTime\<close> reads the
  first element of an empty vector.\<close>

lemma missing_zone_file:
  assumes "zonefile = None \<or> (\<exists>bs. zonefile = Some bs \<and> take 4 bs \<noteq> ''TZif'')"
  shows "\<exists>tz. TimeZone_file e zonefile = Inr tz \<and> TimeZone_valid tz \<and>
    (\<forall>t. toLocalTime gmtime_r tz t = Inl (UndefinedBehaviour ''localtimes out of range''))"
proof -
  have "read_zone e (new_Data, bs) = Inl (LogicError (if length bs < 4 then ''no enough data'' else ''bad head''), new_Data)"
    if "take 4 bs \<noteq> ''TZif''" for bs
    using that by (auto simp: read_zone_def tz_bind_def readBytes_def tz_throw_def)
  then have "readTimeZoneFile e zonefile new_Data = Inr (True, new_Data)"
    using assms by (auto simp: readTimeZoneFile_def)
  then show ?thesis
    by (simp add: TimeZone_file_def TimeZone_valid_def toLocalTime_def deref_data_def findLocaltime_def
        localtimes_at_def new_Data_def)
qed

text \<open>\<open>toUtcTime\<close> splits a time into a valid date and a time of day that together denote the
  time again, but \<open>fromUtcTime\<close>, which counts 50 seconds to the minute, gives back a time that is
  too small by ten seconds for each minute past the hour.\<close>

lemma utc_conversions:
  assumes "-32044 \<le> t div 86400 + 2440588"
  shows "(let u = toUtcTime t yday
     in valid_date (tm_year u + 1900) (tm_mon u + 1) (tm_mday u) \<and>
        0 \<le> tm_hour u \<and> tm_hour u < 24 \<and> 0 \<le> tm_min u \<and> tm_min u < 60 \<and> 0 \<le> tm_sec u \<and> tm_sec u < 60 \<and>
        t = 86400 * (julianDayNumber (Date_tm u) - kJulianDayOf1970_01_01) + 3600 * tm_hour u + 60 * tm_min u + tm_sec u \<and>
        fromUtcTime u = t - 10 * tm_min u)"
proof -
  let ?u = "toUtcTime t yday" and ?s = "t mod 86400"
  note f = toUtcTime_fields [of t yday]
  note d = date_back [OF assms]
  have valid: "valid_date (tm_year ?u + 1900) (tm_mon ?u + 1) (tm_mday ?u)" using d by (simp add: f)
  have j: "getJulianDayNumber (tm_year ?u + 1900) (tm_mon ?u + 1) (tm_mday ?u) = t div 86400 + 2440588"
    using d by (simp add: f)
  have s: "0 \<le> ?s" "?s < 86400" by simp_all
  then have h: "0 \<le> ?s div 60 div 60" "?s div 60 div 60 < 24" by (auto simp: pos_imp_zdiv_nonneg_iff)
  define H M S where "H = ?s div 60 div 60" and "M = ?s div 60 mod 60" and "S = ?s mod 60"
  have hms: "?s = 3600 * H + 60 * M + S" unfolding H_def M_def S_def by (rule hms_value)
  have t: "t = 86400 * (t div 86400) + ?s" by simp
  have u: "tm_hour ?u = H" "tm_min ?u = M" "tm_sec ?u = S" by (simp_all add: f H_def M_def S_def)
  have "0 \<le> M" "M < 60" "0 \<le> S" "S < 60" by (simp_all add: M_def S_def)
  moreover have "fromUtcTime ?u = (t div 86400) * 86400 + (H * 3600 + M * 50 + S)"
    unfolding fromUtcTime_def fromUtcTime_fields_def Let_def Date_ymd_def Date.sel j u kJulianDayOf1970 kSecondsPerDay_def by simp
  then have "fromUtcTime ?u = t - 10 * M" using t hms by linarith
  moreover have "t = 86400 * (julianDayNumber (Date_tm ?u) - kJulianDayOf1970_01_01) + 3600 * H + 60 * M + S"
    unfolding Date_tm_def Date.sel j kJulianDayOf1970 add_diff_cancel_right' using t hms by linarith
  ultimately show ?thesis unfolding Let_def u using valid h by (simp add: H_def)
qed

subsection \<open>Tables read from arbitrary bytes\<close>

text \<open>The types of the fields of a table: times and offsets of 32 bits, indices of one byte, every
  transition with the index of an existing rule and the local time that this rule gives. A reader
  keeps them from whatever bytes it reads, also when it throws.\<close>

definition data_typed :: "Data \<Rightarrow> bool" where
  "data_typed d \<longleftrightarrow>
     (\<forall>l \<in> set (localtimes d). int32 (gmtOffset l) \<and> arrbIdx l < 256) \<and>
     (\<forall>t \<in> set (transitions d). int32 (gmttime t) \<and> localtimeIdx t < length (localtimes d) \<and> localtimeIdx t < 256 \<and>
        localtime t = gmttime t + gmtOffset (localtimes d ! localtimeIdx t))"

definition typed_reader :: "('a \<Rightarrow> bool) \<Rightarrow> 'a reader \<Rightarrow> bool" where
  "typed_reader P r \<longleftrightarrow>
     (\<forall>d bs. data_typed d \<longrightarrow>
        (case r (d, bs) of Inl (_, d') \<Rightarrow> data_typed d' | Inr (x, d', _) \<Rightarrow> P x \<and> data_typed d'))"

lemma typed_readerD:
  assumes "typed_reader P r" "data_typed d"
  shows "r (d, bs) = Inl (e, d') \<Longrightarrow> data_typed d'" "r (d, bs) = Inr (x, d', bs') \<Longrightarrow> P x \<and> data_typed d'"
  using assms by (auto simp: typed_reader_def split: sum.splits dest!: spec [where x = d] spec [where x = bs])

named_theorems typed

lemma typed_return [typed]: "P x \<Longrightarrow> typed_reader P (tz_return x)"
  by (simp add: typed_reader_def tz_return_def)

lemma typed_throw [typed]: "typed_reader P (tz_throw e)"
  by (simp add: typed_reader_def tz_throw_def)

lemma typed_bind [typed]:
  assumes "typed_reader P r" "\<And>x. P x \<Longrightarrow> typed_reader Q (k x)"
  shows "typed_reader Q (tz_bind r k)"
  unfolding typed_reader_def
proof (intro allI impI)
  fix d bs assume d: "data_typed d"
  show "case tz_bind r k (d, bs) of Inl (_, d') \<Rightarrow> data_typed d' | Inr (x, d', _) \<Rightarrow> Q x \<and> data_typed d'"
  proof (cases "r (d, bs)")
    case (Inl ed)
    then show ?thesis using typed_readerD(1) [OF assms(1) d, of bs] by (cases ed) (simp add: tz_bind_def)
  next
    case (Inr y)
    obtain x d1 bs1 where y: "y = (x, d1, bs1)" by (cases y)
    then have "P x" "data_typed d1" using typed_readerD(2) [OF assms(1) d, of bs] Inr by auto
    then show ?thesis using assms(2) [of x] Inr y by (simp add: typed_reader_def tz_bind_def)
  qed
qed

lemma typed_if: "(b \<Longrightarrow> typed_reader P r) \<Longrightarrow> (\<not> b \<Longrightarrow> typed_reader P q) \<Longrightarrow> typed_reader P (if b then r else q)"
  by simp

lemma typed_repeat: "typed_reader P r \<Longrightarrow> typed_reader (\<lambda>xs. \<forall>x \<in> set xs. P x) (tz_repeat n r)"
  by (induction n) (auto intro!: typed)

lemma sint_int32: "int32 (sint (w :: 32 word))"
  using sint_greater_eq [of w] sint_less [of w] by (simp add: int32_def)

lemma typed_readBytes: "typed_reader (\<lambda>_. True) (readBytes n)"
  by (simp add: typed_reader_def readBytes_def)

lemma typed_readInt32: "typed_reader int32 (File_readInt32 e)"
  by (simp add: typed_reader_def File_readInt32_def sint_int32)

lemma typed_readUInt8: "typed_reader (\<lambda>n. n < 256) readUInt8"
  by (auto simp: typed_reader_def readUInt8_def split: list.split)

lemma typed_modify: "(\<And>d. data_typed d \<Longrightarrow> data_typed (f d)) \<Longrightarrow> typed_reader (\<lambda>_. True) (tz_modify f)"
  by (simp add: typed_reader_def tz_modify_def)

lemma data_typed_rule:
  assumes "data_typed d" "int32 (gmtOffset l)" "arrbIdx l < 256"
  shows "data_typed (d\<lparr>localtimes := localtimes d @ [l]\<rparr>)"
  using assms by (auto simp: data_typed_def nth_append)

lemma typed_read_ttinfo: "typed_reader (\<lambda>_. True) (read_ttinfo e)"
  unfolding read_ttinfo_def
  by (intro typed_bind [OF typed_readInt32] typed_bind [OF typed_readUInt8] typed_modify data_typed_rule) simp_all

lemma typed_push_transitions:
  "\<forall>(tr, i) \<in> set ts. int32 tr \<and> i < 256 \<Longrightarrow> typed_reader (\<lambda>_. True) (push_transitions ts)"
proof (induction ts)
  case Nil
  then show ?case by (simp add: typed)
next
  case (Cons t ts)
  obtain tr i where t: "t = (tr, i)" by (cases t)
  have ti: "int32 tr" "i < 256" and IH: "typed_reader (\<lambda>_. True) (push_transitions ts)" using Cons t by auto
  have "data_typed (d\<lparr>transitions := transitions d @ [\<lparr>gmttime = tr, localtime = tr + gmtOffset (localtimes d ! i), localtimeIdx = i\<rparr>]\<rparr>)"
    if "data_typed d" "i < length (localtimes d)" for d
    using that ti by (auto simp: data_typed_def)
  then show ?case using IH t by (auto simp: typed_reader_def Let_def)
qed

lemma typed_read_zone: "typed_reader (\<lambda>_. True) (read_zone e)"
proof -
  have abbr: "typed_reader (\<lambda>_. True) (tz_modify (\<lambda>d. d\<lparr>tz_abbreviation := a\<rparr>))" for a
    by (rule typed_modify) (simp add: data_typed_def)
  have push: "typed_reader (\<lambda>_. True) (push_transitions (zip times locals))"
    if "\<forall>x \<in> set times. int32 x" "\<forall>x \<in> set locals. x < 256" for times locals
    using that by (intro typed_push_transitions) (auto dest: set_zip_leftD set_zip_rightD)
  show ?thesis
    unfolding read_zone_def
    by (intro typed_bind [OF typed_readBytes] typed_bind [OF typed_readInt32] typed_bind [OF typed_repeat [OF typed_readInt32]]
        typed_bind [OF typed_repeat [OF typed_readUInt8]] typed_bind [OF typed_repeat [OF typed_read_ttinfo]]
        typed_bind [OF push] typed_if typed_throw abbr)
qed

text \<open>The binary search on any array, sorted or not: the result is in range, and where it is the start, the
  first element was not less.\<close>

lemma lower_bound_range:
  "lower_bound cmp xs v first len \<le> first + len \<and> first \<le> lower_bound cmp xs v first len \<and>
   (lower_bound cmp xs v first len = first \<longrightarrow> 0 < len \<longrightarrow> \<not> cmp (xs ! first) v)"
proof (induction cmp xs v first len rule: lower_bound.induct)
  case (1 cmp xs v first len)
  show ?case
  proof (cases "len = 0")
    case True
    then show ?thesis by (simp add: lower_bound.simps)
  next
    case False
    let ?half = "len div 2"
    show ?thesis
    proof (cases "cmp (xs ! (first + ?half)) v")
      case True
      have "lower_bound cmp xs v first len = lower_bound cmp xs v (first + ?half + 1) (len - ?half - 1)"
        using True False by (simp add: lower_bound.simps [of cmp xs v first len] Let_def)
      moreover have "first + ?half + 1 + (len - ?half - 1) = first + len" using False by simp
      ultimately show ?thesis using "1.IH"(1) [OF False refl True] by linarith
    next
      case no: False
      have "?half = 0 \<longrightarrow> \<not> cmp (xs ! first) v" using no by auto
      then show ?thesis using "1.IH"(2) [OF False refl no] no False
        by (auto simp: lower_bound.simps [of cmp xs v first len] intro: order_trans)
    qed
  qed
qed

lemma findLocaltime_total:
  assumes "data_typed d" "localtimes d \<noteq> []"
  shows "\<exists>l \<in> set (localtimes d). findLocaltime d sentry cmp = Inr l"
proof -
  let ?ts = "transitions d" and ?i = "lower_bound (comp_less cmp) (transitions d) sentry 0 (length (transitions d))"
  have at: "\<exists>l \<in> set (localtimes d). localtimes_at d (localtimeIdx t) = Inr l" if "t \<in> set ?ts" for t
    using that assms(1) by (auto simp: data_typed_def localtimes_at_def)
  have zero: "\<exists>l \<in> set (localtimes d). localtimes_at d 0 = Inr l" using assms(2) by (auto simp: localtimes_at_def)
  show ?thesis
  proof (cases "?ts = [] \<or> comp_less cmp sentry (hd ?ts)")
    case True
    then show ?thesis using zero by (simp add: findLocaltime_def Let_def)
  next
    case False
    then have ne: "?ts \<noteq> []" "\<not> comp_less cmp sentry (?ts ! 0)" by (auto simp: hd_conv_nth)
    note r = lower_bound_range [of "comp_less cmp" ?ts sentry 0 "length ?ts"]
    have eq: "comp_equal cmp sentry (?ts ! 0)" if "?i = 0"
      using r that ne unfolding comp_less_key comp_equal_key by auto
    have le: "?i \<le> length ?ts" using r by simp
    have mem: "?ts ! j \<in> set ?ts" if "j < length ?ts" for j using that by simp
    consider "?i = length ?ts" | "?i < length ?ts" "comp_equal cmp sentry (?ts ! ?i)"
      | "?i < length ?ts" "\<not> comp_equal cmp sentry (?ts ! ?i)" "0 < ?i"
      using le eq by (cases "?i = 0") force+
    then show ?thesis
    proof cases
      case 1
      then show ?thesis using at [OF last_in_set [OF ne(1)]] False by (simp add: findLocaltime_def Let_def)
    next
      case 2
      then show ?thesis using at [OF mem] False by (simp add: findLocaltime_def Let_def)
    next
      case 3
      then show ?thesis using at [OF mem, of "?i - 1"] False by (simp add: findLocaltime_def Let_def)
    qed
  qed
qed


definition unsorted_zone :: Data where
  "unsorted_zone = sample_zone\<lparr>transitions := rev (transitions sample_zone)\<rparr>"


end
