(* ===== verification/Monitor.thy ===== *)
theory Monitor
  imports Prelude
begin

section \<open>Mutexes and condition variables (src/src/MutexLock.h, src/src/Condition.h)\<close>

text \<open>
  The pattern that the sources use for every wait: a thread locks a mutex and waits on a condition
  variable until the shared state is ready; another thread locks the mutex, changes the state,
  notifies and unlocks. \<open>mon_step\<close> has the steps of any number of threads that do so, in every
  interleaving, spurious wakeups included.

  A \<open>MutexLock\<close> is the owner of the pthread mutex and the field \<open>holder_\<close>; thread 0 does not
  exist. \<open>pthread_cond_wait\<close> releases the mutex and takes it again without touching
  \<open>holder_\<close>.

  What differs from one use to the next is a record \<open>mon_spec\<close>: when the shared state is ready, what
  an operation does to it, whether it notifies. The locale \<open>monitor\<close> states what such a use must
  satisfy and proves once what it then promises; the latch, the start of a thread and the start
  of a loop thread are its interpretations.
\<close>

record MutexLock =
  mutex_owner :: "nat option"
  holder :: nat

definition new_MutexLock :: MutexLock where
  "new_MutexLock = \<lparr>mutex_owner = None, holder = 0\<rparr>"

definition delete_MutexLock :: "MutexLock \<Rightarrow> unit res" where
  "delete_MutexLock m = ensure (holder m = 0) ''holder_ == 0'' (Inr ())"

definition isLockedByThisThread :: "nat \<Rightarrow> MutexLock \<Rightarrow> bool" where
  "isLockedByThisThread tid m \<longleftrightarrow> holder m = tid"

definition assertLocked :: "nat \<Rightarrow> MutexLock \<Rightarrow> unit res" where
  "assertLocked tid m = ensure (isLockedByThisThread tid m) ''isLockedByThisThread()'' (Inr ())"

text \<open>\<open>None\<close>: the thread blocks.\<close>

definition mutex_lock :: "nat \<Rightarrow> MutexLock \<Rightarrow> MutexLock option" where
  "mutex_lock tid m =
     (case mutex_owner m of None \<Rightarrow> Some (m\<lparr>mutex_owner := Some tid, holder := tid\<rparr>) | Some _ \<Rightarrow> None)"

definition mutex_unlock :: "MutexLock \<Rightarrow> MutexLock" where
  "mutex_unlock m = (let m1 = m\<lparr>holder := 0\<rparr> in m1\<lparr>mutex_owner := None\<rparr>)"

text \<open>\<open>Condition::wait\<close> in its two halves: before the thread sleeps and after it was woken.\<close>

definition cond_wait_begin :: "MutexLock \<Rightarrow> MutexLock" where
  "cond_wait_begin m = m\<lparr>mutex_owner := None\<rparr>"

definition cond_wait_end :: "nat \<Rightarrow> MutexLock \<Rightarrow> MutexLock option" where
  "cond_wait_end tid m =
     (case mutex_owner m of None \<Rightarrow> Some (m\<lparr>mutex_owner := Some tid\<rparr>) | Some _ \<Rightarrow> None)"

text \<open>The record of the holder is kept by \<open>lock\<close> and \<open>unlock\<close> but not by a wait: a thread that is back
  from a wait owns the mutex, and \<open>assertLocked\<close> fails.\<close>

lemma holder_lost:
  assumes "0 < t" "mutex_owner m = Some t" "mutex_lock u (cond_wait_begin m) = Some m1"
    "cond_wait_end t (mutex_unlock m1) = Some m2"
  shows "mutex_owner m2 = Some t" "\<not> isLockedByThisThread t m2" "\<exists>e. assertLocked t m2 = Inl e"
  using assms by (auto simp: mutex_lock_def mutex_unlock_def cond_wait_begin_def cond_wait_end_def
    isLockedByThisThread_def assertLocked_def ensure_def)

text \<open>\<open>Condition::waitForSeconds\<close> in its two halves. The first reads the clock (seconds and nanoseconds, at
  their widths), adds the seconds and sleeps with the deadline it computed; the second comes back with the
  answer of \<open>pthread_cond_timedwait\<close>, and with the mutex whatever the answer.\<close>

definition ETIMEDOUT :: int where "ETIMEDOUT = 110"

definition waitForSeconds_begin :: "64 word \<times> 64 word \<Rightarrow> 32 word \<Rightarrow> MutexLock \<Rightarrow> (64 word \<times> 64 word) \<times> MutexLock" where
  "waitForSeconds_begin now seconds m =
     (let abstime = (fst now + scast seconds, snd now) in (abstime, cond_wait_begin m))"

definition waitForSeconds_end :: "int \<Rightarrow> nat \<Rightarrow> MutexLock \<Rightarrow> (bool \<times> MutexLock) option" where
  "waitForSeconds_end answer tid m =
     (case cond_wait_end tid m of Some m' \<Rightarrow> Some (ETIMEDOUT = answer, m') | None \<Rightarrow> None)"

lemma sint_plus_small:
  fixes a b :: "64 word"
  assumes "- (2 ^ 63) \<le> sint a + sint b" "sint a + sint b < 2 ^ 63"
  shows "sint (a + b) = sint a + sint b"
  using assms by (simp add: sint_word_ariths signed_take_bit_int_eq_self_iff)

text \<open>The deadline lies exactly the given number of seconds behind the clock, before it when the number is
  negative, as long as the seconds of the clock need no more than 63 bits: the sum does not wrap around.\<close>

lemma waitForSeconds_deadline:
  assumes "waitForSeconds_begin now seconds m = (abstime, m')" "- (2 ^ 62) \<le> sint (fst now)" "sint (fst now) < 2 ^ 62"
  shows "sint (fst abstime) = sint (fst now) + sint seconds" "snd abstime = snd now" "mutex_owner m' = None"
proof -
  have b: "- (2 ^ 31) \<le> sint seconds" "sint seconds < 2 ^ 31"
    using sint_greater_eq [of seconds] sint_less [of seconds] by simp_all
  have s: "sint (scast seconds :: 64 word) = sint seconds"
    using b by (simp add: signed_scast_eq signed_take_bit_int_eq_self_iff)
  have "sint (fst now + scast seconds) = sint (fst now) + sint (scast seconds :: 64 word)"
    using assms(2,3) b by (intro sint_plus_small) (simp_all add: s)
  then show "sint (fst abstime) = sint (fst now) + sint seconds" "snd abstime = snd now" "mutex_owner m' = None"
    using assms(1) s by (auto simp: waitForSeconds_begin_def cond_wait_begin_def Let_def)
qed

text \<open>A thread that comes back owns the mutex, and is told of a timeout exactly when there was one: a call that
  fails otherwise looks like a notification.\<close>

lemma waitForSeconds_back:
  assumes "waitForSeconds_end answer t m = Some (timeout, m')"
  shows "mutex_owner m = None" "mutex_owner m' = Some t" "timeout \<longleftrightarrow> answer = ETIMEDOUT"
  using assms by (auto simp: waitForSeconds_end_def cond_wait_end_def split: option.splits)

subsection \<open>Threads around a monitor\<close>

text \<open>Where a thread is: outside, on its way into a wait, evaluating the condition of its loop with
  the mutex held, asleep, woken and waiting for the mutex, back from the wait with the state it
  saw, on its way into an operation, or inside one.\<close>

datatype ('s, 'op) mon_pc =
  Outside | WantWait | Checking | Sleeping | Woken | Returned 's | WantSignal 'op | InSignal 'op

record ('s, 'op) mon_world =
  lock :: MutexLock
  shared :: 's
  pcs :: "nat \<Rightarrow> ('s, 'op) mon_pc"

text \<open>One use of the pattern: the negated condition of the waiting loop; the effect of an operation
  on the shared state; whether it notifies, given the state it leaves; \<open>notifyAll\<close> or \<open>notify\<close>;
  the threads that wait; which thread may call which operation when; what a thread may do to the
  shared state without the mutex.\<close>

record ('s, 'op) mon_spec =
  ready :: "'s \<Rightarrow> bool"
  apply_op :: "'op \<Rightarrow> 's \<Rightarrow> 's"
  notifies :: "'op \<Rightarrow> 's \<Rightarrow> bool"
  broadcast :: bool
  waiters :: "nat set"
  enabled :: "nat \<Rightarrow> 'op \<Rightarrow> 's \<Rightarrow> bool"
  unlocked :: "nat \<Rightarrow> 's \<Rightarrow> 's \<Rightarrow> bool"

text \<open>\<open>notifyAll\<close> wakes every sleeper; \<open>notify\<close> wakes one of them, if there is one.\<close>

definition woken_by :: "bool \<Rightarrow> nat set \<Rightarrow> nat set \<Rightarrow> bool" where
  "woken_by all asleep woken \<longleftrightarrow>
     (if all then woken = asleep
      else if asleep = {} then woken = {} else \<exists>t \<in> asleep. woken = {t})"

definition sleepers :: "('s, 'op) mon_world \<Rightarrow> nat set" where
  "sleepers w = {t. pcs w t = Sleeping}"

inductive mon_step :: "('s, 'op) mon_spec \<Rightarrow> ('s, 'op) mon_world \<Rightarrow> ('s, 'op) mon_world \<Rightarrow> bool"
  for M where
  call_wait: "pcs w t = Outside \<Longrightarrow> 0 < t \<Longrightarrow> t \<in> waiters M \<Longrightarrow>
    mon_step M w (w\<lparr>pcs := (pcs w)(t := WantWait)\<rparr>)"
| lock_wait: "pcs w t = WantWait \<Longrightarrow> mutex_lock t (lock w) = Some m \<Longrightarrow>
    mon_step M w (w\<lparr>lock := m, pcs := (pcs w)(t := Checking)\<rparr>)"
| leave_wait: "pcs w t = Checking \<Longrightarrow> ready M (shared w) \<Longrightarrow>
    mon_step M w (w\<lparr>lock := mutex_unlock (lock w), pcs := (pcs w)(t := Returned (shared w))\<rparr>)"
| sleep: "pcs w t = Checking \<Longrightarrow> \<not> ready M (shared w) \<Longrightarrow>
    mon_step M w (w\<lparr>lock := cond_wait_begin (lock w), pcs := (pcs w)(t := Sleeping)\<rparr>)"
| spurious: "pcs w t = Sleeping \<Longrightarrow> mon_step M w (w\<lparr>pcs := (pcs w)(t := Woken)\<rparr>)"
| relock: "pcs w t = Woken \<Longrightarrow> cond_wait_end t (lock w) = Some m \<Longrightarrow>
    mon_step M w (w\<lparr>lock := m, pcs := (pcs w)(t := Checking)\<rparr>)"
| go_on: "pcs w t = Returned r \<Longrightarrow> mon_step M w (w\<lparr>pcs := (pcs w)(t := Outside)\<rparr>)"
| work: "pcs w t = Outside \<Longrightarrow> unlocked M t (shared w) s' \<Longrightarrow> mon_step M w (w\<lparr>shared := s'\<rparr>)"
| call_signal: "pcs w t = Outside \<Longrightarrow> 0 < t \<Longrightarrow> enabled M t op (shared w) \<Longrightarrow>
    mon_step M w (w\<lparr>pcs := (pcs w)(t := WantSignal op)\<rparr>)"
| lock_signal: "pcs w t = WantSignal op \<Longrightarrow> mutex_lock t (lock w) = Some m \<Longrightarrow>
    mon_step M w (w\<lparr>lock := m, pcs := (pcs w)(t := InSignal op)\<rparr>)"
| signal: "pcs w t = InSignal op \<Longrightarrow> s' = apply_op M op (shared w) \<Longrightarrow>
    woken_by (broadcast M) (if notifies M op s' then sleepers w else {}) woken \<Longrightarrow>
    mon_step M w
      (w\<lparr>lock := mutex_unlock (lock w), shared := s',
         pcs := (\<lambda>u. if u \<in> woken then Woken else ((pcs w)(t := Outside)) u)\<rparr>)"

definition new_mon :: "'s \<Rightarrow> ('s, 'op) mon_world" where
  "new_mon s = \<lparr>lock = new_MutexLock, shared = s, pcs = (\<lambda>_. Outside)\<rparr>"

text \<open>The worlds that the threads can get into from a shared state \<open>s\<close>, in any interleaving.\<close>

abbreviation mon_reach :: "('s, 'op) mon_spec \<Rightarrow> 's \<Rightarrow> ('s, 'op) mon_world \<Rightarrow> bool" where
  "mon_reach M s w \<equiv> (mon_step M)\<^sup>*\<^sup>* (new_mon s) w"

text \<open>A thread that meets nobody runs an operation from one end to the other.\<close>

lemma run_alone:
  assumes "0 < t" "enabled M t op s"
  shows "mon_reach M s (new_mon (apply_op M op s))"
proof -
  let ?a = "(new_mon s)\<lparr>pcs := (pcs (new_mon s))(t := WantSignal op)\<rparr>"
  let ?m = "new_MutexLock\<lparr>mutex_owner := Some t, holder := t\<rparr>"
  let ?b = "?a\<lparr>lock := ?m, pcs := (pcs ?a)(t := InSignal op)\<rparr>"
  have "mon_step M (new_mon s) ?a" using assms by (intro call_signal) (simp_all add: new_mon_def)
  moreover have "mon_step M ?a ?b"
    by (intro lock_signal) (simp_all add: new_mon_def mutex_lock_def new_MutexLock_def)
  moreover have "woken_by (broadcast M) (if notifies M op (apply_op M op s) then sleepers ?b else {}) {}"
    by (auto simp: woken_by_def sleepers_def new_mon_def)
  then have "mon_step M ?b (?b\<lparr>lock := mutex_unlock (lock ?b), shared := apply_op M op s,
      pcs := (\<lambda>u. if u \<in> {} then Woken else ((pcs ?b)(t := Outside)) u)\<rparr>)"
    by (intro signal) (simp_all add: new_mon_def)
  moreover have "?b\<lparr>lock := mutex_unlock (lock ?b), shared := apply_op M op s,
      pcs := (\<lambda>u. if u \<in> {} then Woken else ((pcs ?b)(t := Outside)) u)\<rparr> = new_mon (apply_op M op s)"
    by (auto simp: new_mon_def new_MutexLock_def mutex_unlock_def)
  ultimately show ?thesis by (metis (no_types, lifting) rtranclp.simps)
qed

text \<open>A thread holds the mutex.\<close>

fun holds :: "('s, 'op) mon_pc \<Rightarrow> bool" where
  "holds Checking = True"
| "holds (InSignal op) = True"
| "holds _ = False"

definition mutual_exclusion :: "('s, 'op) mon_world \<Rightarrow> bool" where
  "mutual_exclusion w \<longleftrightarrow> (\<forall>t. holds (pcs w t) \<longleftrightarrow> mutex_owner (lock w) = Some t)"

lemmas mutex_defs = mutex_lock_def mutex_unlock_def cond_wait_begin_def cond_wait_end_def

text \<open>The three ways in which a step treats the mutex.\<close>

lemma mutual_exclusion_keep:
  "mutual_exclusion w \<Longrightarrow> \<not> holds (pcs w t) \<Longrightarrow> \<not> holds p \<Longrightarrow>
    mutual_exclusion (w\<lparr>pcs := (pcs w)(t := p)\<rparr>)"
  by (auto simp: mutual_exclusion_def)

lemma mutual_exclusion_acquire:
  "mutual_exclusion w \<Longrightarrow> mutex_owner (lock w) = None \<Longrightarrow> holds p \<Longrightarrow> mutex_owner m = Some t \<Longrightarrow>
    mutual_exclusion (w\<lparr>lock := m, pcs := (pcs w)(t := p)\<rparr>)"
  by (auto simp: mutual_exclusion_def)

lemma mutual_exclusion_release:
  assumes "mutual_exclusion w" "holds (pcs w t)" "mutex_owner m = None"
    "\<And>u. u \<noteq> t \<Longrightarrow> holds (p u) \<Longrightarrow> holds (pcs w u)" "\<not> holds (p t)"
  shows "mutual_exclusion (w\<lparr>lock := m, shared := s, pcs := p\<rparr>)"
proof -
  have "\<not> holds (p u)" for u
    using assms unfolding mutual_exclusion_def by (metis option.inject)
  then show ?thesis using assms(3) by (simp add: mutual_exclusion_def)
qed

lemma mutex_lock_Some:
  "mutex_lock t m = Some m' \<longleftrightarrow> mutex_owner m = None \<and> m' = m\<lparr>mutex_owner := Some t, holder := t\<rparr>"
  by (auto simp: mutex_lock_def split: option.splits)

lemma cond_wait_end_Some:
  "cond_wait_end t m = Some m' \<longleftrightarrow> mutex_owner m = None \<and> m' = m\<lparr>mutex_owner := Some t\<rparr>"
  by (auto simp: cond_wait_end_def split: option.splits)

lemma mutual_exclusion_step:
  assumes s: "mon_step M w w'" and me: "mutual_exclusion w"
  shows "mutual_exclusion w'"
  using s
proof (cases rule: mon_step.cases)
  case (leave_wait t)
  then show ?thesis
    using mutual_exclusion_release [OF me, of t "mutex_unlock (lock w)" "(pcs w)(t := Returned (shared w))" "shared w"]
    by (simp add: mutex_unlock_def)
next
  case (sleep t)
  then show ?thesis
    using mutual_exclusion_release [OF me, of t "cond_wait_begin (lock w)" "(pcs w)(t := Sleeping)" "shared w"]
    by (simp add: cond_wait_begin_def)
next
  case (work t s')
  then show ?thesis using me by (simp add: mutual_exclusion_def)
next
  case (signal t op s' woken)
  then show ?thesis
    using me by (auto simp: mutex_unlock_def split: if_splits intro!: mutual_exclusion_release [of _ t])
qed (use me in \<open>auto simp: mutex_lock_Some cond_wait_end_Some intro!: mutual_exclusion_keep mutual_exclusion_acquire\<close>)

subsection \<open>The contract of a monitor\<close>

text \<open>Every operation that makes the state ready notifies; a single notification is enough where
  only one thread ever waits; what a thread may do stays possible until it does it; what is done
  without the mutex does not make the state ready. \<open>good\<close> is what the threads keep of the shared
  state.\<close>

locale monitor =
  fixes M :: "('s, 'op) mon_spec"
    and good :: "'s \<Rightarrow> bool"
  assumes notifies_ready: "good s \<Longrightarrow> \<not> ready M s \<Longrightarrow> enabled M t op s \<Longrightarrow> ready M (apply_op M op s) \<Longrightarrow>
      notifies M op (apply_op M op s)"
    and one_waiter: "broadcast M \<or> (\<exists>p. waiters M \<subseteq> {p})"
    and good_op: "good s \<Longrightarrow> enabled M t op s \<Longrightarrow> good (apply_op M op s)"
    and enabled_op: "enabled M t op s \<Longrightarrow> enabled M u op' s \<Longrightarrow> t \<noteq> u \<Longrightarrow> enabled M t op (apply_op M op' s)"
    and unlocked_good: "good s \<Longrightarrow> unlocked M u s s' \<Longrightarrow> good s'"
    and unlocked_ready: "unlocked M u s s' \<Longrightarrow> ready M s' \<Longrightarrow> ready M s"
    and unlocked_enabled: "unlocked M u s s' \<Longrightarrow> u \<noteq> t \<Longrightarrow> enabled M t op s \<Longrightarrow> enabled M t op s'"
begin

text \<open>What is known of a thread at each place, in the shared state \<open>s\<close>.\<close>

fun pc_ok :: "'s \<Rightarrow> nat \<Rightarrow> ('s, 'op) mon_pc \<Rightarrow> bool" where
  "pc_ok s t Outside = True"
| "pc_ok s t WantWait = (t \<in> waiters M)"
| "pc_ok s t Checking = (t \<in> waiters M)"
| "pc_ok s t Sleeping = (t \<in> waiters M \<and> \<not> ready M s)"
| "pc_ok s t Woken = (t \<in> waiters M)"
| "pc_ok s t (Returned r) = (t \<in> waiters M \<and> ready M r \<and> good r)"
| "pc_ok s t (WantSignal op) = enabled M t op s"
| "pc_ok s t (InSignal op) = enabled M t op s"

definition inv :: "('s, 'op) mon_world \<Rightarrow> bool" where
  "inv w \<longleftrightarrow> mutual_exclusion w \<and> good (shared w) \<and> (\<forall>t. pc_ok (shared w) t (pcs w t))"

lemma inv_D:
  assumes "inv w"
  shows "mutual_exclusion w" "good (shared w)" "pc_ok (shared w) t (pcs w t)"
  using assms by (simp_all add: inv_def)

lemma non_waiter:
  assumes "inv w" "t \<notin> waiters M"
  shows "pcs w t = Outside \<or> (\<exists>op. enabled M t op (shared w) \<and> (pcs w t = WantSignal op \<or> pcs w t = InSignal op))"
  using inv_D(3) [OF assms(1), of t] assms(2) by (cases "pcs w t") auto

lemma non_signaller:
  assumes "inv w" "\<And>op. \<not> enabled M t op (shared w)"
  shows "pcs w t = Outside \<or> pcs w t \<in> {WantWait, Checking, Sleeping, Woken} \<or> (\<exists>r. pcs w t = Returned r)"
  using inv_D(3) [OF assms(1), of t] assms(2) by (cases "pcs w t") auto

lemma returned_good:
  assumes "inv w" "pcs w t = Returned r"
  shows "ready M r" "good r"
  using inv_D(3) [OF assms(1), of t] assms(2) by simp_all

lemma all_woken:
  assumes "inv w" "woken_by (broadcast M) (if b then sleepers w else {}) woken"
  shows "woken = (if b then sleepers w else {})"
proof -
  have "t \<in> waiters M" if "t \<in> sleepers w" for t
    using inv_D(3) [OF assms(1), of t] that by (simp add: sleepers_def)
  then show ?thesis using one_waiter assms(2) by (auto simp: woken_by_def split: if_splits)
qed

lemma all_sleepers_one:
  assumes "inv w"
  shows "woken_by (broadcast M) (if b then sleepers w else {}) (if b then sleepers w else {})"
proof -
  have "t \<in> waiters M" if "t \<in> sleepers w" for t
    using inv_D(3) [OF assms, of t] that by (simp add: sleepers_def)
  then show ?thesis using one_waiter by (auto simp: woken_by_def)
qed

lemma pc_ok_unlocked:
  assumes "pc_ok s t p" "unlocked M u s s'" "u \<noteq> t"
  shows "pc_ok s' t p"
  using assms unlocked_enabled unlocked_ready by (cases p) auto

lemma pc_ok_op:
  assumes "pc_ok s t p" "enabled M u op s" "u \<noteq> t" "p \<noteq> Sleeping"
  shows "pc_ok (apply_op M op s) t p"
  using assms enabled_op by (cases p) auto

lemma inv_signal:
  assumes i: "inv w" and t: "pcs w t = InSignal op"
    and k: "woken_by (broadcast M) (if notifies M op (apply_op M op (shared w)) then sleepers w else {}) woken"
  shows "pc_ok (apply_op M op (shared w)) u (if u \<in> woken then Woken else ((pcs w)(t := Outside)) u)"
proof -
  have en: "enabled M t op (shared w)" using inv_D(3) [OF i, of t] t by simp
  have u: "pc_ok (shared w) u (pcs w u)" by (rule inv_D(3) [OF i])
  have woken: "woken = (if notifies M op (apply_op M op (shared w)) then sleepers w else {})"
    by (rule all_woken [OF i k])
  consider "u = t" | "u \<noteq> t" "pcs w u = Sleeping" | "u \<noteq> t" "pcs w u \<noteq> Sleeping" by blast
  then show ?thesis
  proof cases
    case 1
    then show ?thesis using t woken by (simp add: sleepers_def)
  next
    case 2
    then have "\<not> ready M (apply_op M op (shared w))" if "u \<notin> woken"
      using notifies_ready [OF inv_D(2) [OF i] _ en] u woken that by (auto simp: sleepers_def split: if_splits)
    then show ?thesis using 2 u by simp
  next
    case 3
    then show ?thesis using pc_ok_op [OF u en] woken by (simp add: sleepers_def)
  qed
qed

lemma inv_step:
  assumes s: "mon_step M w w'" and i: "inv w"
  shows "inv w'"
proof -
  have "good (shared w') \<and> pc_ok (shared w') u (pcs w' u)" for u
    using s
  proof (cases rule: mon_step.cases)
    case (work t s')
    then show ?thesis
      using inv_D(2,3) [OF i] unlocked_good pc_ok_unlocked [of "shared w" u "pcs w u" t] by (cases "u = t") auto
  next
    case (signal t op s' woken)
    then show ?thesis
      using inv_D(2) [OF i] inv_D(3) [OF i, of t] inv_signal [OF i signal(2)] good_op by simp
  qed (use inv_D(2) [OF i] inv_D(3) [OF i, of u] in auto)
  then show ?thesis using mutual_exclusion_step [OF s inv_D(1) [OF i]] by (simp add: inv_def)
qed

lemma inv_steps:
  assumes "(mon_step M)\<^sup>*\<^sup>* w w'" "inv w"
  shows "inv w'"
  using assms by (induction rule: rtranclp_induct) (auto intro: inv_step)

lemma inv_reach:
  assumes "mon_reach M s w" "good s"
  shows "inv w"
  using assms(1)
proof (rule inv_steps)
  show "inv (new_mon s)"
    using assms(2) by (simp add: inv_def new_mon_def mutual_exclusion_def new_MutexLock_def)
qed

text \<open>What a client of the pattern gets: never two threads inside; a wait returns only a ready
  state; nobody sleeps through a state that is ready.\<close>

lemma monitor_correct:
  assumes "mon_reach M s w" "good s"
  shows "mutual_exclusion w" "pcs w t = Returned r \<Longrightarrow> ready M r \<and> good r"
    "ready M (shared w) \<Longrightarrow> pcs w t \<noteq> Sleeping"
proof -
  note inv = inv_reach [OF assms]
  note i = inv_D(3) [OF inv, of t]
  show "mutual_exclusion w" by (rule inv_D(1) [OF inv])
  show "pcs w t = Returned r \<Longrightarrow> ready M r \<and> good r" using returned_good [OF inv] by blast
  show "ready M (shared w) \<Longrightarrow> pcs w t \<noteq> Sleeping" using i by auto
qed

text \<open>The mutex is never held for ever: the thread that has it can give it back, while a thread
  \<open>t\<close> that is neither inside nor asleep stays where it is.\<close>

lemma can_release:
  assumes i: "inv w" and t: "\<not> holds (pcs w t)" "pcs w t \<noteq> Sleeping"
  shows "\<exists>w'. (mon_step M)\<^sup>*\<^sup>* w w' \<and> mutex_owner (lock w') = None \<and> pcs w' t = pcs w t \<and>
    (shared w' = shared w \<or> (\<exists>u op. enabled M u op (shared w) \<and> shared w' = apply_op M op (shared w)))"
proof (cases "mutex_owner (lock w)")
  case None
  then show ?thesis by blast
next
  case (Some u)
  then have h: "holds (pcs w u)" using inv_D(1) [OF i] by (simp add: mutual_exclusion_def)
  then have ut: "u \<noteq> t" using t by auto
  have free: "mutex_owner (mutex_unlock m) = None" "mutex_owner (cond_wait_begin m) = None" for m
    by (simp_all add: mutex_defs)
  from h consider "pcs w u = Checking" | op where "pcs w u = InSignal op" by (cases "pcs w u") auto
  then show ?thesis
  proof cases
    case 1
    then show ?thesis
      using ut mon_step.leave_wait [OF 1] mon_step.sleep [OF 1] free
      by (cases "ready M (shared w)") (fastforce intro!: exI conjI r_into_rtranclp)+
  next
    case (2 op)
    let ?s = "apply_op M op (shared w)"
    define woken where "woken = (if notifies M op ?s then sleepers w else {})"
    let ?w = "w\<lparr>lock := mutex_unlock (lock w), shared := ?s,
      pcs := (\<lambda>v. if v \<in> woken then Woken else ((pcs w)(u := Outside)) v)\<rparr>"
    have "woken_by (broadcast M) woken woken"
      using all_sleepers_one [OF i] by (simp add: woken_def)
    then have "mon_step M w ?w" using 2 by (intro mon_step.signal) (simp_all add: woken_def)
    moreover have "pcs ?w t = pcs w t" using t ut by (simp add: woken_def sleepers_def)
    moreover have "enabled M u op (shared w)" using inv_D(3) [OF i, of u] 2 by simp
    ultimately show ?thesis using free by (intro exI [of _ ?w]) auto
  qed
qed

lemma op_finishes:
  assumes i: "inv w" and t: "pcs w t = InSignal op"
  shows "\<exists>w'. mon_step M w w' \<and> shared w' = apply_op M op (shared w)"
  using mon_step.signal [OF t refl all_sleepers_one [OF i]] by fastforce

lemma op_completes:
  assumes i: "inv w" and t: "pcs w t = WantSignal op \<or> pcs w t = InSignal op"
  shows "\<exists>s w'. (mon_step M)\<^sup>*\<^sup>* w w' \<and> good s \<and> enabled M t op s \<and> shared w' = apply_op M op s"
proof -
  have "\<exists>v. (mon_step M)\<^sup>*\<^sup>* w v \<and> pcs v t = InSignal op"
  proof (cases "pcs w t = InSignal op")
    case False
    then obtain v where v: "(mon_step M)\<^sup>*\<^sup>* w v" "mutex_owner (lock v) = None" "pcs v t = WantSignal op"
      using can_release [OF i, of t] t by auto
    have "mon_step M v (v\<lparr>lock := (lock v)\<lparr>mutex_owner := Some t, holder := t\<rparr>, pcs := (pcs v)(t := InSignal op)\<rparr>)"
      using v by (intro mon_step.lock_signal) (simp_all add: mutex_lock_Some)
    then obtain x where "mon_step M v x" "pcs x t = InSignal op" by fastforce
    with v(1) show ?thesis by (meson rtranclp.rtrancl_into_rtrancl)
  qed blast
  then obtain v where v: "(mon_step M)\<^sup>*\<^sup>* w v" "pcs v t = InSignal op" by blast
  have iv: "inv v" using v(1) i by (rule inv_steps)
  obtain y where y: "mon_step M v y" "shared y = apply_op M op (shared v)"
    using op_finishes [OF iv v(2)] by blast
  have "(mon_step M)\<^sup>*\<^sup>* w y" using v(1) y(1) by simp
  moreover have "good (shared v)" "enabled M t op (shared v)"
    using inv_D(2) [OF iv] inv_D(3) [OF iv, of t] v(2) by simp_all
  ultimately show ?thesis using y(2) by blast
qed

end

subsection \<open>Progress\<close>

text \<open>Where a ready state stays ready, every thread that waits can return: from any world there is a
  continuation in which it does, so that no sequence of steps leads into a deadlock.\<close>

locale stable_monitor = monitor +
  assumes ready_op: "good s \<Longrightarrow> enabled M t op s \<Longrightarrow> ready M s \<Longrightarrow> ready M (apply_op M op s)"
begin

lemma checking_returns:
  assumes "ready M (shared w)" "pcs w t = Checking"
  shows "\<exists>w' r. (mon_step M)\<^sup>*\<^sup>* w w' \<and> pcs w' t = Returned r"
  using leave_wait [OF assms(2) assms(1)] by (intro exI conjI r_into_rtranclp) auto

lemma wait_returns:
  assumes "inv w" "ready M (shared w)" "pcs w t \<in> {WantWait, Checking, Sleeping, Woken}"
  shows "\<exists>w' r. (mon_step M)\<^sup>*\<^sup>* w w' \<and> pcs w' t = Returned r"
proof (cases "pcs w t = Checking")
  case True
  then show ?thesis using checking_returns assms(2) by blast
next
  case False
  have "pcs w t \<noteq> Sleeping" using inv_D(3) [OF assms(1), of t] assms(2) by auto
  then have "pcs w t \<in> {WantWait, Woken}" using False assms(3) by auto
  moreover from this have "\<not> holds (pcs w t)" "pcs w t \<noteq> Sleeping" by auto
  ultimately obtain v where v: "(mon_step M)\<^sup>*\<^sup>* w v" "mutex_owner (lock v) = None" "ready M (shared v)"
      "pcs v t \<in> {WantWait, Woken}"
    using can_release [OF assms(1), of t] ready_op [OF inv_D(2) [OF assms(1)]] assms(2) by metis
  have "\<exists>m. mon_step M v (v\<lparr>lock := m, pcs := (pcs v)(t := Checking)\<rparr>)"
    using v(4) mon_step.lock_wait [of v t "lock v\<lparr>mutex_owner := Some t, holder := t\<rparr>" M]
      mon_step.relock [of v t "lock v\<lparr>mutex_owner := Some t\<rparr>" M] v(2)
    unfolding mutex_lock_Some cond_wait_end_Some by blast
  then obtain x where x: "mon_step M v x" "ready M (shared x)" "pcs x t = Checking"
    using v(3) by fastforce
  have "(mon_step M)\<^sup>*\<^sup>* w x" using v(1) x(1) by simp
  then show ?thesis using checking_returns [OF x(2,3)] by (meson rtranclp_trans)
qed

end

end
