(* ===== verification/Threading.thy ===== *)
theory Threading
  imports Monitor Format
begin

section \<open>Threads (src/src/Atomic.h, CountDownLatch, Thread, CurrentThread, EventLoopThread)\<close>

text \<open>
  The atomic integers, the latch, the thread object with the handshake of its start, the thread
  that owns a loop. The three waits are interpretations of \<open>monitor\<close>; each theorem about them
  holds in every interleaving of the threads.
\<close>

subsection \<open>Atomic integers\<close>

text \<open>An operation returns its result and the new value. \<open>__sync_val_compare_and_swap(p, 0, 0)\<close>
  returns the old value and stores 0 only over 0. The width is that of the template argument;
  \<open>__sync_fetch_and_add\<close> wraps around.\<close>

definition new_AtomicInteger :: "'a::len word" where
  "new_AtomicInteger = 0"

definition atomic_get :: "'a::len word \<Rightarrow> 'a word \<times> 'a word" where
  "atomic_get v = (v, if v = 0 then 0 else v)"

definition getAndAdd :: "'a::len word \<Rightarrow> 'a word \<Rightarrow> 'a word \<times> 'a word" where
  "getAndAdd x v = (v, v + x)"

definition addAndGet :: "'a::len word \<Rightarrow> 'a word \<Rightarrow> 'a word \<times> 'a word" where
  "addAndGet x v = (let (old, v1) = getAndAdd x v in (old + x, v1))"

definition incrementAndGet :: "'a::len word \<Rightarrow> 'a word \<times> 'a word" where
  "incrementAndGet v = addAndGet 1 v"

definition decrementAndGet :: "'a::len word \<Rightarrow> 'a word \<times> 'a word" where
  "decrementAndGet v = addAndGet (- 1) v"

definition atomic_add :: "'a::len word \<Rightarrow> 'a word \<Rightarrow> 'a word" where
  "atomic_add x v = snd (getAndAdd x v)"

definition atomic_increment :: "'a::len word \<Rightarrow> 'a word" where
  "atomic_increment v = snd (incrementAndGet v)"

definition atomic_decrement :: "'a::len word \<Rightarrow> 'a word" where
  "atomic_decrement v = snd (decrementAndGet v)"

definition atomic_getAndSet :: "'a::len word \<Rightarrow> 'a word \<Rightarrow> 'a word \<times> 'a word" where
  "atomic_getAndSet newValue v = (v, newValue)"

lemmas atomic_defs = atomic_get_def getAndAdd_def addAndGet_def incrementAndGet_def decrementAndGet_def
  atomic_add_def atomic_increment_def atomic_decrement_def atomic_getAndSet_def

lemma atomic_get_pure: "atomic_get v = (v, v)"
  by (simp add: atomic_get_def)

lemma addAndGet_new: "addAndGet x v = (v + x, v + x)"
  by (simp add: atomic_defs)

lemma increment_decrement: "atomic_decrement (atomic_increment v) = v"
  by (simp add: atomic_defs)

text \<open>The results of the increments of a counter, in the order in which the threads make them.\<close>

fun increments :: "nat \<Rightarrow> 'a::len word \<Rightarrow> 'a word list" where
  "increments 0 v = []"
| "increments (Suc n) v = (let (r, v1) = incrementAndGet v in r # increments n v1)"

lemma increments_nth: "i < n \<Longrightarrow> increments n v ! i = v + of_nat (Suc i)"
proof (induction n arbitrary: v i)
  case (Suc n)
  then show ?case by (cases i) (simp_all add: incrementAndGet_def addAndGet_new)
qed simp

lemma length_increments [simp]: "length (increments n v) = n"
  by (induction n arbitrary: v) (simp_all add: incrementAndGet_def addAndGet_new)

text \<open>No two of fewer than \<open>2 ^ w\<close> increments get the same number.\<close>

lemma increments_distinct:
  fixes v :: "'a::len word"
  assumes "n \<le> 2 ^ LENGTH('a)"
  shows "distinct (increments n v)"
  unfolding distinct_conv_nth
proof (intro allI impI)
  fix i j assume ij: "i < length (increments n v)" "j < length (increments n v)" "i \<noteq> j"
  then have "i < 2 ^ LENGTH('a)" "j < 2 ^ LENGTH('a)" using assms by simp_all
  then have "(of_nat i :: 'a word) \<noteq> of_nat j" using ij(3) by (simp add: word_of_nat_eq_iff take_bit_eq_mod)
  then show "increments n v ! i \<noteq> increments n v ! j" using ij by (simp add: increments_nth)
qed

subsection \<open>The latch\<close>

text \<open>\<open>count_\<close> is a signed int; a latch would have to be counted down $2^{31}$ times below zero for it
  to overflow. Any thread may wait and any thread may count down, as often as it likes.\<close>

definition latch_ready :: "int \<Rightarrow> bool" where
  "latch_ready count \<longleftrightarrow> \<not> 0 < count"

definition countDown :: "int \<Rightarrow> int" where
  "countDown count = count - 1"

definition countDown_notifies :: "int \<Rightarrow> bool" where
  "countDown_notifies count \<longleftrightarrow> count = 0"

definition CountDownLatch :: "(int, unit) mon_spec" where
  "CountDownLatch =
     \<lparr>ready = latch_ready, apply_op = (\<lambda>_. countDown), notifies = (\<lambda>_. countDown_notifies), broadcast = True,
      waiters = UNIV, enabled = (\<lambda>_ _ _. True), unlocked = (\<lambda>_ _ _. False)\<rparr>"

lemmas latch_defs = CountDownLatch_def latch_ready_def countDown_def countDown_notifies_def

interpretation latch: stable_monitor CountDownLatch "\<lambda>_. True"
  by unfold_locales (auto simp: latch_defs)

subsection \<open>The thread object\<close>

text \<open>What a \<open>Thread\<close> asks of the system is recorded in \<open>calls\<close>; \<open>pthread_create\<close> answers whether it
  succeeded. The function that the thread runs is part of \<open>runInThread\<close> below.\<close>

datatype pthread_call = PthreadCreate | PthreadJoin | PthreadDetach

record Thread =
  started :: bool
  joined :: bool
  thread_tid :: int
  name :: string
  calls :: "pthread_call list"

definition setDefaultName :: "32 word \<Rightarrow> Thread \<Rightarrow> Thread \<times> 32 word" where
  "setDefaultName numCreated th =
     (let (num, numCreated1) = incrementAndGet numCreated
      in (if name th = [] then th\<lparr>name := snprintf 32 (''Thread'' @ dec_int (sint num))\<rparr> else th, numCreated1))"

definition new_Thread :: "32 word \<Rightarrow> string \<Rightarrow> Thread \<times> 32 word" where
  "new_Thread numCreated n =
     setDefaultName numCreated \<lparr>started = False, joined = False, thread_tid = 0, name = n, calls = []\<rparr>"

text \<open>\<open>start\<close> up to \<open>latch_.wait()\<close>; the result says whether there is a thread to wait for. The rest
  of \<open>start\<close>, with the value of \<open>tid_\<close> that the new thread has stored, is \<open>start_end\<close>.\<close>

definition start_begin :: "bool \<Rightarrow> Thread \<Rightarrow> (Thread \<times> bool) res" where
  "start_begin created th =
     ensure (\<not> started th) ''!started_''
     (let th1 = th\<lparr>started := True\<rparr>
      in if \<not> created then Inr (th1\<lparr>started := False\<rparr>, False)
         else Inr (th1\<lparr>calls := calls th1 @ [PthreadCreate]\<rparr>, True))"

definition start_end :: "int \<Rightarrow> Thread \<Rightarrow> Thread res" where
  "start_end stored th =
     (let th1 = th\<lparr>thread_tid := stored\<rparr> in ensure (thread_tid th1 > 0) ''tid_ > 0'' (Inr th1))"

definition thread_start :: "bool \<Rightarrow> int \<Rightarrow> Thread \<Rightarrow> Thread res" where
  "thread_start created stored th =
     rbind (start_begin created th) (\<lambda>(th1, waits). if waits then start_end stored th1 else Inr th1)"

definition join :: "Thread \<Rightarrow> Thread res" where
  "join th =
     ensure (started th) ''started_''
     (ensure (\<not> joined th) ''!joined_''
      (let th1 = th\<lparr>joined := True\<rparr> in Inr (th1\<lparr>calls := calls th1 @ [PthreadJoin]\<rparr>)))"

definition delete_Thread :: "Thread \<Rightarrow> Thread" where
  "delete_Thread th =
     (if started th \<and> \<not> joined th then th\<lparr>calls := calls th @ [PthreadDetach]\<rparr> else th)"

text \<open>The calls a client makes on a thread, one after the other; the client stops at a failed
  assertion.\<close>

datatype thread_call = Start bool int | Join

fun thread_op :: "thread_call \<Rightarrow> Thread \<Rightarrow> Thread res" where
  "thread_op (Start created stored) th = thread_start created stored th"
| "thread_op Join th = join th"

fun thread_ops :: "thread_call list \<Rightarrow> Thread \<Rightarrow> Thread res" where
  "thread_ops [] th = Inr th"
| "thread_ops (x # xs) th = rbind (thread_op x th) (thread_ops xs)"

text \<open>The thread is as its calls say.\<close>

definition thread_ok :: "Thread \<Rightarrow> bool" where
  "thread_ok th \<longleftrightarrow>
     calls th = (if started th then if joined th then [PthreadCreate, PthreadJoin] else [PthreadCreate] else []) \<and>
     (joined th \<longrightarrow> started th) \<and> (started th \<longrightarrow> 0 < thread_tid th)"

lemmas thread_defs = thread_ok_def thread_start_def start_begin_def start_end_def join_def

lemma thread_ok_op: "thread_ok th \<Longrightarrow> thread_op x th = Inr th' \<Longrightarrow> thread_ok th'"
  by (cases x) (auto simp: thread_defs Let_def ensure_def rbind_def split: if_splits)

lemma thread_ok_ops: "thread_ok th \<Longrightarrow> thread_ops xs th = Inr th' \<Longrightarrow> thread_ok th'"
  by (induction xs arbitrary: th) (auto dest: thread_ok_op)

lemma thread_ok_new: "thread_ok (fst (new_Thread n nm))"
  by (simp add: thread_ok_def new_Thread_def setDefaultName_def split_beta Let_def)

text \<open>A thread is released exactly once if it was created, and never otherwise.\<close>

definition released :: "Thread \<Rightarrow> nat" where
  "released th = count_list (calls th) PthreadJoin + count_list (calls th) PthreadDetach"

definition created :: "Thread \<Rightarrow> nat" where
  "created th = count_list (calls th) PthreadCreate"

lemma thread_released:
  assumes "thread_ops xs (fst (new_Thread n nm)) = Inr th"
  shows "released (delete_Thread th) = created (delete_Thread th)" "created (delete_Thread th) \<le> 1"
  using thread_ok_ops [OF thread_ok_new assms]
  by (auto simp: thread_ok_def delete_Thread_def released_def created_def)

text \<open>The default name is the whole text: 32 characters hold every 32-bit number.\<close>

lemma length_dec_sint: "length (dec_int (sint (w :: 32 word))) \<le> 11"
proof -
  have "- (2 ^ 31) \<le> sint w" "sint w < 2 ^ 31"
    using sint_ge [of w] sint_lt [of w] by simp_all
  then have "length (dec_digits (nat (- sint w))) \<le> 10" "length (dec_digits (nat (sint w))) \<le> 10"
    by (intro length_dec_digits_le; simp add: nat_less_iff)+
  then show ?thesis by (simp add: dec_int_def)
qed

lemma default_name:
  "name (fst (new_Thread n [])) = ''Thread'' @ dec_int (sint (n + 1))"
  using length_dec_sint [of "n + 1"]
  by (simp add: new_Thread_def setDefaultName_def incrementAndGet_def addAndGet_new)

lemma default_name_inj: "name (fst (new_Thread m [])) = name (fst (new_Thread n [])) \<longleftrightarrow> m = n"
  by (auto simp: default_name dest: signed_word_eqI)

subsection \<open>The start of a thread\<close>

text \<open>The two threads of a \<open>start\<close>, from the moment at which \<open>pthread_create\<close> has succeeded: the parent
  in \<open>latch_.wait()\<close>, the child at the beginning of \<open>runInThread\<close>, which stores its id through the
  pointer \<open>tid_\<close>, without any lock, and then counts the latch down. \<open>child_pc\<close> is where the child
  is.\<close>

datatype child_pc = BeforeTid | BeforeCountDown | BeforeFunc

record start_state =
  stored_tid :: int
  latch_count :: int
  child_at :: child_pc

definition start_init :: start_state where
  "start_init = \<lparr>stored_tid = 0, latch_count = 1, child_at = BeforeTid\<rparr>"

definition Thread_start :: "nat \<Rightarrow> nat \<Rightarrow> (start_state, unit) mon_spec" where
  "Thread_start parent child =
     \<lparr>ready = (\<lambda>s. latch_ready (latch_count s)),
      apply_op = (\<lambda>_ s. s\<lparr>latch_count := countDown (latch_count s), child_at := BeforeFunc\<rparr>),
      notifies = (\<lambda>_ s. countDown_notifies (latch_count s)), broadcast = True, waiters = {parent},
      enabled = (\<lambda>t _ s. t = child \<and> child_at s = BeforeCountDown),
      unlocked = (\<lambda>t s s'. t = child \<and> child_at s = BeforeTid \<and>
        s' = s\<lparr>stored_tid := int child, child_at := BeforeCountDown\<rparr>)\<rparr>"

lemmas start_defs = Thread_start_def latch_ready_def countDown_def countDown_notifies_def

definition start_good :: "nat \<Rightarrow> start_state \<Rightarrow> bool" where
  "start_good child s \<longleftrightarrow>
     (case child_at s of
        BeforeTid \<Rightarrow> latch_count s = 1
      | BeforeCountDown \<Rightarrow> latch_count s = 1 \<and> stored_tid s = int child
      | BeforeFunc \<Rightarrow> latch_count s = 0 \<and> stored_tid s = int child)"

interpretation thread: stable_monitor "Thread_start parent child" "start_good child" for parent child
  by unfold_locales (auto simp: start_defs start_good_def split: child_pc.splits)

text \<open>From every world the child can get as far as the call of its function.\<close>

lemma child_signals:
  assumes i: "thread.inv parent child w" and c: "0 < child" and s: "child_at (shared w) = BeforeCountDown"
    and pc: "pcs w child \<in> {Outside, WantSignal (), InSignal ()}"
  shows "\<exists>w'. (mon_step (Thread_start parent child))\<^sup>*\<^sup>* w w' \<and> ready (Thread_start parent child) (shared w')"
    (is "\<exists>w'. ?steps w w' \<and> ?ready w'")
proof -
  let ?M = "Thread_start parent child"
  have inside: "\<exists>w'. ?steps v w' \<and> ?ready w'"
    if "thread.inv parent child v" "pcs v child = WantSignal () \<or> pcs v child = InSignal ()" for v
    using thread.op_completes [OF that] by (fastforce simp: start_defs start_good_def)
  show ?thesis
  proof (cases "pcs w child = Outside")
    case True
    then have "mon_step ?M w (w\<lparr>pcs := (pcs w)(child := WantSignal ())\<rparr>)"
      using s c by (intro mon_step.call_signal) (simp_all add: start_defs)
    then obtain v where v: "mon_step ?M w v" "pcs v child = WantSignal ()" by fastforce
    then show ?thesis using inside [OF thread.inv_step [OF v(1) i]] by (meson converse_rtranclp_into_rtranclp)
  next
    case False
    then show ?thesis using inside [OF i] pc by auto
  qed
qed

lemma child_counts_down:
  assumes i: "thread.inv parent child w" and c: "0 < child" "child \<noteq> parent"
  shows "\<exists>w'. (mon_step (Thread_start parent child))\<^sup>*\<^sup>* w w' \<and> ready (Thread_start parent child) (shared w')"
    (is "\<exists>w'. ?steps w w' \<and> ?ready w'")
proof (cases "child_at (shared w)")
  case BeforeTid
  have pc: "pcs w child = Outside"
    using thread.non_waiter [OF i, of child] c(2) BeforeTid by (simp add: Thread_start_def)
  then have "mon_step (Thread_start parent child) w
      (w\<lparr>shared := (shared w)\<lparr>stored_tid := int child, child_at := BeforeCountDown\<rparr>\<rparr>)"
    using BeforeTid by (intro mon_step.work [of _ child]) (simp_all add: Thread_start_def)
  then obtain v where v: "mon_step (Thread_start parent child) w v" "child_at (shared v) = BeforeCountDown"
      "pcs v child = Outside" using pc by fastforce
  then show ?thesis
    using child_signals [OF thread.inv_step [OF v(1) i] c(1) v(2)] by (auto intro: converse_rtranclp_into_rtranclp)
next
  case BeforeCountDown
  have "pcs w child \<in> {Outside, WantSignal (), InSignal ()}"
    using thread.non_waiter [OF i, of child] c(2) by (auto simp: Thread_start_def)
  then show ?thesis by (rule child_signals [OF i c(1) BeforeCountDown])
next
  case BeforeFunc
  then have "?ready w" using thread.inv_D(2) [OF i] by (simp add: start_defs start_good_def)
  then show ?thesis by blast
qed

text \<open>Once the latch is down, the parent returns, with the id of the child.\<close>

lemma parent_returns:
  assumes i: "thread.inv parent child w" and r: "ready (Thread_start parent child) (shared w)"
    and p: "0 < parent" "child \<noteq> parent"
  shows "\<exists>w' s. (mon_step (Thread_start parent child))\<^sup>*\<^sup>* w w' \<and> pcs w' parent = Returned s"
proof -
  let ?M = "Thread_start parent child"
  consider "pcs w parent = Outside" | "pcs w parent \<in> {WantWait, Checking, Sleeping, Woken}"
    | s where "pcs w parent = Returned s"
    using thread.non_signaller [OF i, of parent] p by (auto simp: Thread_start_def)
  then show ?thesis
  proof cases
    case 1
    then have "mon_step ?M w (w\<lparr>pcs := (pcs w)(parent := WantWait)\<rparr>)"
      using p by (intro mon_step.call_wait) (simp_all add: Thread_start_def)
    then obtain v where v: "mon_step ?M w v" "pcs v parent = WantWait" "shared v = shared w" by fastforce
    have "\<exists>w' s. (mon_step ?M)\<^sup>*\<^sup>* v w' \<and> pcs w' parent = Returned s"
      using thread.wait_returns [OF thread.inv_step [OF v(1) i]] v(2,3) r by simp
    then show ?thesis using v(1) by (meson converse_rtranclp_into_rtranclp)
  next
    case 2
    then show ?thesis using thread.wait_returns [OF i r] by blast
  next
    case 3
    then show ?thesis by blast
  qed
qed

lemma returned_tid:
  assumes "thread.inv parent child w" "pcs w parent = Returned s"
  shows "stored_tid s = int child"
  using thread.returned_good [OF assms] by (auto simp: start_good_def start_defs split: child_pc.splits)

lemma start_good_init: "start_good child start_init"
  by (simp add: start_good_def start_init_def)

subsection \<open>The thread of a loop\<close>

text \<open>\<open>EventLoopThread::startLoop\<close>, behind the start of the thread, and \<open>threadFunc\<close>: the loop is a
  local variable of \<open>threadFunc\<close>, at the address \<open>p\<close>; its pointer is stored under the mutex and
  cleared under the mutex when \<open>loop()\<close> has returned. \<open>startLoop\<close> is the only wait, so \<open>notify\<close> is
  enough.\<close>

datatype loop_pc = BeforeLoop | Looping | AfterLoop

datatype loop_op = SetLoop nat | ClearLoop

record loop_state =
  loop_ptr :: "nat option"
  loop_at :: loop_pc

definition loop_init :: loop_state where
  "loop_init = \<lparr>loop_ptr = None, loop_at = BeforeLoop\<rparr>"

fun threadFunc_op :: "loop_op \<Rightarrow> loop_state \<Rightarrow> loop_state" where
  "threadFunc_op (SetLoop p) s = s\<lparr>loop_ptr := Some p, loop_at := Looping\<rparr>"
| "threadFunc_op ClearLoop s = s\<lparr>loop_ptr := None, loop_at := AfterLoop\<rparr>"

fun threadFunc_enabled :: "loop_op \<Rightarrow> loop_pc \<Rightarrow> bool" where
  "threadFunc_enabled (SetLoop p) pc \<longleftrightarrow> pc = BeforeLoop"
| "threadFunc_enabled ClearLoop pc \<longleftrightarrow> pc = Looping"

fun threadFunc_notifies :: "loop_op \<Rightarrow> bool" where
  "threadFunc_notifies (SetLoop p) = True"
| "threadFunc_notifies ClearLoop = False"

definition EventLoopThread :: "nat \<Rightarrow> nat \<Rightarrow> (loop_state, loop_op) mon_spec" where
  "EventLoopThread parent child =
     \<lparr>ready = (\<lambda>s. loop_ptr s \<noteq> None), apply_op = threadFunc_op, notifies = (\<lambda>op _. threadFunc_notifies op),
      broadcast = False, waiters = {parent}, enabled = (\<lambda>t op s. t = child \<and> threadFunc_enabled op (loop_at s)),
      unlocked = (\<lambda>_ _ _. False)\<rparr>"

definition loop_good :: "loop_state \<Rightarrow> bool" where
  "loop_good s \<longleftrightarrow> (loop_ptr s \<noteq> None \<longleftrightarrow> loop_at s = Looping)"

lemma threadFunc_ready: "loop_ptr (threadFunc_op op s) = Some p \<Longrightarrow> threadFunc_notifies op"
  by (cases op) auto

lemma threadFunc_good: "loop_good (threadFunc_op op s)"
  by (cases op) (auto simp: loop_good_def)

interpretation loop_thread: monitor "EventLoopThread parent child" loop_good for parent child
  by unfold_locales (auto simp: EventLoopThread_def dest: threadFunc_ready intro: threadFunc_good)

text \<open>The destructor, with the value of \<open>loop_\<close> that it reads without the mutex: it asks a running
  loop to quit and joins its thread. The result says whether it did.\<close>

definition delete_EventLoopThread :: "nat option \<Rightarrow> Thread \<Rightarrow> (bool \<times> Thread) res" where
  "delete_EventLoopThread loop_seen th =
     (case loop_seen of
        Some p \<Rightarrow> rbind (join th) (\<lambda>th1. Inr (True, delete_Thread th1))
      | None \<Rightarrow> Inr (False, delete_Thread th))"

text \<open>When the loop has come to its end before the parent looked, the parent sleeps and nobody will
  wake it for good.\<close>

definition missed :: "nat \<Rightarrow> (loop_state, loop_op) mon_world \<Rightarrow> bool" where
  "missed parent w \<longleftrightarrow> loop_at (shared w) = AfterLoop \<and> loop_ptr (shared w) = None \<and>
     (\<forall>r. pcs w parent \<noteq> Returned r) \<and> (\<forall>t op. pcs w t \<noteq> WantSignal op \<and> pcs w t \<noteq> InSignal op)"

lemma missed_step:
  assumes "mon_step (EventLoopThread parent child) w w'" "missed parent w"
  shows "missed parent w'"
  using assms
proof (cases rule: mon_step.cases)
  case (call_signal t op)
  then show ?thesis using assms(2) by (cases op) (auto simp: EventLoopThread_def missed_def)
qed (auto simp: EventLoopThread_def missed_def)

lemma missed_steps:
  assumes "(mon_step (EventLoopThread parent child))\<^sup>*\<^sup>* w w'" "missed parent w"
  shows "missed parent w'"
  using assms by (induction rule: rtranclp_induct) (auto intro: missed_step)

lemma missed_reach:
  assumes "0 < child"
  shows "mon_reach (EventLoopThread parent child) loop_init (new_mon \<lparr>loop_ptr = None, loop_at = AfterLoop\<rparr>)"
proof -
  let ?M = "EventLoopThread parent child"
  have "mon_reach ?M loop_init (new_mon (threadFunc_op (SetLoop 1) loop_init))"
    using run_alone [OF assms, of ?M "SetLoop 1" loop_init] by (simp add: EventLoopThread_def loop_init_def)
  moreover have "mon_reach ?M (threadFunc_op (SetLoop 1) loop_init) (new_mon \<lparr>loop_ptr = None, loop_at = AfterLoop\<rparr>)"
    using run_alone [OF assms, of ?M ClearLoop "threadFunc_op (SetLoop 1) loop_init"]
    by (simp add: EventLoopThread_def loop_init_def)
  ultimately show ?thesis by (rule rtranclp_trans)
qed

lemma startLoop_may_hang:
  assumes "0 < child"
  shows "\<exists>w. mon_reach (EventLoopThread parent child) loop_init w \<and>
    (\<forall>w'. (mon_step (EventLoopThread parent child))\<^sup>*\<^sup>* w w' \<longrightarrow> (\<forall>r. pcs w' parent \<noteq> Returned r))"
proof (intro exI conjI)
  show "mon_reach (EventLoopThread parent child) loop_init (new_mon \<lparr>loop_ptr = None, loop_at = AfterLoop\<rparr>)"
    by (rule missed_reach [OF assms])
  have "missed parent (new_mon \<lparr>loop_ptr = None, loop_at = AfterLoop\<rparr>)" by (simp add: missed_def new_mon_def)
  then show "\<forall>w'. (mon_step (EventLoopThread parent child))\<^sup>*\<^sup>* (new_mon \<lparr>loop_ptr = None, loop_at = AfterLoop\<rparr>) w' \<longrightarrow>
      (\<forall>r. pcs w' parent \<noteq> Returned r)"
    using missed_steps by (fastforce simp: missed_def)
qed

subsection \<open>The current thread\<close>

text \<open>The thread-local variables of \<open>CurrentThread\<close>; \<open>gettid()\<close> is the argument.\<close>

record CurrentThread =
  cachedTid :: int
  tidString :: string
  tidStringLength :: int
  threadName :: string

definition new_CurrentThread :: CurrentThread where
  "new_CurrentThread = \<lparr>cachedTid = 0, tidString = [], tidStringLength = 6, threadName = ''unknown''\<rparr>"

definition cacheTid :: "int \<Rightarrow> CurrentThread \<Rightarrow> CurrentThread" where
  "cacheTid gettid c =
     (if cachedTid c = 0
      then c\<lparr>cachedTid := gettid, tidString := snprintf 32 (dec_blank 5 gettid),
             tidStringLength := int (length (dec_blank 5 gettid))\<rparr>
      else c)"

definition tid :: "int \<Rightarrow> CurrentThread \<Rightarrow> int \<times> CurrentThread" where
  "tid gettid c = (let c1 = if cachedTid c = 0 then cacheTid gettid c else c in (cachedTid c1, c1))"

text \<open>\<open>/\<close> and \<open>%\<close> of C round towards zero.\<close>

definition sleepUsec :: "int \<Rightarrow> int \<times> int" where
  "sleepUsec usec = (usec sdiv 1000000, usec smod 1000000 * 1000)"

text \<open>The first call asks the system, every later one answers from the cache, and the printed id has
  the length that is stored with it.\<close>

lemma tid_cached:
  assumes "cachedTid c = 0" "0 < t" "t < 2 ^ 31" "tid t c = (r, c1)"
  shows "r = t" "tid u c1 = (t, c1)" "tidStringLength c1 = int (length (tidString c1))"
proof -
  have c1: "r = t" "c1 = cacheTid t c" "cachedTid c1 = t" using assms by (auto simp: tid_def cacheTid_def)
  then show "r = t" "tid u c1 = (t, c1)" using assms(2) by (auto simp: tid_def)
  have "length (dec_digits (nat t)) \<le> 10"
    using assms(2,3) by (intro length_dec_digits_le) (simp_all add: nat_less_iff)
  then show "tidStringLength c1 = int (length (tidString c1))"
    using c1(2) assms(1,2) by (simp add: cacheTid_def dec_blank_def dec_int_def)
qed

lemma sleepUsec_exact:
  assumes "0 \<le> usec" "sleepUsec usec = (s, ns)"
  shows "s * 1000000000 + ns = usec * 1000" "0 \<le> ns" "ns < 1000000000"
proof -
  have e: "s = usec div 1000000" "ns = usec mod 1000000 * 1000"
    using assms by (cases "usec = 0"; auto simp: sleepUsec_def signed_divide_int_def signed_modulo_int_def)+
  show "0 \<le> ns" "ns < 1000000000" using pos_mod_bound [of 1000000 usec] by (simp_all add: e)
  have "usec = usec div 1000000 * 1000000 + usec mod 1000000" by (rule div_mult_mod_eq [symmetric])
  then show "s * 1000000000 + ns = usec * 1000" unfolding e by linarith
qed

text \<open>\<open>stackTrace\<close>: \<open>strings\<close> is what \<open>backtrace_symbols\<close> returned, \<open>None\<close> for the null pointer;
  \<open>demangler\<close> is \<open>__cxa_demangle\<close>, which gets the text between the last \<open>(\<close> and the last \<open>+\<close> of a
  line, or up to the end of the line when the \<open>+\<close> stands before. The first line is the call of
  \<open>stackTrace\<close> itself.\<close>

definition stack_line :: "(string \<Rightarrow> string option) \<Rightarrow> bool \<Rightarrow> string \<Rightarrow> string" where
  "stack_line demangler demangle line =
     (case (str_rfind line (CHR ''(''), str_rfind line (CHR ''+'')) of
        (Some left_par, Some pl) \<Rightarrow>
          if demangle
          then let mangled = (if left_par < pl then subrange line (left_par + 1) pl else drop (left_par + 1) line)
               in case demangler mangled of
                    Some demangled \<Rightarrow> take (left_par + 1) line @ demangled @ drop pl line @ [CHR 0x0A]
                  | None \<Rightarrow> line @ [CHR 0x0A]
          else line @ [CHR 0x0A]
      | _ \<Rightarrow> line @ [CHR 0x0A])"

definition stackTrace :: "(string \<Rightarrow> string option) \<Rightarrow> bool \<Rightarrow> string list option \<Rightarrow> string" where
  "stackTrace demangler demangle strings =
     (case strings of Some ss \<Rightarrow> concat (map (stack_line demangler demangle) (drop 1 ss)) | None \<Rightarrow> [])"

lemma stackTrace_plain:
  "stackTrace demangler False (Some (s # ss)) = concat (map (\<lambda>line. line @ [CHR 0x0A]) ss)"
proof -
  have "stack_line demangler False = (\<lambda>line. line @ [CHR 0x0A])"
    by (intro ext) (simp add: stack_line_def split: option.split)
  then show ?thesis by (simp add: stackTrace_def)
qed

lemma stack_line_demangled:
  assumes "set mangled \<inter> {CHR ''('', CHR ''+''} = {}" "set off \<inter> {CHR ''('', CHR ''+''} = {}" "demangler mangled = Some d"
  shows "stack_line demangler True (file @ ''('' @ mangled @ ''+'' @ off) = file @ ''('' @ d @ ''+'' @ off @ [CHR 0x0A]"
proof -
  let ?l = "file @ CHR ''('' # mangled @ CHR ''+'' # off"
  have "str_rfind ?l (CHR ''('') = Some (length file)"
    using assms(1,2) by (intro str_rfind_last) auto
  moreover have "str_rfind ?l (CHR ''+'') = Some (length file + 1 + length mangled)"
    using str_rfind_last [of "CHR ''+''" off "file @ CHR ''('' # mangled"] assms(2) by simp
  moreover have "subrange ?l (length file + 1) (length file + 1 + length mangled) = mangled"
    by (simp add: subrange_def)
  ultimately show ?thesis using assms(3) by (simp add: stack_line_def)
qed

subsection \<open>Exceptions and the end of a thread\<close>

text \<open>\<open>Exception\<close> (src/src/Exception.h, Exception.cpp) keeps its message and the stack at the point of its
  construction; both are handed out as C strings.\<close>

record Exception =
  message :: string
  stack :: string

definition new_Exception :: "(string \<Rightarrow> string option) \<Rightarrow> string list option \<Rightarrow> string \<Rightarrow> Exception" where
  "new_Exception demangler strings msg = \<lparr>message = msg, stack = stackTrace demangler False strings\<rparr>"

definition what :: "Exception \<Rightarrow> string" where
  "what ex = c_str (message ex)"

definition exception_stackTrace :: "Exception \<Rightarrow> string" where
  "exception_stackTrace ex = c_str (stack ex)"

text \<open>The end of \<open>runInThread\<close>: what the function of the thread does decides the name that the
  thread ends with, what it prints and how it ends.\<close>

datatype func_result = Returns | ThrowsException Exception | ThrowsStdException string | ThrowsOther

datatype thread_end = Ended | Aborted | Rethrown

definition thread_name_in :: "string \<Rightarrow> string" where
  "thread_name_in nm = (if nm = [] then ''Thread'' else nm)"

fun run_func :: "string \<Rightarrow> func_result \<Rightarrow> string \<times> string list \<times> thread_end" where
  "run_func nm Returns = (''finished'', [], Ended)"
| "run_func nm (ThrowsException ex) =
     (''crashed'',
      [''exception caught in Thread '' @ c_str nm @ [CHR 0x0A], ''reason: '' @ what ex @ [CHR 0x0A],
       ''stack trace: '' @ exception_stackTrace ex @ [CHR 0x0A]], Aborted)"
| "run_func nm (ThrowsStdException reason) =
     (''crashed'', [''exception caught in Thread '' @ c_str nm @ [CHR 0x0A], ''reason: '' @ reason @ [CHR 0x0A]], Aborted)"
| "run_func nm ThrowsOther = (''crashed'', [''unknown exception caught in Thread '' @ c_str nm @ [CHR 0x0A]], Rethrown)"

text \<open>An exception of the library that ends a thread is reported with its own message and, line by line,
  the frames above its construction.\<close>

lemma crash_report:
  assumes "CHR 0x00 \<notin> set msg" "\<forall>f \<in> set frames. CHR 0x00 \<notin> set f"
  shows "fst (snd (run_func nm (ThrowsException (new_Exception demangler (Some (f0 # frames)) msg)))) =
    [''exception caught in Thread '' @ c_str nm @ [CHR 0x0A], ''reason: '' @ msg @ [CHR 0x0A],
     ''stack trace: '' @ concat (map (\<lambda>f. f @ [CHR 0x0A]) frames) @ [CHR 0x0A]]"
proof -
  have c: "c_str s = s" if "CHR 0x00 \<notin> set s" for s
    unfolding c_str_def using that by (intro takeWhile_eq_all_conv [THEN iffD2]) auto
  have "CHR 0x00 \<notin> set (concat (map (\<lambda>f. f @ [CHR 0x0A]) frames))" using assms(2) by auto
  from c [OF this] c [OF assms(1)] show ?thesis
    by (simp add: new_Exception_def what_def exception_stackTrace_def stackTrace_plain)
qed

subsection \<open>What the threads promise\<close>

text \<open>C28: In every interleaving of threads that wait on a latch and count it down, at most one thread is
  inside, \<open>wait()\<close> returns only when the count is no longer positive, and once it is, no thread
  sleeps and every thread that waits can return.\<close>

theorem latch_correct:
  assumes "mon_reach CountDownLatch n w"
  shows "mutual_exclusion w \<and> (\<forall>t c. pcs w t = Returned c \<longrightarrow> c \<le> 0) \<and>
    (shared w \<le> 0 \<longrightarrow> sleepers w = {} \<and>
      (\<forall>t. pcs w t \<in> {WantWait, Checking, Woken} \<longrightarrow>
        (\<exists>w' c. (mon_step CountDownLatch)\<^sup>*\<^sup>* w w' \<and> pcs w' t = Returned c)))"
proof (intro conjI allI impI)
  note r = latch.monitor_correct [OF assms TrueI]
  show "mutual_exclusion w" by (rule r)
  show "c \<le> 0" if "pcs w t = Returned c" for t c using r(2) [OF that] by (simp add: latch_defs)
  have ready: "ready CountDownLatch (shared w)" if "shared w \<le> 0" using that by (simp add: latch_defs)
  show "sleepers w = {}" if "shared w \<le> 0" using r(3) [OF ready [OF that]] by (simp add: sleepers_def)
  show "\<exists>w' c. (mon_step CountDownLatch)\<^sup>*\<^sup>* w w' \<and> pcs w' t = Returned c"
    if "shared w \<le> 0" "pcs w t \<in> {WantWait, Checking, Woken}" for t
    using latch.wait_returns [OF latch.inv_reach [OF assms TrueI] ready [OF that(1)]] that(2) by auto
qed

theorem latch_correct_witness:
  "mutual_exclusion (new_mon 0 :: (int, unit) mon_world) \<and> sleepers (new_mon 0 :: (int, unit) mon_world) = {}"
proof -
  have "mon_reach CountDownLatch 1 (new_mon 0)"
    using run_alone [of 5 CountDownLatch "()" 1] by (simp add: latch_defs)
  from latch_correct [OF this] show ?thesis by (simp add: new_mon_def)
qed

text \<open>C27: However the new thread and its parent interleave, \<open>Thread::start\<close> can always return, and when
  it does, the new thread has stored its id, so that the assertion behind the wait holds.\<close>

theorem thread_start_returns:
  assumes "0 < parent" "0 < child" "child \<noteq> parent" "mon_reach (Thread_start parent child) start_init w"
  shows "(\<exists>w' s. (mon_step (Thread_start parent child))\<^sup>*\<^sup>* w w' \<and> pcs w' parent = Returned s) \<and>
    (\<forall>s th. pcs w parent = Returned s \<longrightarrow> start_end (stored_tid s) th = Inr (th\<lparr>thread_tid := int child\<rparr>))"
proof (intro conjI allI impI)
  have i: "thread.inv parent child w" by (rule thread.inv_reach [OF assms(4) start_good_init])
  obtain v where v: "(mon_step (Thread_start parent child))\<^sup>*\<^sup>* w v" "ready (Thread_start parent child) (shared v)"
    using child_counts_down [OF i assms(2,3)] by blast
  show "\<exists>w' s. (mon_step (Thread_start parent child))\<^sup>*\<^sup>* w w' \<and> pcs w' parent = Returned s"
    using parent_returns [OF thread.inv_steps [OF v(1) i] v(2) assms(1,3)] v(1) by (meson rtranclp_trans)
  show "start_end (stored_tid s) th = Inr (th\<lparr>thread_tid := int child\<rparr>)" if "pcs w parent = Returned s" for s th
    using returned_tid [OF i that] assms(2) by (simp add: start_end_def)
qed

theorem thread_start_returns_witness:
  "\<exists>w' s. (mon_step (Thread_start 1 2))\<^sup>*\<^sup>* (new_mon start_init) w' \<and> pcs w' 1 = Returned s"
  using thread_start_returns [of 1 2 "new_mon start_init"] by simp



end
