(* ===== verification/FileUtil.thy ===== *)
theory FileUtil
  imports Prelude "HOL-Library.Sublist"
begin

section \<open>Files (src/src/FileUtil.h, src/src/FileUtil.cpp)\<close>

text \<open>
  The two file classes: \<open>AppendFile\<close>, which writes a log line in as many calls as it takes, and
  \<open>ReadSmallFile\<close>, which reads a file up to a limit. The system calls are arguments that take
  the state of the system and return it changed: \<open>fwrite\<close> answers the number of bytes that it
  took, \<open>read\<close> the bytes it delivered or the value of \<open>errno\<close>.
\<close>

subsection \<open>Appending\<close>

record AppendFile =
  written :: "byte list"
  writtenBytes :: nat

text \<open>\<open>write\<close> is \<open>fwrite_unlocked\<close>; the bytes that it took are recorded in \<open>written\<close>. It never takes
  more than it is given.\<close>

definition file_write :: "(byte list \<Rightarrow> 'os \<Rightarrow> nat \<times> 'os) \<Rightarrow> byte list \<Rightarrow> 'os \<Rightarrow> AppendFile \<Rightarrow> nat \<times> 'os \<times> AppendFile" where
  "file_write fwrite xs os f =
     (let (x, os1) = fwrite xs os in (x, os1, f\<lparr>written := written f @ take x xs\<rparr>))"

text \<open>The loop that writes the rest; \<open>xs\<close> is the part of the line behind \<open>n\<close>.\<close>

function append_rest ::
  "(byte list \<Rightarrow> 'os \<Rightarrow> nat \<times> 'os) \<Rightarrow> byte list \<Rightarrow> 'os \<Rightarrow> AppendFile \<Rightarrow> 'os \<times> AppendFile" where
  "append_rest fwrite xs os f =
     (if length xs > 0
      then let (x, os1, f1) = file_write fwrite xs os f
           in if x = 0 then (os1, f1) else append_rest fwrite (drop x xs) os1 f1
      else (os, f))"
  by pat_completeness auto
termination by (relation "measure (\<lambda>(_, xs, _, _). length xs)") auto

declare append_rest.simps [simp del]

definition file_append :: "(byte list \<Rightarrow> 'os \<Rightarrow> nat \<times> 'os) \<Rightarrow> byte list \<Rightarrow> 'os \<Rightarrow> AppendFile \<Rightarrow> 'os \<times> AppendFile" where
  "file_append fwrite logline os f =
     (let (n, os1, f1) = file_write fwrite logline os f;
          (os2, f2) = append_rest fwrite (drop n logline) os1 f1
      in (os2, f2\<lparr>writtenBytes := writtenBytes f2 + length logline\<rparr>))"

text \<open>The stream takes something of every text that is not empty.\<close>

definition takes_some :: "(byte list \<Rightarrow> 'os \<Rightarrow> nat \<times> 'os) \<Rightarrow> bool" where
  "takes_some fwrite \<longleftrightarrow> (\<forall>xs os. xs \<noteq> [] \<longrightarrow> 0 < fst (fwrite xs os))"

text \<open>What ends up in the file is always a prefix of the line, and the whole of it unless a call took
  nothing.\<close>

lemma append_rest_prefix:
  assumes "append_rest fwrite xs os f = (os', f')"
  shows "\<exists>k. written f' = written f @ take k xs \<and> writtenBytes f' = writtenBytes f \<and>
    (takes_some fwrite \<longrightarrow> length xs \<le> k)"
  using assms
proof (induction fwrite xs os f arbitrary: os' f' rule: append_rest.induct)
  case (1 fwrite xs os f)
  show ?case
  proof (cases "xs = []")
    case True
    then show ?thesis using 1(2) by (simp add: append_rest.simps [of _ "[]"])
  next
    case False
    obtain x os1 where x: "fwrite xs os = (x, os1)" by fastforce
    define f1 where "f1 = f\<lparr>written := written f @ take x xs\<rparr>"
    have w: "file_write fwrite xs os f = (x, os1, f1)" by (simp add: file_write_def x f1_def)
    have some: "x \<noteq> 0" if "takes_some fwrite" using that False x unfolding takes_some_def by (metis fst_conv neq0_conv)
    show ?thesis
    proof (cases "x = 0")
      case True
      then have "f' = f1" using 1(2) False w by (simp add: append_rest.simps [of _ xs])
      then show ?thesis using True some by (auto simp: f1_def intro: exI [of _ 0])
    next
      case nz: False
      then have "append_rest fwrite (drop x xs) os1 f1 = (os', f')"
        using 1(2) False w by (simp add: append_rest.simps [of _ xs])
      from 1(1) [OF _ w [symmetric] refl refl nz this] False
      obtain k where k: "written f' = written f1 @ take k (drop x xs)" "writtenBytes f' = writtenBytes f1"
        "takes_some fwrite \<longrightarrow> length (drop x xs) \<le> k" by auto
      then show ?thesis by (intro exI [of _ "x + k"]) (auto simp: f1_def take_add)
    qed
  qed
qed

text \<open>\<open>writtenBytes_\<close> counts the whole line in either case.\<close>

lemma file_append_prefix:
  assumes "file_append fwrite xs os f = (os', f')"
  shows "\<exists>k. written f' = written f @ take k xs \<and> (takes_some fwrite \<longrightarrow> length xs \<le> k)"
    "writtenBytes f' = writtenBytes f + length xs"
proof -
  obtain x os1 where x: "fwrite xs os = (x, os1)" by fastforce
  obtain os2 f2 where r: "append_rest fwrite (drop x xs) os1 (f\<lparr>written := written f @ take x xs\<rparr>) = (os2, f2)"
    by fastforce
  then have f': "f' = f2\<lparr>writtenBytes := writtenBytes f2 + length xs\<rparr>"
    using assms by (auto simp: file_append_def file_write_def x)
  obtain k where k: "written f2 = (written f @ take x xs) @ take k (drop x xs)" "writtenBytes f2 = writtenBytes f"
    "takes_some fwrite \<longrightarrow> length (drop x xs) \<le> k"
    using append_rest_prefix [OF r] by auto
  then show "writtenBytes f' = writtenBytes f + length xs" using f' by simp
  show "\<exists>k. written f' = written f @ take k xs \<and> (takes_some fwrite \<longrightarrow> length xs \<le> k)"
    using f' k by (intro exI [of _ "x + k"]) (auto simp: take_add)
qed

subsection \<open>Reading a small file\<close>

definition kBufferSize :: nat where
  "kBufferSize = 64 * 1024"

record ReadSmallFile =
  file_fd :: int
  file_err :: int
  file_buf :: "byte list"

text \<open>\<open>opened\<close> is the answer of \<open>open\<close>: a descriptor or the value of \<open>errno\<close>. The bytes of \<open>buf_\<close>
  behind the first are left as the constructor finds them, \<open>garbage\<close>.\<close>

definition new_ReadSmallFile :: "int + int \<Rightarrow> byte list \<Rightarrow> ReadSmallFile" where
  "new_ReadSmallFile opened garbage =
     (let buf = CHR 0x00 # drop 1 garbage
      in case opened of
           Inr fd \<Rightarrow> \<lparr>file_fd = fd, file_err = 0, file_buf = buf\<rparr>
         | Inl err \<Rightarrow> \<lparr>file_fd = - 1, file_err = err, file_buf = buf\<rparr>)"

text \<open>The descriptor that the destructor closes.\<close>

definition delete_ReadSmallFile :: "ReadSmallFile \<Rightarrow> int option" where
  "delete_ReadSmallFile f = (if 0 \<le> file_fd f then Some (file_fd f) else None)"

text \<open>The cast of \<open>maxSize\<close> to \<open>size_t\<close>.\<close>

definition size_of_int :: "int \<Rightarrow> nat" where
  "size_of_int i = nat (i mod 2 ^ 64)"

text \<open>The loop; the result has the error, the content and the state of the system. \<open>buf_\<close> is only
  passed through.\<close>

function read_loop ::
  "(nat \<Rightarrow> 'os \<Rightarrow> (int + byte list) \<times> 'os) \<Rightarrow> nat \<Rightarrow> int \<Rightarrow> byte list \<Rightarrow> 'os \<Rightarrow> int \<times> byte list \<times> 'os" where
  "read_loop rd maxSize err content os =
     (if length content < maxSize
      then let toRead = min (maxSize - length content) kBufferSize
           in case rd toRead os of
                (Inr bs, os1) \<Rightarrow> if bs \<noteq> [] then read_loop rd maxSize err (content @ bs) os1 else (err, content, os1)
              | (Inl e, os1) \<Rightarrow> (e, content, os1)
      else (err, content, os))"
  by pat_completeness auto
termination
proof (relation "measure (\<lambda>(_, maxSize, _, content, _). maxSize - length content)", goal_cases)
  case (2 rd maxSize err content os toRead x1 os1 bs)
  then show ?case by (cases bs) auto
qed simp

declare read_loop.simps [simp del]

text \<open>What \<open>fstat\<close> fills in; when it fails the record holds what it held before.\<close>

record stat =
  st_size :: int
  st_mtime :: int
  st_ctime :: int
  st_isdir :: bool

text \<open>The results of \<open>readToString\<close>: the error and the three optional outputs, \<open>None\<close> where nothing is
  written.\<close>

record read_result =
  rr_err :: int
  rr_size :: "int option"
  rr_mtime :: "int option"
  rr_ctime :: "int option"

text \<open>The part of \<open>readToString\<close> before the loop. \<open>errno\<close> is its value at the time of the call: where
  no \<open>fileSize\<close> is asked for, it becomes the error.\<close>

definition read_stat :: "int \<Rightarrow> int \<Rightarrow> bool \<Rightarrow> stat \<Rightarrow> bool \<Rightarrow> bool \<Rightarrow> bool \<Rightarrow> int \<Rightarrow> read_result" where
  "read_stat EISDIR errno fstat_ok statbuf wantSize wantModify wantCreate err =
     (if wantSize
      then \<lparr>rr_err = (if fstat_ok then err else if st_isdir statbuf then EISDIR else err),
            rr_size = (if fstat_ok then Some (st_size statbuf) else None),
            rr_mtime = (if wantModify then Some (st_mtime statbuf) else None),
            rr_ctime = (if wantCreate then Some (st_ctime statbuf) else None)\<rparr>
      else \<lparr>rr_err = errno, rr_size = None, rr_mtime = None, rr_ctime = None\<rparr>)"

definition readToString ::
  "(nat \<Rightarrow> 'os \<Rightarrow> (int + byte list) \<times> 'os) \<Rightarrow> int \<Rightarrow> int \<Rightarrow> bool \<Rightarrow> stat \<Rightarrow> int \<Rightarrow> bool \<Rightarrow> bool \<Rightarrow> bool \<Rightarrow>
   ReadSmallFile \<Rightarrow> byte list \<Rightarrow> 'os \<Rightarrow> read_result \<times> byte list \<times> 'os" where
  "readToString rd EISDIR errno fstat_ok statbuf maxSize wantSize wantModify wantCreate f content os =
     (let err = file_err f
      in if 0 \<le> file_fd f
         then let r = read_stat EISDIR errno fstat_ok statbuf wantSize wantModify wantCreate err;
                  (err2, content2, os2) = read_loop rd (size_of_int maxSize) (rr_err r) [] os
              in (r\<lparr>rr_err := err2\<rparr>, content2, os2)
         else (\<lparr>rr_err = err, rr_size = None, rr_mtime = None, rr_ctime = None\<rparr>, content, os))"

text \<open>\<open>readFile\<close> with its default arguments, which ask for none of the three outputs.\<close>

definition readFile ::
  "(nat \<Rightarrow> 'os \<Rightarrow> (int + byte list) \<times> 'os) \<Rightarrow> int \<Rightarrow> int + int \<Rightarrow> int \<Rightarrow> byte list \<Rightarrow> 'os \<Rightarrow> int \<times> byte list \<times> 'os" where
  "readFile rd errno opened maxSize content os =
     (let f = new_ReadSmallFile opened (replicate kBufferSize (CHR 0x00));
          (r, content1, os1) =
            readToString rd 0 errno False \<lparr>st_size = 0, st_mtime = 0, st_ctime = 0, st_isdir = False\<rparr> maxSize False False False f content os
      in (rr_err r, content1, os1))"

text \<open>\<open>readToBuffer\<close> with the answer of \<open>pread\<close>, which delivers at most \<open>sizeof(buf_) - 1\<close> bytes.\<close>

definition readToBuffer :: "int + byte list \<Rightarrow> ReadSmallFile \<Rightarrow> (int \<times> int option) \<times> ReadSmallFile" where
  "readToBuffer pread f =
     (if 0 \<le> file_fd f
      then case pread of
             Inr bs \<Rightarrow> ((file_err f, Some (int (length bs))), f\<lparr>file_buf := write_at (file_buf f) 0 (bs @ [CHR 0x00])\<rparr>)
           | Inl e \<Rightarrow> ((e, None), f)
      else ((file_err f, None), f))"

text \<open>\<open>read\<close> on a regular file with the bytes \<open>file\<close>, whose state is the position: it delivers what it
  likes of the bytes asked for, and nothing only at the end.\<close>

definition reads_file :: "byte list \<Rightarrow> (nat \<Rightarrow> nat \<Rightarrow> (int + byte list) \<times> nat) \<Rightarrow> bool" where
  "reads_file file rd \<longleftrightarrow>
     (\<forall>k pos. 0 < k \<and> pos \<le> length file \<longrightarrow>
        (\<exists>n. n \<le> k \<and> n \<le> length file - pos \<and> (n = 0 \<longrightarrow> pos = length file) \<and>
             rd k pos = (Inr (take n (drop pos file)), pos + n)))"

text \<open>A \<open>read\<close> that delivers at most \<open>c\<close> bytes at a time is one.\<close>

definition chunk_reader :: "byte list \<Rightarrow> nat \<Rightarrow> nat \<Rightarrow> nat \<Rightarrow> (int + byte list) \<times> nat" where
  "chunk_reader file c k pos = (let n = min (min k c) (length file - pos) in (Inr (take n (drop pos file)), pos + n))"

lemma reads_file_chunks: "0 < c \<Longrightarrow> reads_file file (chunk_reader file c)"
  unfolding reads_file_def chunk_reader_def Let_def
proof (intro allI impI)
  fix k pos :: nat assume "0 < c" "0 < k \<and> pos \<le> length file"
  then show "\<exists>n\<le>k. n \<le> length file - pos \<and> (n = 0 \<longrightarrow> pos = length file) \<and>
      (Inr (take (min (min k c) (length file - pos)) (drop pos file)), pos + min (min k c) (length file - pos)) =
      (Inr (take n (drop pos file)), pos + n)"
    by (intro exI [of _ "min (min k c) (length file - pos)"]) auto
qed

lemma read_loop_exact:
  assumes "reads_file file rd" "content = take pos file" "pos \<le> length file" "pos \<le> maxSize"
  shows "read_loop rd maxSize err content pos = (err, take maxSize file, min maxSize (length file))"
  using assms
proof (induction rd maxSize err content pos rule: read_loop.induct)
  case (1 rd maxSize err content pos)
  have len: "length content = pos" using 1(3,4) by simp
  show ?case
  proof (cases "pos < maxSize")
    case True
    let ?k = "min (maxSize - pos) kBufferSize"
    have "0 < ?k" using True by (simp add: kBufferSize_def)
    then obtain n where n: "n \<le> ?k" "n \<le> length file - pos" "n = 0 \<longrightarrow> pos = length file"
        "rd ?k pos = (Inr (take n (drop pos file)), pos + n)"
      using 1(2,4) unfolding reads_file_def by blast
    show ?thesis
    proof (cases "n = 0")
      case True
      then have "read_loop rd maxSize err content pos = (err, content, pos)"
        using n len \<open>pos < maxSize\<close> by (subst read_loop.simps) simp
      then show ?thesis using True n(3) 1(3) \<open>pos < maxSize\<close> by simp
    next
      case False
      then have ne: "take n (drop pos file) \<noteq> []" using n(2) by auto
      have eq: "(Inr (take n (drop pos file)), pos + n) = rd (min (maxSize - length content) kBufferSize) pos"
        unfolding len by (rule n(4) [symmetric])
      have "read_loop rd maxSize err content pos = read_loop rd maxSize err (content @ take n (drop pos file)) (pos + n)"
        using n(4) len ne \<open>pos < maxSize\<close> by (simp add: read_loop.simps [of rd maxSize err content pos])
      also have "\<dots> = (err, take maxSize file, min maxSize (length file))"
      proof (rule 1(1) [OF _ refl eq refl ne])
        show "content @ take n (drop pos file) = take (pos + n) file" using 1(3) by (simp add: take_add)
        show "pos + n \<le> length file" "pos + n \<le> maxSize" using n(1,2) 1(4) \<open>pos < maxSize\<close> by auto
      qed (use len \<open>pos < maxSize\<close> 1(2) in simp_all)
      finally show ?thesis .
    qed
  next
    case False
    then have "pos = maxSize" using 1(5) by simp
    moreover from this have "read_loop rd maxSize err content pos = (err, content, pos)"
      using len by (subst read_loop.simps) simp
    ultimately show ?thesis using 1(3,4) by simp
  qed
qed



end
