(* ===== verification/Reactor.thy ===== *)
theory Reactor
  imports EPollPoller PollPoller EventLoop
begin

section \<open>A round of the reactor\<close>

text \<open>
  The composition of the epoll poller, the channels and the loop: what the kernel reports is handed
  to the callbacks of the right channels. The kernel's part is its documented contract: it reports
  descriptors of its interest list, each once, and of each only events that were asked for, errors
  and hang-ups.
\<close>

subsection \<open>The loop over the active channels\<close>

text \<open>The inner loop of \<open>EventLoop::loop\<close>: every active channel in turn handles its event. \<open>run\<close> is what
  the callbacks do to their channel and to the world around it, \<open>alive\<close> says whose tied owner
  still exists.\<close>

fun handle_active ::
  "('cb fired \<Rightarrow> 'cb Channel \<times> 's \<Rightarrow> 'cb Channel \<times> 's) \<Rightarrow> (nat \<Rightarrow> bool) \<Rightarrow> Timestamp \<Rightarrow> nat list \<Rightarrow> 'cb store \<Rightarrow> 's \<Rightarrow>
   ('cb store \<times> 's) res" where
  "handle_active run alive t [] s w = Inr (s, w)"
| "handle_active run alive t (a # as) s w =
     chan s a (\<lambda>c. let (c', w') = handleEvent run (alive a) t (c, w) in handle_active run alive t as (s(a \<mapsto> c')) w')"

definition reactor_round ::
  "('cb fired \<Rightarrow> 'cb Channel \<times> 's \<Rightarrow> 'cb Channel \<times> 's) \<Rightarrow> (nat \<Rightarrow> bool) \<Rightarrow> Timestamp \<Rightarrow> wait_result \<Rightarrow> EPollPoller \<Rightarrow>
   'cb store \<Rightarrow> 's \<Rightarrow> (EPollPoller \<times> 'cb store \<times> 's) res" where
  "reactor_round run alive t r p s w =
     rbind (epoll_poll p s r []) (\<lambda>(p1, s1, active).
     rbind (handle_active run alive t active s1 w) (\<lambda>(s2, w2). Inr (p1, s2, w2)))"

text \<open>Callbacks that change their channel as they like, except for its callbacks and the events being
  handled, and of which a log is kept.\<close>

definition logging :: "('cb fired \<Rightarrow> 'cb Channel \<Rightarrow> 'cb Channel) \<Rightarrow> 'cb fired \<Rightarrow> 'cb Channel \<times> 'cb fired list \<Rightarrow>
    'cb Channel \<times> 'cb fired list" where
  "logging act f cw = (act f (fst cw), snd cw @ [f])"

definition respectful :: "('cb fired \<Rightarrow> 'cb Channel \<Rightarrow> 'cb Channel) \<Rightarrow> bool" where
  "respectful act \<longleftrightarrow> (\<forall>f c. same_dispatch c (act f c))"

lemma logging_log: "snd (fold (logging act) fs cw) = snd cw @ fs"
  by (induction fs arbitrary: cw) (simp_all add: logging_def)

text \<open>The callbacks that run for the events reported in a channel.\<close>

definition fires :: "(nat \<Rightarrow> bool) \<Rightarrow> Timestamp \<Rightarrow> 'cb store \<Rightarrow> nat \<Rightarrow> 'cb fired list" where
  "fires alive t s a =
     (case s a of None \<Rightarrow> [] | Some c \<Rightarrow> if tied c \<and> \<not> alive a then [] else dispatch c t)"

lemma fires_other [simp]: "b \<noteq> a \<Longrightarrow> fires alive t (s(a := v)) b = fires alive t s b"
  by (simp add: fires_def)

lemma fires_Some: "s a = Some c \<Longrightarrow> fires alive t s a = (if tied c \<and> \<not> alive a then [] else dispatch c t)"
  by (simp add: fires_def)

lemma handleEvent_log:
  assumes "respectful act"
  shows "snd (handleEvent (logging act) b t (c, w)) = w @ (if tied c \<and> \<not> b then [] else dispatch c t)"
proof -
  have "same_dispatch c (fst (logging act f (c, w)))" for f c w
    using assms by (simp add: respectful_def logging_def)
  from handleEvent_ok [of "logging act", OF this] show ?thesis by (simp add: Let_def logging_log)
qed

lemma handle_active_log:
  assumes "respectful act" "distinct as" "\<forall>a \<in> set as. s a \<noteq> None"
  shows "\<exists>s'. handle_active (logging act) alive t as s w = Inr (s', w @ concat (map (fires alive t s) as)) \<and>
    (\<forall>b. b \<notin> set as \<longrightarrow> s' b = s b)"
  using assms(2,3)
proof (induction as arbitrary: s w)
  case Nil
  then show ?case by simp
next
  case (Cons a as)
  obtain c where c: "s a = Some c" using Cons.prems(2) by auto
  obtain c' w' where e0: "handleEvent (logging act) (alive a) t (c, w) = (c', w')" by fastforce
  then have e: "handleEvent (logging act) (alive a) t (c, w) = (c', w @ fires alive t s a)"
    using handleEvent_log [OF assms(1), of "alive a" t c w] c by (simp add: fires_def)
  have na: "a \<notin> set as" "distinct as" using Cons.prems(1) by simp_all
  have al: "\<forall>b \<in> set as. (s(a \<mapsto> c')) b \<noteq> None" using Cons.prems(2) by simp
  have m: "map (fires alive t (s(a \<mapsto> c'))) as = map (fires alive t s) as"
    using na(1) by (intro map_cong refl fires_other) auto
  obtain s' where s': "handle_active (logging act) alive t as (s(a \<mapsto> c')) (w @ fires alive t s a) =
      Inr (s', (w @ fires alive t s a) @ concat (map (fires alive t s) as))" "\<forall>b. b \<notin> set as \<longrightarrow> s' b = (s(a \<mapsto> c')) b"
    using Cons.IH [OF na(2) al, of "w @ fires alive t s a"] unfolding m by blast
  then show ?case using c e by (intro exI [of _ s']) simp
qed

subsection \<open>The kernel\<close>

definition kernel_reports :: "EPollPoller \<Rightarrow> 'cb store \<Rightarrow> (mask \<times> nat) list \<Rightarrow> bool" where
  "kernel_reports p s es \<longleftrightarrow>
     distinct (map snd es) \<and> length es \<le> eventsSize p \<and>
     (\<forall>(ev, a) \<in> set es. \<exists>m. epoll_interest p s a = Some m \<and> ev AND NOT (m OR POLLERR OR POLLHUP) = 0)"

text \<open>The read and write callbacks that run are those of events that the channel wanted.\<close>

fun wanted_by :: "mask \<Rightarrow> 'cb fired \<Rightarrow> bool" where
  "wanted_by m (FireRead cb t) \<longleftrightarrow> bit m 0 \<or> bit m 1"
| "wanted_by m (FireWrite cb) \<longleftrightarrow> bit m 2"
| "wanted_by m _ \<longleftrightarrow> True"

lemma reported_bits:
  assumes "ev AND NOT (m OR POLLERR OR POLLHUP) = 0" "bit ev i" "i \<noteq> 3" "i \<noteq> 4"
  shows "bit m i"
proof -
  have "\<not> bit (ev AND NOT (m OR POLLERR OR POLLHUP)) i" using assms(1) by simp
  moreover have "\<not> bit POLLERR i" "\<not> bit POLLHUP i"
    using assms(3,4) bit_exp_iff [where 'a = "32 word", of 3 i] bit_exp_iff [where 'a = "32 word", of 4 i]
    by (auto simp: POLLERR_def POLLHUP_def)
  ultimately show ?thesis
    using assms(2) bit_imp_le_length [OF assms(2)] by (auto simp: bit_and_iff bit_or_iff bit_not_iff)
qed

lemma wanted_no_rdhup:
  assumes "wanted_ok m"
  shows "\<not> bit m 13"
proof
  assume "bit m 13"
  then have "bit (m AND NOT (kReadEvent OR kWriteEvent)) 13"
    unfolding kReadEvent_def kWriteEvent_def bit_and_iff bit_or_iff bit_not_iff bit_poll by simp
  then show False using assms unfolding wanted_ok_def by simp
qed

lemma set_fire:
  "f \<in> set (if b then (case cb of Some x \<Rightarrow> [g x] | None \<Rightarrow> []) else []) \<longleftrightarrow> b \<and> (\<exists>x. cb = Some x \<and> f = g x)"
  by (cases cb; cases b) (simp_all only: option.case if_True if_False list.set, blast+)

lemma dispatch_set:
  "f \<in> set (dispatch c t) \<Longrightarrow>
     (\<exists>cb. f = FireClose cb \<or> f = FireError cb) \<or>
     (\<exists>cb. f = FireRead cb t \<and> (bit (revents c) 0 \<or> bit (revents c) 1 \<or> bit (revents c) 13)) \<or>
     (\<exists>cb. f = FireWrite cb \<and> bit (revents c) 2)"
  unfolding dispatch_def set_append Un_iff set_fire by blast

lemma dispatch_wanted:
  assumes "ev AND NOT (m OR POLLERR OR POLLHUP) = 0" "wanted_ok m" "f \<in> set (dispatch (set_revents ev c) t)"
  shows "wanted_by m f"
proof -
  have r: "bit ev i \<Longrightarrow> i \<noteq> 3 \<Longrightarrow> i \<noteq> 4 \<Longrightarrow> bit m i" for i
    by (rule reported_bits [OF assms(1)])
  have "revents (set_revents ev c) = ev" by (simp add: set_revents_def)
  then show ?thesis
    using dispatch_set [OF assms(3)] r [of 0] r [of 1] r [of 2] r [of 13] wanted_no_rdhup [OF assms(2)] by auto
qed

lemma fires_reported:
  assumes "\<forall>b. s' b = (case map_of (map prod.swap es) b of None \<Rightarrow> s b | Some ev \<Rightarrow> map_option (set_revents ev) (s b))"
    "distinct (map snd es)" "(ev, a) \<in> set es"
  shows "s' a = map_option (set_revents ev) (s a)"
proof -
  have "distinct (map fst (map prod.swap es))" using assms(2) by (simp add: comp_def)
  moreover have "(a, ev) \<in> set (map prod.swap es)" using assms(3) by force
  ultimately have "map_of (map prod.swap es) a = Some ev" by (rule map_of_is_SomeI)
  then show ?thesis using assms(1) by simp
qed


text \<open>A channel with a read callback, registered for reading.\<close>

definition reader :: "nat Channel" where
  "reader = setReadCallback 9 (new_Channel 5)"

definition reading_poller :: EPollPoller where
  "reading_poller = \<lparr>channels = [5 \<mapsto> 7], eventsSize = 26, ctl_log = [(EPOLL_CTL_ADD, 5, kReadEvent, 7)]\<rparr>"

definition reading_store :: "nat store" where
  "reading_store = [7 \<mapsto> reader\<lparr>events := kReadEvent, addedToLoop := True, index := kAdded\<rparr>]"

lemma reading_session:
  "session new_EPollPoller epoll_updateChannel epoll_removeChannel epoll_hasChannel reading_poller reading_store"
proof (rule session.update)
  show "session new_EPollPoller epoll_updateChannel epoll_removeChannel epoll_hasChannel new_EPollPoller (one_channel(7 \<mapsto> reader))"
    by (rule session.configure [OF one_channel_session, of 7 "new_Channel 5"])
      (simp_all add: one_channel_def reader_def same_registration_setters)
  show "(one_channel(7 \<mapsto> reader)) 7 = Some reader" by simp
  show "may_update epoll_hasChannel new_EPollPoller (one_channel(7 \<mapsto> reader)) 7 (new_events EnableReading (events reader))"
    by (auto simp: may_update_def one_channel_def reader_def setReadCallback_def new_Channel_def has_iff new_EPollPoller_def
        kReadEvent_def poll_bits)
  show "channel_do epoll_updateChannel EnableReading new_EPollPoller (one_channel(7 \<mapsto> reader)) 7 =
      Inr (reading_poller, reading_store)"
    by (simp add: channel_do_def one_channel_def reader_def channel_apply_def epoll_updateChannel_def epoll_update_def
        new_Channel_def setReadCallback_def new_EPollPoller_def kInitEventListSize_def reading_poller_def reading_store_def
        modify_def set_index_def index_defs)
qed

lemma reading_reports: "kernel_reports reading_poller reading_store [(POLLIN, 7)]"
proof -
  have "epoll_interest reading_poller reading_store 7 = Some kReadEvent"
    by (simp add: epoll_interest_def reading_poller_def reading_store_def epoll_table_def reader_def setReadCallback_def
        new_Channel_def)
  moreover have "POLLIN AND NOT (kReadEvent OR POLLERR OR POLLHUP) = 0"
    by (simp add: kReadEvent_def POLLIN_def POLLPRI_def POLLERR_def POLLHUP_def)
  ultimately show ?thesis by (simp add: kernel_reports_def reading_poller_def)
qed


subsection \<open>The channels of a loop\<close>

text \<open>\<open>newDefaultPoller\<close> with the value of the environment variable.\<close>

definition newDefaultPoller :: "string option \<Rightarrow> PollPoller + EPollPoller" where
  "newDefaultPoller env = (if env \<noteq> None then Inl new_PollPoller else Inr new_EPollPoller)"

text \<open>\<open>updateChannel\<close> and \<open>hasChannel\<close> of a loop; \<open>owner\<close> is the loop that the channel belongs to,
  \<open>this\<close> the one that is called.\<close>

definition loop_updateChannel ::
  "('p \<Rightarrow> 'cb store \<Rightarrow> nat \<Rightarrow> ('p \<times> 'cb store) res) \<Rightarrow> nat \<Rightarrow> nat \<Rightarrow> 'p \<Rightarrow> 'cb store \<Rightarrow> nat \<Rightarrow> ('p \<times> 'cb store) res" where
  "loop_updateChannel upd owner this p s a = ensure (owner = this) ''channel->ownerLoop() == this'' (upd p s a)"

definition loop_hasChannel :: "('p \<Rightarrow> 'cb store \<Rightarrow> nat \<Rightarrow> bool) \<Rightarrow> nat \<Rightarrow> nat \<Rightarrow> 'p \<Rightarrow> 'cb store \<Rightarrow> nat \<Rightarrow> bool res" where
  "loop_hasChannel has owner this p s a = ensure (owner = this) ''channel->ownerLoop() == this'' (Inr (has p s a))"

lemma loop_updateChannel_self [simp]: "loop_updateChannel upd l l = upd"
  by (intro ext) (simp add: loop_updateChannel_def)

text \<open>The constructor of a loop \<open>this\<close> registers two channels: that of the kernel timer, when it constructs
  the timer queue, and that of the wakeup descriptor. \<open>attach_channel\<close> is what it does for each at
  the address \<open>a\<close>; \<open>detach_channel\<close> is what the destructors do, up to the deletion of the channel. The
  destructor of the loop detaches the wakeup channel; the timer queue is a member declared after
  the poller, so that it is destroyed next, and the poller after it.\<close>

definition attach_channel ::
  "('p \<Rightarrow> 'cb store \<Rightarrow> nat \<Rightarrow> ('p \<times> 'cb store) res) \<Rightarrow> nat \<Rightarrow> int \<Rightarrow> 'cb \<Rightarrow> nat \<Rightarrow> 'p \<Rightarrow> 'cb store \<Rightarrow> ('p \<times> 'cb store) res" where
  "attach_channel upd this f cb a p s =
     channel_do (loop_updateChannel upd this this) EnableReading p (s(a \<mapsto> setReadCallback cb (new_Channel f))) a"

definition detach_channel ::
  "('p \<Rightarrow> 'cb store \<Rightarrow> nat \<Rightarrow> ('p \<times> 'cb store) res) \<Rightarrow> ('p \<Rightarrow> 'cb store \<Rightarrow> nat \<Rightarrow> ('p \<times> 'cb store) res) \<Rightarrow>
   ('p \<Rightarrow> 'cb store \<Rightarrow> nat \<Rightarrow> bool) \<Rightarrow> nat \<Rightarrow> 'f EventLoop \<Rightarrow> nat \<Rightarrow> 'p \<Rightarrow> 'cb store \<Rightarrow> ('p \<times> 'cb store) res" where
  "detach_channel upd rem has this l a p s =
     rbind (channel_do (loop_updateChannel upd this this) DisableAll p s a) (\<lambda>(p1, s1).
     rbind (channel_remove (loop_removeChannel rem l) p1 s1 a) (\<lambda>(p2, s2).
     rbind (delete_Channel has True p2 s2 a) (\<lambda>s3. Inr (p2, s3))))"

definition construct_channels ::
  "('p \<Rightarrow> 'cb store \<Rightarrow> nat \<Rightarrow> ('p \<times> 'cb store) res) \<Rightarrow> nat \<Rightarrow> int \<times> 'cb \<times> nat \<Rightarrow> int \<times> 'cb \<times> nat \<Rightarrow> 'p \<Rightarrow> ('p \<times> 'cb store) res" where
  "construct_channels upd this timerfd wakeupFd p0 =
     (case (timerfd, wakeupFd) of ((tfd, tcb, ta), (wfd, wcb, wa)) \<Rightarrow>
        rbind (attach_channel upd this tfd tcb ta p0 Map.empty) (\<lambda>(p, s).
        attach_channel upd this wfd wcb wa p s))"

definition destruct_channels ::
  "('p \<Rightarrow> 'cb store \<Rightarrow> nat \<Rightarrow> ('p \<times> 'cb store) res) \<Rightarrow> ('p \<Rightarrow> 'cb store \<Rightarrow> nat \<Rightarrow> ('p \<times> 'cb store) res) \<Rightarrow>
   ('p \<Rightarrow> 'cb store \<Rightarrow> nat \<Rightarrow> bool) \<Rightarrow> nat \<Rightarrow> 'f EventLoop \<Rightarrow> nat \<Rightarrow> nat \<Rightarrow> 'p \<Rightarrow> 'cb store \<Rightarrow> ('p \<times> 'cb store) res" where
  "destruct_channels upd rem has this l ta wa p s =
     rbind (detach_channel upd rem has this l wa p s) (\<lambda>(p1, s1).
     detach_channel upd rem has this l ta p1 s1)"

text \<open>The pointer to the loop of the current thread. A second loop in the same thread is only
  reported, and its destructor clears the pointer of the first.\<close>

definition register_loop :: "nat \<Rightarrow> nat option \<Rightarrow> nat option" where
  "register_loop this t_loop = (if t_loop \<noteq> None then t_loop else Some this)"

definition unregister_loop :: "nat option \<Rightarrow> nat option" where
  "unregister_loop t_loop = None"

lemma second_loop_clears: "unregister_loop (register_loop b (register_loop a None)) = None"
  "register_loop b (register_loop a None) = Some a"
  by (simp_all add: register_loop_def unregister_loop_def)

text \<open>What every poller gives a loop, from its contract alone.\<close>

context poller
begin

lemma attach_ok:
  assumes s: "session init updateChannel removeChannel has p s" and a: "s a = None" and f: "0 \<le> f" "\<forall>b d. has p s b \<longrightarrow> s b = Some d \<longrightarrow> fd d \<noteq> f"
  shows "\<exists>p1 s1. attach_channel updateChannel this f cb a p s = Inr (p1, s1) \<and>
    session init updateChannel removeChannel has p1 s1 \<and> (\<forall>b. has p1 s1 b \<longleftrightarrow> b = a \<or> has p s b) \<and>
    (\<forall>b. s1 b \<noteq> None \<longleftrightarrow> b = a \<or> s b \<noteq> None) \<and> (\<exists>c. s1 a = Some c \<and> fd c = f)"
proof -
  let ?c = "setReadCallback cb (new_Channel f)" and ?s = "s(a \<mapsto> setReadCallback cb (new_Channel f))"
  have "session init updateChannel removeChannel has p (s(a \<mapsto> new_Channel f))" using s a f(1) by (rule session.create)
  then have "session init updateChannel removeChannel has p ((s(a \<mapsto> new_Channel f))(a \<mapsto> ?c))"
    by (rule session.configure [where c = "new_Channel f"]) (simp, rule same_registration_setters)
  then have s1: "session init updateChannel removeChannel has p ?s" by simp
  have n: "\<not> has p s a" using has_alive a by blast
  have h: "has p ?s b = has p s b" for b using frame [OF goodD(1) [OF session_good [OF s]] n] by blast
  have m: "may_update has p ?s a (new_events EnableReading (events ?c))"
    using f(2) n h unfolding may_update_def
    by (auto simp: setReadCallback_def new_Channel_def kReadEvent_def poll_bits)
  have c: "?s a = Some ?c" by simp
  obtain p1 s1 where 1: "channel_do updateChannel EnableReading p ?s a = Inr (p1, s1)"
      "\<forall>b. has p1 s1 b \<longleftrightarrow> b = a \<or> has p ?s b"
      "same_but_index (?s(a \<mapsto> (channel_apply EnableReading ?c)\<lparr>addedToLoop := True\<rparr>)) s1"
    using channel_do_ok [OF session_good [OF s1] c m] by blast
  have "session init updateChannel removeChannel has p1 s1" using s1 c m 1(1) by (rule session.update)
  moreover have "s1 b \<noteq> None \<longleftrightarrow> b = a \<or> s b \<noteq> None" for b
    using same_but_index_None [OF 1(3), of b] by auto
  moreover have "\<exists>c. s1 a = Some c \<and> fd c = f"
    using same_but_indexD [OF 1(3), of a] by (auto simp: channel_apply_def setReadCallback_def new_Channel_def)
  ultimately show ?thesis using 1 h by (auto simp: attach_channel_def)
qed

lemma detach_ok:
  assumes g: "good p s" and h: "has p s a" and l: "\<not> loopEventHandling l"
  shows "\<exists>p' s'. detach_channel updateChannel removeChannel has this l a p s = Inr (p', s') \<and> good p' s' \<and>
    (\<forall>b. has p' s' b \<longleftrightarrow> b \<noteq> a \<and> has p s b)"
proof -
  obtain c where c: "s a = Some c" using has_alive [OF h] by auto
  have "may_update has p s a (new_events DisableAll (events c))" using c h by (simp add: may_update_def)
  then obtain p1 s1 where 1: "channel_do updateChannel DisableAll p s a = Inr (p1, s1)" "good p1 s1"
      "\<forall>b. has p1 s1 b \<longleftrightarrow> b = a \<or> has p s b"
      "same_but_index (s(a \<mapsto> (channel_apply DisableAll c)\<lparr>addedToLoop := True\<rparr>)) s1"
    using channel_do_ok [OF g c] by blast
  obtain d where d: "s1 a = Some d" "events d = 0"
    using same_but_indexD [OF 1(4), of a] by (auto simp: channel_apply_def kNoneEvent_def)
  have m: "may_remove has p1 s1 a" using 1(3) d by (simp add: may_remove_def)
  have rm: "loop_removeChannel removeChannel l = removeChannel"
    using l by (intro ext) (simp add: loop_removeChannel_def)
  obtain p2 s2 where 2: "channel_remove removeChannel p1 s1 a = Inr (p2, s2)" "good p2 s2"
      "\<forall>b. has p2 s2 b \<longleftrightarrow> b \<noteq> a \<and> has p1 s1 b"
    using channel_remove_ok [OF 1(2) m] by blast
  have n: "\<not> has p2 s2 a" using 2(3) by simp
  have alive: "s2 a \<noteq> None"
    using remove_ok [OF goodD(1) [OF 1(2)] d(1) m refl] 2(1) d same_but_index_None
    by (fastforce simp: channel_remove_def isNoneEvent_def kNoneEvent_def)
  then obtain e where e: "s2 a = Some e" by auto
  note del = delete_ok [OF 2(2) n e]
  have "has p2 (s2(a := None)) b = has p2 s2 b" for b using frame [OF goodD(1) [OF 2(2)] n] by blast
  then show ?thesis using 1 2 del rm by (intro exI [of _ p2] exI [of _ "s2(a := None)"]) (auto simp: detach_channel_def)
qed

lemma construct_ok:
  assumes "ta \<noteq> wa" "tfd \<noteq> wfd" "0 \<le> tfd" "0 \<le> wfd"
  shows "\<exists>p s. construct_channels updateChannel this (tfd, tcb, ta) (wfd, wcb, wa) init = Inr (p, s) \<and>
    session init updateChannel removeChannel has p s \<and> (\<forall>b. has p s b \<longleftrightarrow> b \<in> {ta, wa})"
proof -
  have no: "\<not> has init Map.empty b" for b using has_alive by fastforce
  obtain p1 s1 c where 1: "attach_channel updateChannel this tfd tcb ta init Map.empty = Inr (p1, s1)"
      "session init updateChannel removeChannel has p1 s1" "\<forall>b. has p1 s1 b \<longleftrightarrow> b = ta" "\<forall>b. s1 b \<noteq> None \<longleftrightarrow> b = ta"
      "s1 ta = Some c" "fd c = tfd"
    using attach_ok [OF session.start _ assms(3), where a = ta and cb = tcb and this = this] no by auto
  have "s1 wa = None" using 1(4) assms(1) by auto
  moreover have "\<forall>b d. has p1 s1 b \<longrightarrow> s1 b = Some d \<longrightarrow> fd d \<noteq> wfd" using 1(3,5,6) assms(2) by auto
  ultimately obtain p s where "attach_channel updateChannel this wfd wcb wa p1 s1 = Inr (p, s)"
      "session init updateChannel removeChannel has p s" "\<forall>b. has p s b \<longleftrightarrow> b = wa \<or> has p1 s1 b"
    using attach_ok [OF 1(2) _ assms(4), where cb = wcb and this = this] by blast
  then show ?thesis using 1(1,3) by (auto simp: construct_channels_def)
qed

lemma destruct_ok:
  assumes "session init updateChannel removeChannel has p s" "has p s ta" "has p s wa" "ta \<noteq> wa" "\<not> loopEventHandling l"
  shows "\<exists>p' s'. destruct_channels updateChannel removeChannel has this l ta wa p s = Inr (p', s') \<and>
    (\<forall>b. has p' s' b \<longleftrightarrow> has p s b \<and> b \<notin> {ta, wa})"
proof -
  obtain p1 s1 where 1: "detach_channel updateChannel removeChannel has this l wa p s = Inr (p1, s1)" "good p1 s1"
      "\<forall>b. has p1 s1 b \<longleftrightarrow> b \<noteq> wa \<and> has p s b"
    using detach_ok [OF session_good [OF assms(1)] assms(3,5)] by blast
  have "has p1 s1 ta" using 1(3) assms(2,4) by simp
  from detach_ok [OF 1(2) this assms(5)] obtain p' s' where
      "detach_channel updateChannel removeChannel has this l ta p1 s1 = Inr (p', s')"
      "\<forall>b. has p' s' b \<longleftrightarrow> b \<noteq> ta \<and> has p1 s1 b" by blast
  then show ?thesis using 1(1,3) by (auto simp: destruct_channels_def)
qed

lemma loop_channels:
  assumes "ta \<noteq> wa" "tfd \<noteq> wfd" "0 \<le> tfd" "0 \<le> wfd" "\<not> loopEventHandling l"
  shows "(\<exists>p s. construct_channels updateChannel this (tfd, tcb, ta) (wfd, wcb, wa) init = Inr (p, s) \<and>
      session init updateChannel removeChannel has p s \<and> (\<forall>b. has p s b \<longleftrightarrow> b \<in> {ta, wa})) \<and>
    (\<forall>p s. session init updateChannel removeChannel has p s \<longrightarrow> has p s ta \<longrightarrow> has p s wa \<longrightarrow>
      (\<exists>p' s'. destruct_channels updateChannel removeChannel has this l ta wa p s = Inr (p', s') \<and>
        (\<forall>b. has p' s' b \<longleftrightarrow> has p s b \<and> b \<notin> {ta, wa})))"
  using construct_ok [OF assms(1-4)] destruct_ok [OF _ _ _ assms(1,5)] by auto

end

text \<open>The same on the poll poller.\<close>

lemma poll_construct_destroy:
  fixes tcb wcb :: 'cb
  assumes "ta \<noteq> wa" "tfd \<noteq> wfd" "0 \<le> tfd" "0 \<le> wfd" "\<not> loopEventHandling l"
  shows "(\<exists>p s. construct_channels poll_updateChannel this (tfd, tcb, ta) (wfd, wcb, wa) new_PollPoller = Inr (p, s) \<and>
      session new_PollPoller poll_updateChannel poll_removeChannel poll_hasChannel p s \<and> (\<forall>b. poll_hasChannel p s b \<longleftrightarrow> b \<in> {ta, wa})) \<and>
    (\<forall>p (s :: 'cb store). session new_PollPoller poll_updateChannel poll_removeChannel poll_hasChannel p s \<longrightarrow>
      poll_hasChannel p s ta \<longrightarrow> poll_hasChannel p s wa \<longrightarrow>
      (\<exists>p' s'. destruct_channels poll_updateChannel poll_removeChannel poll_hasChannel this l ta wa p s = Inr (p', s') \<and>
        (\<forall>b. poll_hasChannel p' s' b \<longleftrightarrow> poll_hasChannel p s b \<and> b \<notin> {ta, wa})))"
  using assms by (rule pp.loop_channels)



end
