(* ===== verification/ProcessInfo.thy ===== *)
theory ProcessInfo
  imports FileUtil StringPiece Timestamp "HOL-Library.Multiset"
begin

section \<open>The process (src/src/ProcessInfo.h, src/src/ProcessInfo.cpp)\<close>

text \<open>
  What a process can tell about itself. The answers of the system calls and the contents of the files
  under /proc are arguments; what is modelled is what the code makes of them: the filters of the
  directory scans, the search for fields, the conversions of numbers. The functions that only
  return the answer of one call (\<open>pid\<close>, \<open>uid\<close>, \<open>euid\<close>, \<open>startTime\<close>, \<open>pageSize\<close>,
  \<open>clockTicksPerSecond\<close>) are their arguments.
\<close>

subsection \<open>Numbers in text\<close>

text \<open>\<open>atoi\<close>: blanks, a sign, digits; a number outside the range of \<open>int\<close> is undefined behaviour in C
  and is not given one here.\<close>

definition atoi :: "string \<Rightarrow> int" where
  "atoi s =
     (let t = dropWhile isspace (takeWhile (\<lambda>c. c \<noteq> CHR 0x00) s)
      in case t of
           [] \<Rightarrow> 0
         | c # cs \<Rightarrow>
             if c = CHR ''-'' then - int (dec_value (takeWhile is_digit cs))
             else if c = CHR ''+'' then int (dec_value (takeWhile is_digit cs))
             else int (dec_value (takeWhile is_digit t)))"

lemma digit_no_space: "is_digit c \<Longrightarrow> \<not> isspace c \<and> c \<noteq> CHR 0x00 \<and> c \<noteq> CHR ''-'' \<and> c \<noteq> CHR ''+''"
  by (auto simp: is_digit_def isspace_def)

lemma isspace_not_nul: "isspace c \<Longrightarrow> c \<noteq> CHR 0x00"
  by (auto simp: isspace_def)

lemma atoi_digits:
  assumes "\<forall>c \<in> set sp. isspace c" "rest = [] \<or> \<not> is_digit (hd rest)"
  shows "atoi (sp @ dec_digits n @ rest) = int n"
proof -
  let ?z = "\<lambda>c. c \<noteq> CHR 0x00"
  have d: "\<forall>c \<in> set (dec_digits n). is_digit c" using dec_digits_is_digit by blast
  have sp: "\<forall>c \<in> set sp. ?z c" using assms(1) isspace_not_nul by blast
  have "\<forall>c \<in> set (dec_digits n). ?z c" using d digit_no_space by blast
  then have z: "takeWhile ?z (sp @ dec_digits n @ rest) = sp @ dec_digits n @ takeWhile ?z rest"
    using sp by (simp add: takeWhile_append2)
  obtain x xs where x: "dec_digits n = x # xs" by (cases "dec_digits n") auto
  have nx: "\<not> isspace x" "x \<noteq> CHR ''-''" "x \<noteq> CHR ''+''" using d x digit_no_space by auto
  have dw: "dropWhile isspace (sp @ dec_digits n @ takeWhile ?z rest) = dec_digits n @ takeWhile ?z rest"
    using assms(1) nx(1) x by (simp add: dropWhile_append2)
  have "takeWhile is_digit (takeWhile ?z rest) = []"
    using assms(2) by (cases rest) auto
  then have "takeWhile is_digit (dec_digits n @ takeWhile ?z rest) = dec_digits n"
    using d by (simp add: takeWhile_append2)
  moreover have "dec_value (x # xs) = n" using dec_value_dec_digits [of n] x by simp
  ultimately show ?thesis using z dw x nx by (simp add: atoi_def)
qed

subsection \<open>Names\<close>

definition pidString :: "int \<Rightarrow> string" where
  "pidString pid = snprintf 32 (dec_int pid)"

text \<open>\<open>getpwuid_r\<close> answers the name of the user, if it finds one.\<close>

definition username :: "string option \<Rightarrow> string" where
  "username pw_name = (case pw_name of Some name \<Rightarrow> name | None \<Rightarrow> ''unknownuser'')"

definition isDebugBuild :: bool where
  "isDebugBuild = True"

text \<open>\<open>gethostname\<close> fills the 256 bytes of \<open>buf\<close>, or fails.\<close>

definition hostname :: "byte list option \<Rightarrow> string" where
  "hostname answer =
     (case answer of
        Some buf \<Rightarrow> takeWhile (\<lambda>c. c \<noteq> CHR 0x00) (buf[255 := CHR 0x00])
      | None \<Rightarrow> ''unknownhost'')"

definition procname :: "string \<Rightarrow> StringPiece" where
  "procname stat =
     (case (str_find stat (CHR ''(''), str_rfind stat (CHR '')'')) of
        (Some lp, Some rp) \<Rightarrow>
          if lp < rp then sp_set StringPiece_empty (drop (lp + 1) stat) (int (rp - lp - 1)) else StringPiece_empty
      | _ \<Rightarrow> StringPiece_empty)"

definition threadStat_path :: "int \<Rightarrow> string" where
  "threadStat_path tid = snprintf 64 (''/proc/self/task/'' @ dec_int tid @ ''/stat'')"

text \<open>\<open>readlink\<close> answers the number of bytes it wrote into \<open>buf\<close>.\<close>

definition exePath :: "int \<Rightarrow> byte list \<Rightarrow> string" where
  "exePath n buf = (if n > 0 then take (nat n) buf else [])"

text \<open>The name of the program is what stands between the first \<open>(\<close> and the last \<open>)\<close>, parentheses of
  its own included.\<close>

lemma procname_exact:
  assumes "CHR ''('' \<notin> set pre" "CHR '')'' \<notin> set post"
  shows "as_string (procname (pre @ ''('' @ nm @ '')'' @ post)) = nm"
proof -
  let ?s = "pre @ CHR ''('' # nm @ CHR '')'' # post"
  have "str_find ?s (CHR ''('') = Some (length pre)"
    using std_find_first [OF assms(1)] by (simp add: str_find_def)
  moreover have "str_rfind ?s (CHR '')'') = Some (Suc (length pre + length nm))"
    using str_rfind_last [OF assms(2), of "pre @ CHR ''('' # nm"] by simp
  ultimately show ?thesis by (simp add: procname_def sp_set_def StringPiece_empty_def as_string_def)
qed

lemma threadStat_path_fits:
  assumes "0 \<le> tid" "tid < 2 ^ 31"
  shows "threadStat_path tid = ''/proc/self/task/'' @ dec_digits (nat tid) @ ''/stat''"
proof -
  have "length (dec_digits (nat tid)) \<le> 10"
    using assms by (intro length_dec_digits_le) (simp_all add: nat_less_iff)
  then show ?thesis using assms(1) by (simp add: threadStat_path_def dec_int_def)
qed

subsection \<open>Directory scans\<close>

text \<open>\<open>dirs\<close> is the file system, as the lists of the names in its directories. \<open>scandir\<close> calls the filter on every entry and collects those for which it answers a nonzero
  value; \<open>None\<close> is a directory that cannot be read. The filters count or collect on the side and
  answer 0, so that nothing is collected and the list stays null.\<close>

fun scan_entries :: "(string \<Rightarrow> 's \<Rightarrow> int \<times> 's) \<Rightarrow> string list \<Rightarrow> 's \<Rightarrow> string list \<times> 's" where
  "scan_entries flt [] st = ([], st)"
| "scan_entries flt (d # ds) st =
     (let (r, st1) = flt d st; (sel, st2) = scan_entries flt ds st1
      in (if r \<noteq> 0 then d # sel else sel, st2))"

definition scanDir ::
  "(string \<Rightarrow> string list option) \<Rightarrow> string \<Rightarrow> (string \<Rightarrow> 's \<Rightarrow> int \<times> 's) \<Rightarrow> 's \<Rightarrow> (int \<times> 's) res" where
  "scanDir dirs dirpath flt st =
     (case dirs dirpath of
        None \<Rightarrow> Inr (- 1, st)
      | Some ds \<Rightarrow>
          (let (namelist, st1) = scan_entries flt ds st
           in ensure (namelist = []) ''namelist == NULL'' (Inr (int (length namelist), st1))))"

text \<open>The first byte of a name, which is the final zero for an empty name.\<close>

definition first_byte :: "string \<Rightarrow> char" where
  "first_byte s = (case s of [] \<Rightarrow> CHR 0x00 | c # _ \<Rightarrow> c)"

definition fdDirFilter :: "string \<Rightarrow> int \<Rightarrow> int \<times> int" where
  "fdDirFilter d_name numOpenedFiles = (0, if is_digit (first_byte d_name) then numOpenedFiles + 1 else numOpenedFiles)"

definition taskDirFilter :: "string \<Rightarrow> int list \<Rightarrow> int \<times> int list" where
  "taskDirFilter d_name pids = (0, if is_digit (first_byte d_name) then pids @ [atoi d_name] else pids)"

definition openedFiles :: "(string \<Rightarrow> string list option) \<Rightarrow> int res" where
  "openedFiles dirs = rbind (scanDir dirs ''/proc/self/fd'' fdDirFilter 0) (\<lambda>(r, n). Inr n)"

text \<open>\<open>getrlimit\<close> answers a 64-bit limit, which is cast to \<open>int\<close>.\<close>

definition maxOpenFiles :: "64 word option \<Rightarrow> (string \<Rightarrow> string list option) \<Rightarrow> int res" where
  "maxOpenFiles rlimit dirs =
     (case rlimit of None \<Rightarrow> openedFiles dirs | Some cur \<Rightarrow> Inr (sint (ucast cur :: 32 word)))"

definition proc_threads :: "(string \<Rightarrow> string list option) \<Rightarrow> int list res" where
  "proc_threads dirs = rbind (scanDir dirs ''/proc/self/task'' taskDirFilter []) (\<lambda>(r, pids). Inr (sort pids))"

lemma infinite_limit: "sint (ucast (- 1 :: 64 word) :: 32 word) = - 1"
  by code_simp

lemma scan_count:
  "scan_entries fdDirFilter ds n = ([], n + int (length (filter (\<lambda>d. is_digit (first_byte d)) ds)))"
  by (induction ds arbitrary: n) (simp_all add: fdDirFilter_def)

lemma scan_pids:
  "scan_entries taskDirFilter ds pids = ([], pids @ map atoi (filter (\<lambda>d. is_digit (first_byte d)) ds))"
  by (induction ds arbitrary: pids) (simp_all add: taskDirFilter_def)

lemma first_byte_digits: "is_digit (first_byte (dec_digits n))"
  using dec_digits_is_digit [of "hd (dec_digits n)" n] by (cases "dec_digits n") (auto simp: first_byte_def)

lemma atoi_dec_digits [simp]: "atoi (dec_digits n) = int n"
  using atoi_digits [of "[]" "[]" n] by simp

lemma dots_no_digit: "\<not> is_digit (first_byte ''.'')" "\<not> is_digit (first_byte ''..'')"
  by (simp_all add: first_byte_def is_digit_def)

subsection \<open>Files under /proc\<close>

text \<open>The three readers ignore the error that \<open>readFile\<close> reports. \<open>open_file\<close> answers \<open>open\<close> by the
  path, \<open>rd\<close> answers \<open>read\<close>.\<close>

definition proc_read ::
  "(nat \<Rightarrow> 'os \<Rightarrow> (int + byte list) \<times> 'os) \<Rightarrow> int \<Rightarrow> (string \<Rightarrow> int + int) \<Rightarrow> string \<Rightarrow> int \<Rightarrow> 'os \<Rightarrow> string" where
  "proc_read rd errno open_file path maxSize os =
     (let (err, result, os1) = readFile rd errno (open_file path) maxSize [] os in result)"

definition procStatus ::
  "(nat \<Rightarrow> 'os \<Rightarrow> (int + byte list) \<times> 'os) \<Rightarrow> int \<Rightarrow> (string \<Rightarrow> int + int) \<Rightarrow> 'os \<Rightarrow> string" where
  "procStatus rd errno open_file os = proc_read rd errno open_file ''/proc/self/status'' 65535 os"

definition procStat ::
  "(nat \<Rightarrow> 'os \<Rightarrow> (int + byte list) \<times> 'os) \<Rightarrow> int \<Rightarrow> (string \<Rightarrow> int + int) \<Rightarrow> 'os \<Rightarrow> string" where
  "procStat rd errno open_file os = proc_read rd errno open_file ''/proc/self/stat'' 65535 os"

definition threadStat ::
  "(nat \<Rightarrow> 'os \<Rightarrow> (int + byte list) \<times> 'os) \<Rightarrow> int \<Rightarrow> (string \<Rightarrow> int + int) \<Rightarrow> int \<Rightarrow> 'os \<Rightarrow> string" where
  "threadStat rd errno open_file tid os = proc_read rd errno open_file (threadStat_path tid) 65536 os"

subsection \<open>Processor time and the number of threads\<close>

record CpuTime =
  userSeconds :: rat
  systemSeconds :: rat

definition cpu_total :: "(rat \<Rightarrow> rat) \<Rightarrow> CpuTime \<Rightarrow> rat" where
  "cpu_total rnd t = rnd (userSeconds t + systemSeconds t)"

text \<open>\<open>times\<close> answers the ticks spent in user and in system mode.\<close>

definition cpuTime :: "(rat \<Rightarrow> rat) \<Rightarrow> int \<Rightarrow> (int \<times> int) option \<Rightarrow> CpuTime" where
  "cpuTime rnd clockTicks tms =
     (case tms of
        Some (utime, stime) \<Rightarrow>
          (let hz = rnd (of_int clockTicks)
           in \<lparr>userSeconds = rnd (rnd (of_int utime) / hz), systemSeconds = rnd (rnd (of_int stime) / hz)\<rparr>)
      | None \<Rightarrow> \<lparr>userSeconds = 0, systemSeconds = 0\<rparr>)"

text \<open>The number of threads, from the text of the status file; \<open>std_search\<close> answers the length of the
  text where \<open>find\<close> answers \<open>npos\<close>.\<close>

definition threads_field :: "string \<Rightarrow> int" where
  "threads_field status =
     (let pos = std_search status ''Threads:''
      in if pos \<noteq> length status then atoi (drop (pos + 8) status) else 0)"

definition proc_numThreads ::
  "(nat \<Rightarrow> 'os \<Rightarrow> (int + byte list) \<times> 'os) \<Rightarrow> int \<Rightarrow> (string \<Rightarrow> int + int) \<Rightarrow> 'os \<Rightarrow> int" where
  "proc_numThreads rd errno open_file os = threads_field (procStatus rd errno open_file os)"

lemma threads_field_exact:
  assumes "std_search (pre @ ''Threads:'') ''Threads:'' = length pre" "\<forall>c \<in> set sp. isspace c"
  shows "threads_field (pre @ ''Threads:'' @ sp @ dec_digits n @ [CHR 0x0A] @ post) = int n"
proof -
  have "std_search ((pre @ ''Threads:'') @ sp @ dec_digits n @ [CHR 0x0A] @ post) ''Threads:'' = length pre"
    using std_search_append [of "pre @ ''Threads:''" "''Threads:''"] assms(1) by simp
  moreover have "drop (length pre + 8) (pre @ ''Threads:'' @ sp @ dec_digits n @ [CHR 0x0A] @ post) =
      sp @ dec_digits n @ [CHR 0x0A] @ post" by simp
  ultimately show ?thesis
    using atoi_digits [OF assms(2), of "[CHR 0x0A] @ post" n] by (simp add: threads_field_def is_digit_def)
qed

text \<open>The scans of /proc. Over directories that list the numbers \<open>ns\<close>, in any order, and the two dot
  entries, no assertion fails; \<open>threads()\<close> is the sorted list of the numbers, and
  \<open>openedFiles()\<close> is how many there are. A limit that fits is reported as it is, and an infinite one
  as -1.\<close>

lemma proc_scans:
  assumes "mset ds = mset ([''.'', ''..''] @ map dec_digits ns)"
    "dirs ''/proc/self/task'' = Some ds" "dirs ''/proc/self/fd'' = Some ds"
  shows "proc_threads dirs = Inr (sort (map int ns)) \<and> openedFiles dirs = Inr (int (length ns)) \<and>
    maxOpenFiles None dirs = Inr (int (length ns)) \<and> maxOpenFiles (Some (- 1)) dirs = Inr (- 1)"
proof -
  let ?D = "\<lambda>d. is_digit (first_byte d)"
  have "mset (filter ?D ds) = filter_mset ?D (mset ([''.'', ''..''] @ map dec_digits ns))"
    by (simp only: mset_filter assms(1))
  also have "\<dots> = mset (map dec_digits ns)"
    using dots_no_digit first_byte_digits by (simp add: filter_mset_image_mset filter_mset_True)
  finally have f: "mset (filter ?D ds) = mset (map dec_digits ns)" .
  have len: "length (filter ?D ds) = length ns" using mset_eq_length [OF f] by simp
  have "mset (map atoi (filter ?D ds)) = image_mset atoi (mset (filter ?D ds))" by (rule mset_map)
  also have "\<dots> = mset (map int ns)" unfolding f by (simp add: multiset.map_comp comp_def)
  finally have "mset (map atoi (filter ?D ds)) = mset (map int ns)" .
  then have "sort (map atoi (filter ?D ds)) = sort (map int ns)" by (intro properties_for_sort) simp_all
  then show ?thesis
    using len assms(2,3) by (simp add: proc_threads_def openedFiles_def maxOpenFiles_def scanDir_def scan_count scan_pids infinite_limit)
qed

end
