(* ===== verification/LoopTimers.thy ===== *)
theory LoopTimers
  imports EventLoop
begin

section \<open>Timers across threads (src/src/TimerQueue.cpp, src/src/EventLoop.cpp)\<close>

text \<open>
  \<open>addTimer\<close> and \<open>cancel\<close> may be called from any thread. In the thread of the loop they act at once
  (theory \<open>TimerQueue\<close>); in another thread the timer is created there, and its insertion or its
  cancellation is queued as a functor. This theory composes the timer queue with the queue of
  functors: a step relation has the steps of the loop's thread and of any number of other threads, in
  every order. An expiry round is one step of it: the other threads only create timers that the loop's
  thread does not know yet, which commutes with whatever the round does. The last line of
  \<open>addTimer\<close>, which reads the sequence number back from the timer, is a step of its own.
\<close>

datatype timer_functor = AddTimer nat | CancelTimer TimerId

fun run_functor :: "Timestamp \<Rightarrow> 'cb TimerQueue \<Rightarrow> timer_functor \<Rightarrow> 'cb TimerQueue res" where
  "run_functor now q (AddTimer a) = addTimerInLoop now q a"
| "run_functor now q (CancelTimer tid) = cancelInLoop q tid"

text \<open>\<open>addTimer\<close> in another thread up to its last line, its last line, and \<open>cancel\<close> in another
  thread.\<close>

definition post_addTimer ::
  "((nat \<rightharpoonup> 'cb Timer) \<Rightarrow> nat option) \<Rightarrow> 'cb \<Rightarrow> Timestamp \<Rightarrow> rat \<Rightarrow> 'cb TimerQueue \<Rightarrow> timer_functor EventLoop \<Rightarrow>
   (nat \<times> 'cb TimerQueue \<times> timer_functor EventLoop) res" where
  "post_addTimer alloc cb w iv q l =
     (case alloc (heap q) of None \<Rightarrow> Inl BadAlloc
      | Some a \<Rightarrow>
          (let t = new_Timer cb w iv (numCreated q)
           in Inr (a, q\<lparr>heap := (heap q)(a \<mapsto> t), numCreated := numCreated q + 1\<rparr>, queueInLoop False (AddTimer a) l)))"

definition timer_id :: "'cb TimerQueue \<Rightarrow> nat \<Rightarrow> TimerId res" where
  "timer_id q a = deref q a (\<lambda>t. Inr (a, sequence t))"

definition post_cancel :: "TimerId \<Rightarrow> timer_functor EventLoop \<Rightarrow> timer_functor EventLoop" where
  "post_cancel tid l = queueInLoop False (CancelTimer tid) l"

text \<open>The state: the timers, the loop with its queue of functors, the functors that were swapped out of
  the queue and are being run, for each other thread the timer whose number it is about to read, and
  the ids that were returned.\<close>

record 'cb timer_world =
  tqueue :: "'cb TimerQueue"
  tloop :: "timer_functor EventLoop"
  batch :: "timer_functor list"
  callers :: "nat \<Rightarrow> nat option"
  issued :: "TimerId set"

definition new_timer_world :: "bool \<Rightarrow> 'cb timer_world" where
  "new_timer_world garbage =
     \<lparr>tqueue = new_TimerQueue, tloop = new_EventLoop garbage, batch = [], callers = (\<lambda>_. None), issued = {}\<rparr>"

inductive timer_step ::
  "(rat \<Rightarrow> rat) \<Rightarrow> ((nat \<rightharpoonup> 'cb Timer) \<Rightarrow> nat option) \<Rightarrow> 'cb timer_world \<Rightarrow> 'cb timer_world \<Rightarrow> bool"
  for rnd alloc where
  other_adds: "callers w i = None \<Longrightarrow> post_addTimer alloc cb wh iv (tqueue w) (tloop w) = Inr (a, q, l) \<Longrightarrow>
    timer_step rnd alloc w (w\<lparr>tqueue := q, tloop := l, callers := (callers w)(i := Some a)\<rparr>)"
| other_returns: "callers w i = Some a \<Longrightarrow> timer_id (tqueue w) a = Inr tid \<Longrightarrow>
    timer_step rnd alloc w (w\<lparr>callers := (callers w)(i := None), issued := insert tid (issued w)\<rparr>)"
| other_cancels: "tid \<in> issued w \<Longrightarrow> timer_step rnd alloc w (w\<lparr>tloop := post_cancel tid (tloop w)\<rparr>)"
| swap: "batch w = [] \<Longrightarrow>
    timer_step rnd alloc w (w\<lparr>tloop := (tloop w)\<lparr>pendingFunctors := []\<rparr>, batch := pendingFunctors (tloop w)\<rparr>)"
| run: "batch w = f # fs \<Longrightarrow> run_functor now (tqueue w) f = Inr q \<Longrightarrow>
    timer_step rnd alloc w (w\<lparr>tqueue := q, batch := fs\<rparr>)"
| add: "addTimer alloc now (tqueue w) cb wh iv = Inr (tid, q) \<Longrightarrow>
    timer_step rnd alloc w (w\<lparr>tqueue := q, issued := insert tid (issued w)\<rparr>)"
| cancel: "tid \<in> issued w \<Longrightarrow> cancelInLoop (tqueue w) tid = Inr q \<Longrightarrow> timer_step rnd alloc w (w\<lparr>tqueue := q\<rparr>)"
| expire: "tq_handleRead rnd script alloc clk now (tqueue w) = Inr q \<Longrightarrow> timer_step rnd alloc w (w\<lparr>tqueue := q\<rparr>)"

inductive timer_reach ::
  "(rat \<Rightarrow> rat) \<Rightarrow> ((nat \<rightharpoonup> 'cb Timer) \<Rightarrow> nat option) \<Rightarrow> 'cb timer_world \<Rightarrow> bool"
  for rnd alloc where
  init: "timer_reach rnd alloc (new_timer_world garbage)"
| step: "timer_reach rnd alloc w \<Longrightarrow> timer_step rnd alloc w w' \<Longrightarrow> timer_reach rnd alloc w'"

text \<open>The functors in flight, in the order in which they run, and the timers they will insert.\<close>

definition in_flight :: "'cb timer_world \<Rightarrow> timer_functor list" where
  "in_flight w = batch w @ pendingFunctors (tloop w)"

fun adds :: "timer_functor list \<Rightarrow> nat list" where
  "adds [] = []"
| "adds (AddTimer a # fs) = a # adds fs"
| "adds (CancelTimer _ # fs) = adds fs"

lemma adds_append [simp]: "adds (fs @ gs) = adds fs @ adds gs"
  by (induction fs rule: adds.induct) simp_all

lemma set_adds: "a \<in> set (adds fs) \<longleftrightarrow> AddTimer a \<in> set fs"
  by (induction fs rule: adds.induct) auto

subsection \<open>An expiry round beside timers in flight\<close>

lemma off_queue_append:
  "off_queue q (as @ bs) \<longleftrightarrow> off_queue q as \<and> off_queue q bs \<and> set as \<inter> set bs = {}"
  by (auto simp: off_queue_def)

lemma tq_handleRead_frame:
  assumes q: "tq_ok q" "off_queue q as" "no_leak q as" and al: "allocator_ok alloc"
  shows "tq_handleRead rnd script alloc clk now q = Inl BadAlloc \<or>
    (\<exists>q'. tq_handleRead rnd script alloc clk now q = Inr q' \<and> tq_ok q' \<and> off_queue q' as \<and> no_leak q' as \<and>
       \<not> callingExpiredTimers q')"
proof -
  let ?ex = "filter (\<lambda>e. fst e \<le> now) (timers q)" and ?re = "filter (\<lambda>e. \<not> fst e \<le> now) (timers q)"
  obtain q0 where g: "getExpired q now = Inr (?ex, q0)"
    "tq_ok (q0\<lparr>callingExpiredTimers := True, cancelingTimers := []\<rparr>)"
    "off_queue (q0\<lparr>callingExpiredTimers := True, cancelingTimers := []\<rparr>) (map snd ?ex)"
    "heap q0 = heap q" "timers q0 = ?re"
    using getExpired_start [OF q(1), of now] by blast
  let ?q1 = "q0\<lparr>callingExpiredTimers := True, cancelingTimers := []\<rparr>"
  have dis: "set (map snd ?ex) \<inter> set as = {}" using q(2) by (auto simp: off_queue_def)
  have o1: "off_queue ?q1 (map snd ?ex @ as)"
    using g(3-5) q(2) dis unfolding off_queue_append by (auto simp: off_queue_def)
  have "snd ` set ?re \<union> snd ` set ?ex = snd ` set (timers q)" by auto
  then have n1: "no_leak ?q1 (map snd ?ex @ as)" using g(4,5) q(3) by (auto simp: no_leak_def)
  have sub: "snd ` set ?ex \<subseteq> set (map snd ?ex @ as)" by auto
  note run = run_expired_ok [OF g(2) o1 al sub, where script = script and clk = clk]
  show ?thesis
  proof (cases "run_expired script alloc clk ?ex ?q1")
    case (Inl e)
    then show ?thesis using run g(1) by (auto simp: tq_handleRead_def)
  next
    case (Inr q2)
    then have k: "keeps (map snd ?ex @ as) ?q1 q2" using run by simp
    let ?q2 = "q2\<lparr>callingExpiredTimers := False\<rparr>"
    have 2: "tq_ok ?q2" "off_queue ?q2 (map snd ?ex @ as)" "no_leak ?q2 (map snd ?ex @ as)"
      using k n1 by (simp_all add: keeps_def tq_ok_def off_queue_def no_leak_def)
    then have o2: "off_queue ?q2 (map snd ?ex)" "off_queue ?q2 as" by (simp_all add: off_queue_append)
    obtain q' where q': "tq_reset rnd clk ?q2 ?ex now = Inr q'" "tq_ok q'"
      "\<forall>a. heap q' a = (if a \<in> snd ` set ?ex then reset_obj rnd now ?q2 a else heap ?q2 a)"
      "set (timers q') = set (timers ?q2) \<union>
        {(expiration t, a) | t a. a \<in> snd ` set ?ex \<and> reset_obj rnd now ?q2 a = Some t}"
      "\<not> callingExpiredTimers q'"
      using tq_reset_ok [OF 2(1) o2(1), of rnd clk now] by auto
    have tm: "a \<in> snd ` set (timers q') \<longleftrightarrow>
        a \<in> snd ` set (timers ?q2) \<or> a \<in> snd ` set ?ex \<and> reset_obj rnd now ?q2 a \<noteq> None" for a
      unfolding q'(4) image_Un by force
    have "off_queue q' as"
      using o2(2) dis q'(3) tm by (auto simp: off_queue_def dom_def)
    moreover have "a \<in> dom (heap q') \<longleftrightarrow> a \<in> snd ` set (timers q') \<or> a \<in> set as" for a
    proof (cases "a \<in> snd ` set ?ex")
      case True
      then have "a \<in> set (map snd ?ex)" by simp
      then have "a \<notin> snd ` set (timers ?q2)" "a \<notin> set as" using o2(1) dis unfolding off_queue_def by blast+
      then show ?thesis using True q'(3) tm [of a] by (simp add: dom_def)
    next
      case False
      then have "a \<in> dom (heap q') \<longleftrightarrow> a \<in> dom (heap ?q2)" using q'(3) by (simp add: dom_def)
      then show ?thesis using False tm [of a] 2(3) by (auto simp: no_leak_def)
    qed
    ultimately have "off_queue q' as" "no_leak q' as" by (auto simp: no_leak_def)
    then show ?thesis using g(1) Inr q' by (simp add: tq_handleRead_def)
  qed
qed

subsection \<open>Sequence numbers are not used twice\<close>

text \<open>Every timer of the later queue was there before, under its address and number, or has a number
  that was given out in between.\<close>

definition evolves :: "'cb TimerQueue \<Rightarrow> 'cb TimerQueue \<Rightarrow> bool" where
  "evolves q q' \<longleftrightarrow> numCreated q \<le> numCreated q' \<and>
     (\<forall>a t'. heap q' a = Some t' \<longrightarrow>
        (\<exists>t. heap q a = Some t \<and> sequence t = sequence t') \<or> numCreated q < sequence t' \<and> sequence t' \<le> numCreated q')"

lemma evolves_refl: "numCreated q' = numCreated q \<Longrightarrow> heap q' = heap q \<Longrightarrow> evolves q q'"
  by (simp add: evolves_def)

lemma evolves_trans:
  assumes "evolves q q1" "evolves q1 q2"
  shows "evolves q q2"
proof -
  have "(\<exists>t. heap q a = Some t \<and> sequence t = sequence t2) \<or> numCreated q < sequence t2 \<and> sequence t2 \<le> numCreated q2"
    if "heap q2 a = Some t2" for a t2
  proof -
    consider t1 where "heap q1 a = Some t1" "sequence t1 = sequence t2" | "numCreated q1 < sequence t2" "sequence t2 \<le> numCreated q2"
      using assms(2) \<open>heap q2 a = Some t2\<close> unfolding evolves_def by blast
    then show ?thesis
    proof cases
      case 1
      then show ?thesis using assms unfolding evolves_def by (metis order_trans)
    next
      case 2
      then show ?thesis using assms(1) by (simp add: evolves_def)
    qed
  qed
  then show ?thesis using assms by (auto simp: evolves_def)
qed

lemma evolves_free: "evolves q (q\<lparr>heap := (heap q)(a := None)\<rparr>)"
  by (simp add: evolves_def)

lemma tq_insert_evolves: "tq_insert q a = Inr (ec, q') \<Longrightarrow> evolves q q'"
  by (intro evolves_refl)
    (auto simp: tq_insert_def deref_def ensure_def oset_insert_def Let_def split: option.splits if_splits)

lemma addTimerInLoop_evolves:
  assumes "addTimerInLoop now q a = Inr q'"
  shows "evolves q q'"
proof -
  obtain ec q1 where 1: "tq_insert q a = Inr (ec, q1)" "heap q' = heap q1" "numCreated q' = numCreated q1"
    using assms by (auto simp: addTimerInLoop_def rbind_def deref_def resetTimerfd_def split: sum.splits if_splits option.splits)
  then show ?thesis using evolves_trans [OF tq_insert_evolves [OF 1(1)]] evolves_refl by blast
qed

lemma evolves_new:
  "evolves q (q\<lparr>heap := (heap q)(a \<mapsto> new_Timer cb w iv (numCreated q)), numCreated := numCreated q + 1\<rparr>)"
  by (simp add: evolves_def new_Timer_def)

lemma addTimer_evolves:
  assumes "addTimer alloc now q cb w iv = Inr (tid, q')"
  shows "evolves q q' \<and> snd tid = numCreated q + 1 \<and> numCreated q < numCreated q'"
proof -
  obtain a where a: "alloc (heap q) = Some a" using assms by (auto simp: addTimer_def split: option.splits)
  let ?q1 = "q\<lparr>heap := (heap q)(a \<mapsto> new_Timer cb w iv (numCreated q)), numCreated := numCreated q + 1\<rparr>"
  have 1: "addTimerInLoop now ?q1 a = Inr q'" "snd tid = numCreated q + 1"
    using assms a by (auto simp: addTimer_def new_Timer_def rbind_def Let_def split: sum.splits)
  have e: "evolves ?q1 q'" using 1(1) by (rule addTimerInLoop_evolves)
  then have "numCreated q < numCreated q'" by (simp add: evolves_def)
  then show ?thesis using evolves_trans [OF evolves_new e] 1(2) by blast
qed

lemma cancelInLoop_evolves: "cancelInLoop q tid = Inr q' \<Longrightarrow> evolves q q'"
  by (auto simp: cancelInLoop_def rbind_def deref_def ensure_def oset_erase_def evolves_def
      split: sum.splits option.splits if_splits)

lemma run_calls_evolves: "run_calls alloc clk cs q = Inr q' \<Longrightarrow> evolves q q'"
proof (induction alloc clk cs q arbitrary: q' rule: run_calls.induct)
  case (1 alloc clk q)
  then show ?case by (simp add: evolves_refl)
next
  case (2 alloc clk cb wh iv cs q)
  then obtain tid q1 where q1: "addTimer alloc (clk q) q cb wh iv = Inr (tid, q1)" "run_calls alloc clk cs q1 = Inr q'"
    by (auto simp: rbind_def split: sum.splits)
  have "evolves q1 q'" using q1(2) by (rule 2(1))
  then show ?case using addTimer_evolves [OF q1(1)] evolves_trans by blast
next
  case (3 alloc clk tid cs q)
  then obtain q1 where "cancelInLoop q tid = Inr q1" "run_calls alloc clk cs q1 = Inr q'"
    by (auto simp: rbind_def split: sum.splits)
  then show ?case using 3(1) cancelInLoop_evolves evolves_trans by blast
qed

lemma run_expired_evolves: "run_expired script alloc clk es q = Inr q' \<Longrightarrow> evolves q q'"
proof (induction es arbitrary: q)
  case (Cons e es)
  obtain w a where e: "e = (w, a)" by (cases e)
  obtain t where t: "heap q a = Some t" using Cons.prems e by (auto simp: deref_def split: option.splits)
  obtain q1 where q1: "run_calls alloc clk (script (callback t) q) q = Inr q1" "run_expired script alloc clk es q1 = Inr q'"
    using Cons.prems e t by (auto simp: rbind_def split: sum.splits)
  show ?case by (rule evolves_trans [OF run_calls_evolves [OF q1(1)] Cons.IH [OF q1(2)]])
qed (simp add: evolves_refl)

lemma reset_each_evolves: "reset_each rnd now es q = Inr q' \<Longrightarrow> evolves q q'"
proof (induction es arbitrary: q)
  case (Cons e es)
  obtain w a where e: "e = (w, a)" by (cases e)
  obtain t where t: "heap q a = Some t" using Cons.prems e by (auto simp: deref_def split: option.splits)
  show ?case
  proof (cases "repeat t \<and> (a, sequence t) \<notin> set (cancelingTimers q)")
    case True
    let ?q1 = "q\<lparr>heap := (heap q)(a \<mapsto> Timer_restart rnd t now)\<rparr>"
    obtain ec q2 where q2: "tq_insert ?q1 a = Inr (ec, q2)" "reset_each rnd now es q2 = Inr q'"
      using Cons.prems e t True by (auto simp: rbind_def split: sum.splits)
    have "evolves q ?q1" using t by (simp add: evolves_def Timer_restart_def)
    then show ?thesis using evolves_trans tq_insert_evolves [OF q2(1)] Cons.IH [OF q2(2)] by blast
  next
    case False
    then have "reset_each rnd now es (q\<lparr>heap := (heap q)(a := None)\<rparr>) = Inr q'" using Cons.prems e t by auto
    then show ?thesis using Cons.IH evolves_trans evolves_free by blast
  qed
qed (simp add: evolves_refl)

lemma tq_handleRead_evolves:
  assumes "tq_handleRead rnd script alloc clk now q = Inr q'"
  shows "evolves q q'"
proof -
  obtain ex q1 q2 where 1: "getExpired q now = Inr (ex, q1)"
      "run_expired script alloc clk ex (q1\<lparr>callingExpiredTimers := True, cancelingTimers := []\<rparr>) = Inr q2"
      "tq_reset rnd clk (q2\<lparr>callingExpiredTimers := False\<rparr>) ex now = Inr q'"
    using assms by (auto simp: tq_handleRead_def rbind_def split: sum.splits)
  obtain q3 where 3: "reset_each rnd now ex (q2\<lparr>callingExpiredTimers := False\<rparr>) = Inr q3"
      "heap q' = heap q3" "numCreated q' = numCreated q3"
    using 1(3) by (auto simp: tq_reset_def rbind_def resetTimerfd_def deref_def split: sum.splits if_splits)
  have "heap q1 = heap q \<and> numCreated q1 = numCreated q"
  proof -
    have "erase_active es p = Inr p' \<Longrightarrow> heap p' = heap p \<and> numCreated p' = numCreated p" for es and p p' :: "'a TimerQueue"
    proof (induction es arbitrary: p)
      case (Cons e es)
      then show ?case by (cases e) (fastforce simp: deref_def ensure_def oset_erase_def split: option.splits if_splits)
    qed simp
    then show ?thesis using 1(1)
      by (auto simp: getExpired_def rbind_def ensure_def Let_def split: sum.splits if_splits)
  qed
  then have "evolves q (q1\<lparr>callingExpiredTimers := True, cancelingTimers := []\<rparr>)" by (intro evolves_refl) simp_all
  moreover have "evolves q2 (q2\<lparr>callingExpiredTimers := False\<rparr>)" "evolves q3 q'" using 3 by (simp_all add: evolves_refl)
  ultimately show ?thesis
    using run_expired_evolves [OF 1(2)] reset_each_evolves [OF 3(1)] evolves_trans by blast
qed

subsection \<open>The invariant\<close>

text \<open>\<open>dead tid q\<close>: the timer that was given the id \<open>tid\<close> is freed, and the id will not be given again.
  \<open>ordered\<close>: behind a cancellation in flight there is no insertion of the same timer.\<close>

definition dead :: "TimerId \<Rightarrow> 'cb TimerQueue \<Rightarrow> bool" where
  "dead tid q \<longleftrightarrow> snd tid \<le> numCreated q \<and> (\<forall>t. heap q (fst tid) = Some t \<longrightarrow> sequence t \<noteq> snd tid)"

definition apart :: "'cb TimerQueue \<Rightarrow> timer_functor \<Rightarrow> timer_functor \<Rightarrow> bool" where
  "apart q f g \<longleftrightarrow> (\<forall>tid b t. f = CancelTimer tid \<longrightarrow> g = AddTimer b \<longrightarrow> heap q b = Some t \<longrightarrow> (b, sequence t) \<noteq> tid)"

definition timer_inv :: "'cb timer_world \<Rightarrow> bool" where
  "timer_inv w \<longleftrightarrow>
     tq_ok (tqueue w) \<and> off_queue (tqueue w) (adds (in_flight w)) \<and> no_leak (tqueue w) (adds (in_flight w)) \<and>
     \<not> callingExpiredTimers (tqueue w) \<and>
     (\<forall>a t. heap (tqueue w) a = Some t \<longrightarrow> sequence t \<le> numCreated (tqueue w)) \<and>
     (\<forall>tid \<in> issued w. snd tid \<le> numCreated (tqueue w)) \<and>
     (\<forall>tid. CancelTimer tid \<in> set (in_flight w) \<longrightarrow> snd tid \<le> numCreated (tqueue w)) \<and>
     sorted_wrt (apart (tqueue w)) (in_flight w)"

lemma timer_invD:
  assumes "timer_inv w"
  shows "tq_ok (tqueue w)" "off_queue (tqueue w) (adds (in_flight w))" "no_leak (tqueue w) (adds (in_flight w))"
    "\<not> callingExpiredTimers (tqueue w)" "heap (tqueue w) a = Some t \<Longrightarrow> sequence t \<le> numCreated (tqueue w)"
    "tid \<in> issued w \<Longrightarrow> snd tid \<le> numCreated (tqueue w)"
    "CancelTimer tid \<in> set (in_flight w) \<Longrightarrow> snd tid \<le> numCreated (tqueue w)"
    "sorted_wrt (apart (tqueue w)) (in_flight w)"
  using assms unfolding timer_inv_def by blast+

lemma dead_evolves: "dead tid q \<Longrightarrow> evolves q q' \<Longrightarrow> dead tid q'"
  unfolding dead_def evolves_def by (metis order_trans not_le)

lemma apart_evolves:
  assumes "apart q f g" "evolves q q'" "\<And>tid. f = CancelTimer tid \<Longrightarrow> snd tid \<le> numCreated q"
  shows "apart q' f g"
  unfolding apart_def
proof (intro allI impI)
  fix tid b t'
  assume f: "f = CancelTimer tid" and g: "g = AddTimer b" and t': "heap q' b = Some t'"
  consider t where "heap q b = Some t" "sequence t = sequence t'" | "numCreated q < sequence t'"
    using assms(2) t' unfolding evolves_def by blast
  then show "(b, sequence t') \<noteq> tid"
  proof cases
    case 1
    then show ?thesis using assms(1) f g unfolding apart_def by metis
  next
    case 2
    then show ?thesis using assms(3) [OF f] by auto
  qed
qed

text \<open>A step of the timer queue beside the functors \<open>fs\<close> in flight keeps the invariant, whatever is
  left of the old ones and whatever ids were returned meanwhile.\<close>

lemma timer_inv_evolves:
  assumes w: "timer_inv w" and e: "evolves (tqueue w) (tqueue w')"
    and q: "tq_ok (tqueue w')" "off_queue (tqueue w') (adds (in_flight w'))" "no_leak (tqueue w') (adds (in_flight w'))"
    "\<not> callingExpiredTimers (tqueue w')"
    and fl: "in_flight w = gs @ in_flight w'"
    and i: "\<forall>tid \<in> issued w'. tid \<in> issued w \<or> snd tid \<le> numCreated (tqueue w')"
  shows "timer_inv w'"
proof -
  have num: "numCreated (tqueue w) \<le> numCreated (tqueue w')" using e by (simp add: evolves_def)
  have c: "snd tid \<le> numCreated (tqueue w)" if "CancelTimer tid \<in> set (in_flight w')" for tid
    using that fl timer_invD(7) [OF w, of tid] by simp
  have "sorted_wrt (apart (tqueue w)) (in_flight w')" using timer_invD(8) [OF w] fl by (simp add: sorted_wrt_append)
  then have "sorted_wrt (apart (tqueue w')) (in_flight w')"
    by (rule sorted_wrt_mono_rel [rotated]) (use apart_evolves [OF _ e] c in blast)
  moreover have "sequence t \<le> numCreated (tqueue w')" if "heap (tqueue w') a = Some t" for a t
    using that e timer_invD(5) [OF w] num unfolding evolves_def by (metis order_trans)
  moreover have "snd tid \<le> numCreated (tqueue w')" if "tid \<in> issued w'" for tid
    using that i timer_invD(6) [OF w, of tid] num by fastforce
  moreover have "snd tid \<le> numCreated (tqueue w')" if "CancelTimer tid \<in> set (in_flight w')" for tid
    using c [OF that] num by simp
  ultimately show ?thesis using q by (simp add: timer_inv_def)
qed

lemma new_timer_world_inv: "timer_inv (new_timer_world garbage)"
  by (simp add: timer_inv_def new_timer_world_def in_flight_def new_EventLoop_def no_leak_def)
    (simp add: new_TimerQueue_def)

lemma queueInLoop_flight: "pendingFunctors (queueInLoop False f l) = pendingFunctors l @ [f]"
  by (simp add: queueInLoop_def wakeup_def)

lemma other_adds_inv:
  assumes w: "timer_inv w" and al: "allocator_ok alloc"
    and p: "post_addTimer alloc cb wh iv (tqueue w) (tloop w) = Inr (a, q, l)"
  shows "timer_inv (w\<lparr>tqueue := q, tloop := l, callers := c\<rparr>)"
proof -
  let ?t = "new_Timer cb wh iv (numCreated (tqueue w))" and ?w = "w\<lparr>tqueue := q, tloop := l, callers := c\<rparr>"
  have a: "heap (tqueue w) a = None" "a < UINTPTR_MAX"
    and q: "q = (tqueue w)\<lparr>heap := (heap (tqueue w))(a \<mapsto> ?t), numCreated := numCreated (tqueue w) + 1\<rparr>"
    and l: "l = queueInLoop False (AddTimer a) (tloop w)"
    using p al by (auto simp: post_addTimer_def allocator_ok_def Let_def split: option.splits)
  have fl: "in_flight ?w = in_flight w @ [AddTimer a]" using l by (simp add: in_flight_def queueInLoop_flight)
  have off: "a \<notin> snd ` set (timers (tqueue w))" using a(1) tq_okD(3) [OF timer_invD(1) [OF w]] by force
  have "tq_ok ((tqueue w)\<lparr>heap := (heap (tqueue w))(a \<mapsto> ?t)\<rparr>)"
    using timer_invD(1) [OF w] off a(2) by (rule tq_ok_heap_update)
  then have ok: "tq_ok q" using q by (simp add: tq_ok_def)
  have e: "evolves (tqueue w) q" using q evolves_new by simp
  have "off_queue q (adds (in_flight w) @ [a])"
    using timer_invD(2) [OF w] off a q by (auto simp: off_queue_def)
  moreover have "no_leak q (adds (in_flight w) @ [a])" using timer_invD(3) [OF w] q by (auto simp: no_leak_def)
  moreover have "sorted_wrt (apart q) (in_flight w)"
    using timer_invD(8) [OF w]
    by (rule sorted_wrt_mono_rel [rotated]) (use apart_evolves [OF _ e] timer_invD(7) [OF w] in blast)
  moreover have "apart q f (AddTimer a)" if "f \<in> set (in_flight w)" for f
    using that timer_invD(7) [OF w] q by (fastforce simp: apart_def new_Timer_def)
  moreover have "\<not> callingExpiredTimers q" using timer_invD(4) [OF w] q by simp
  moreover have "sequence t \<le> numCreated q" if "heap q b = Some t" for b t
    using that timer_invD(5) [OF w, of b t] q by (auto simp: new_Timer_def split: if_splits)
  moreover have "\<forall>tid \<in> issued w. snd tid \<le> numCreated q"
    using timer_invD(6) [OF w] q by fastforce
  moreover have "snd tid \<le> numCreated q" if "CancelTimer tid \<in> set (in_flight w)" for tid
    using timer_invD(7) [OF w that] q by simp
  ultimately show ?thesis using ok unfolding timer_inv_def fl by (simp add: sorted_wrt_append)
qed

lemma other_cancels_inv:
  assumes w: "timer_inv w" and tid: "tid \<in> issued w"
  shows "timer_inv (w\<lparr>tloop := post_cancel tid (tloop w)\<rparr>)"
proof -
  let ?w = "w\<lparr>tloop := post_cancel tid (tloop w)\<rparr>"
  have fl: "in_flight ?w = in_flight w @ [CancelTimer tid]" by (simp add: in_flight_def post_cancel_def queueInLoop_flight)
  have "apart (tqueue w) f (CancelTimer tid)" for f by (simp add: apart_def)
  then show ?thesis
    using w timer_invD(6) [OF w tid] unfolding timer_inv_def fl by (auto simp: sorted_wrt_append)
qed

text \<open>The two functors: after an insertion the timer is queued, after a cancellation it is dead.\<close>

lemma run_add:
  assumes q: "tq_ok (tqueue w)" and o: "off_queue (tqueue w) (a # as)" "no_leak (tqueue w) (a # as)"
  shows "\<exists>q. addTimerInLoop now (tqueue w) a = Inr q \<and> tq_ok q \<and> off_queue q as \<and> no_leak q as \<and>
    callingExpiredTimers q = callingExpiredTimers (tqueue w)"
proof -
  obtain t where t: "heap (tqueue w) a = Some t" and n: "a \<notin> snd ` set (timers (tqueue w))"
    using o(1) by (auto simp: off_queue_def)
  obtain q where q: "addTimerInLoop now (tqueue w) a = Inr q" "tq_ok q" "heap q = heap (tqueue w)"
    "set (timers q) = insert (expiration t, a) (set (timers (tqueue w)))"
    "callingExpiredTimers q = callingExpiredTimers (tqueue w)"
    using addTimerInLoop_ok [OF q t n] by blast
  have "off_queue q as" using o(1) q(3,4) unfolding off_queue_def by auto
  moreover have "no_leak q as" using o(2) q(3,4) unfolding no_leak_def by auto
  ultimately show ?thesis using q by blast
qed

lemma idle_timer_waits:
  assumes "tq_ok q" "no_leak q as" "heap q a = Some t" "(a, sequence t) \<notin> set (activeTimers q)"
  shows "a \<in> set as"
proof -
  have "a \<notin> snd ` set (timers q)"
  proof
    assume "a \<in> snd ` set (timers q)"
    then obtain wh where "(wh, a) \<in> set (timers q)" by force
    then show False using tq_okD(3) [OF assms(1)] assms(3,4) by fastforce
  qed
  moreover have "a \<in> dom (heap q)" using assms(3) by blast
  ultimately show ?thesis using assms(2) unfolding no_leak_def by blast
qed

lemma run_cancel_dead:
  assumes q: "tq_ok q" "\<not> callingExpiredTimers q" "no_leak q (adds fs)" "cancelInLoop q tid = Inr q'"
    and tid: "snd tid \<le> numCreated q" "\<forall>g \<in> set fs. apart q (CancelTimer tid) g"
  shows "dead tid q'"
proof (cases "tid \<in> set (activeTimers q)")
  case True
  then have "heap q' (fst tid) = None" using cancelInLoop_active [OF q(1), of "fst tid" "snd tid"] q(4) by auto
  then show ?thesis using tid(1) cancelInLoop_evolves [OF q(4)] by (simp add: dead_def evolves_def)
next
  case False
  then have "q' = q" using cancelInLoop_inactive [OF q(1) False] q(2,4) by simp
  moreover have "sequence t \<noteq> snd tid" if t: "heap q (fst tid) = Some t" for t
  proof
    assume s: "sequence t = snd tid"
    then have "AddTimer (fst tid) \<in> set fs" using idle_timer_waits [OF q(1,3) t] False set_adds by simp
    then have "apart q (CancelTimer tid) (AddTimer (fst tid))" using tid(2) by blast
    then show False using t s by (cases tid) (simp add: apart_def)
  qed
  ultimately show ?thesis using tid(1) by (simp add: dead_def)
qed

lemma run_inv:
  assumes w: "timer_inv w" and b: "batch w = f # fs"
  shows "\<exists>q. run_functor now (tqueue w) f = Inr q \<and> timer_inv (w\<lparr>tqueue := q, batch := fs\<rparr>) \<and>
    (\<forall>tid. f = CancelTimer tid \<longrightarrow> dead tid q)"
proof -
  note i = timer_invD [OF w]
  have fl: "in_flight w = f # (fs @ pendingFunctors (tloop w))" using b by (simp add: in_flight_def)
  let ?rest = "fs @ pendingFunctors (tloop w)"
  have rest: "in_flight (w\<lparr>tqueue := q, batch := fs\<rparr>) = ?rest" for q by (simp add: in_flight_def)
  have keep: "timer_inv (w\<lparr>tqueue := q, batch := fs\<rparr>)"
    if "evolves (tqueue w) q" "tq_ok q" "off_queue q (adds ?rest)" "no_leak q (adds ?rest)" "\<not> callingExpiredTimers q" for q
    by (rule timer_inv_evolves [OF w, where gs = "[f]"]) (use that fl in \<open>simp_all add: rest del: adds_append\<close>)
  show ?thesis
  proof (cases f)
    case (AddTimer a)
    have o: "off_queue (tqueue w) (a # adds ?rest)" "no_leak (tqueue w) (a # adds ?rest)"
      using i(2,3) unfolding fl AddTimer adds.simps .
    obtain q where q: "addTimerInLoop now (tqueue w) a = Inr q" "tq_ok q" "off_queue q (adds ?rest)"
        "no_leak q (adds ?rest)" "callingExpiredTimers q = callingExpiredTimers (tqueue w)"
      using run_add [OF i(1) o] by blast
    have "timer_inv (w\<lparr>tqueue := q, batch := fs\<rparr>)"
      using keep [OF addTimerInLoop_evolves [OF q(1)] q(2-4)] q(5) i(4) by simp
    then show ?thesis using q(1) AddTimer by simp
  next
    case (CancelTimer tid)
    have o: "off_queue (tqueue w) (adds ?rest)" "no_leak (tqueue w) (adds ?rest)"
      using i(2,3) unfolding fl CancelTimer adds.simps .
    obtain q where q: "cancelInLoop (tqueue w) tid = Inr q" "keeps (adds ?rest) (tqueue w) q"
      using cancelInLoop_keeps [OF i(1) o(1)] by blast
    have "snd tid \<le> numCreated (tqueue w)" using i(7) [of tid] fl CancelTimer by simp
    then have "dead tid q"
      using run_cancel_dead [OF i(1) i(4) o(2) q(1)] i(8) fl CancelTimer by simp
    moreover have "timer_inv (w\<lparr>tqueue := q, batch := fs\<rparr>)"
      using q(2) o(2) i(4) unfolding keeps_def by (intro keep [OF cancelInLoop_evolves [OF q(1)]]) blast+
    ultimately show ?thesis using q(1) CancelTimer by simp
  qed
qed

lemma timer_step_inv:
  assumes "timer_step rnd alloc w w'" "timer_inv w" "allocator_ok alloc"
  shows "timer_inv w'"
  using assms(1,2)
proof cases
  case (other_adds i cb wh iv a q l)
  then show ?thesis using other_adds_inv [OF assms(2,3)] by simp
next
  case (other_returns i a tid)
  then have "snd tid \<le> numCreated (tqueue w)"
    using timer_invD(5) [OF assms(2)] by (auto simp: timer_id_def deref_def split: option.splits)
  then show ?thesis using assms(2) other_returns(1) by (auto simp: timer_inv_def in_flight_def)
next
  case (other_cancels tid)
  then show ?thesis using other_cancels_inv [OF assms(2)] by simp
next
  case swap
  then show ?thesis using assms(2) by (simp add: timer_inv_def in_flight_def)
next
  case (run f fs now q)
  then show ?thesis using run_inv [OF assms(2) run(2), of now] by auto
next
  case (add now cb wh iv tid q)
  note i = timer_invD [OF assms(2)]
  have k: "keeps (adds (in_flight w)) (tqueue w) q" using addTimer_keeps [OF i(1,2) assms(3) add(2)] by simp
  note e = addTimer_evolves [OF add(2)]
  show ?thesis unfolding add(1)
    by (rule timer_inv_evolves [OF assms(2), where gs = "[]"])
      (use e k i(3,4) in \<open>auto simp: keeps_def in_flight_def\<close>)
next
  case (cancel tid q)
  note i = timer_invD [OF assms(2)]
  have k: "keeps (adds (in_flight w)) (tqueue w) q" using cancelInLoop_keeps [OF i(1,2), of tid] cancel(3) by auto
  show ?thesis unfolding cancel(1)
    by (rule timer_inv_evolves [OF assms(2), where gs = "[]"])
      (use cancelInLoop_evolves [OF cancel(3)] k i(3,4) in \<open>auto simp: keeps_def in_flight_def\<close>)
next
  case (expire script clk now q)
  note i = timer_invD [OF assms(2)]
  have "tq_ok q \<and> off_queue q (adds (in_flight w)) \<and> no_leak q (adds (in_flight w)) \<and> \<not> callingExpiredTimers q"
    using tq_handleRead_frame [OF i(1-3) assms(3), of rnd script clk now] expire(2) by auto
  then show ?thesis unfolding expire(1)
    by (intro timer_inv_evolves [OF assms(2), where gs = "[]"])
      (use tq_handleRead_evolves [OF expire(2)] in \<open>auto simp: in_flight_def\<close>)
qed

lemma timer_reach_inv: "timer_reach rnd alloc w \<Longrightarrow> allocator_ok alloc \<Longrightarrow> timer_inv w"
  by (induction rule: timer_reach.induct) (simp_all add: new_timer_world_inv timer_step_inv)

lemma timer_step_evolves: "timer_step rnd alloc w w' \<Longrightarrow> evolves (tqueue w) (tqueue w')"
proof (induction rule: timer_step.induct)
  case (other_adds w i cb wh iv a q l)
  then show ?case by (auto simp: post_addTimer_def evolves_new Let_def split: option.splits)
next
  case (run w f fs now q)
  then show ?case by (cases f) (auto dest: addTimerInLoop_evolves cancelInLoop_evolves)
qed (auto simp: evolves_refl dest: addTimer_evolves cancelInLoop_evolves tq_handleRead_evolves)

lemma dead_steps: "(timer_step rnd alloc)\<^sup>*\<^sup>* w w' \<Longrightarrow> dead tid (tqueue w) \<Longrightarrow> dead tid (tqueue w')"
  by (induction rule: rtranclp_induct) (auto dest: dead_evolves timer_step_evolves)

subsection \<open>Properties\<close>

text \<open>A cancellation in the thread of the loop acts at once and overtakes an insertion in flight: it is
  lost, and the timer is queued afterwards.\<close>

lemma early_cancel_lost:
  assumes "timer_reach rnd alloc w" "allocator_ok alloc" "AddTimer a \<in> set (in_flight w)"
    "heap (tqueue w) a = Some t"
  shows "cancelInLoop (tqueue w) (a, sequence t) = Inr (tqueue w)"
proof -
  note i = timer_invD [OF timer_reach_inv [OF assms(1,2)]]
  have "a \<in> set (adds (in_flight w))" using assms(3) by (simp add: set_adds)
  then have "a \<notin> snd ` set (timers (tqueue w))" using i(2) unfolding off_queue_def by blast
  then have "(a, sequence t) \<notin> set (activeTimers (tqueue w))" using tq_okD(4) [OF i(1), of a] by force
  then show ?thesis using cancelInLoop_inactive [OF i(1)] i(4) by simp
qed


text \<open>C17: A cancellation that another thread asked for is final: once the loop has run it, the timer is
  freed, and whatever all threads do afterwards, its id is not active, is not inserted by any functor
  in flight, and no timer that can expire bears it, although its address may be in use again.\<close>

theorem cancel_is_final:
  assumes "timer_reach rnd alloc w" "allocator_ok alloc" "batch w = CancelTimer tid # fs"
    "run_functor now (tqueue w) (CancelTimer tid) = Inr q"
    "(timer_step rnd alloc)\<^sup>*\<^sup>* (w\<lparr>tqueue := q, batch := fs\<rparr>) w'"
  shows "tid \<notin> set (activeTimers (tqueue w')) \<and>
    (\<forall>a t. heap (tqueue w') a = Some t \<longrightarrow> (a, sequence t) \<noteq> tid)"
proof -
  have "dead tid q" using run_inv [OF timer_reach_inv [OF assms(1,2)] assms(3), of now] assms(4) by auto
  then have d: "dead tid (tqueue w')" using dead_steps [OF assms(5)] by simp
  have st: "timer_step rnd alloc w (w\<lparr>tqueue := q, batch := fs\<rparr>)" using assms(3,4) by (rule timer_step.run)
  have "timer_reach rnd alloc w'"
    using assms(5) by (induction rule: rtranclp_induct) (auto intro: timer_reach.step [OF assms(1) st] timer_reach.step)
  then have ok: "tq_ok (tqueue w')" using timer_reach_inv assms(2) timer_invD(1) by blast
  have "\<forall>a t. heap (tqueue w') a = Some t \<longrightarrow> (a, sequence t) \<noteq> tid" using d by (auto simp: dead_def)
  then show ?thesis using tq_okD(4) [OF ok, of "fst tid" "snd tid"] by (cases tid) auto
qed

subsection \<open>An execution\<close>

text \<open>A thread adds a timer, and the loop inserts it and lets it expire before the thread has read its
  number: the number is read from a freed timer.\<close>

definition posted_queue :: "nat TimerQueue" where
  "posted_queue = new_TimerQueue\<lparr>heap := [1 \<mapsto> new_Timer 7 (Timestamp 5000) 0 0], numCreated := 1\<rparr>"

definition posted_world :: "nat timer_world" where
  "posted_world = (new_timer_world False)\<lparr>tqueue := posted_queue,
     tloop := queueInLoop False (AddTimer 1) (new_EventLoop False), callers := (\<lambda>_. None)(0 := Some 1)\<rparr>"

definition swapped_world :: "nat timer_world" where
  "swapped_world = posted_world\<lparr>tloop := (tloop posted_world)\<lparr>pendingFunctors := []\<rparr>, batch := [AddTimer 1]\<rparr>"

lemma posted_reach: "timer_reach rnd bump_alloc posted_world"
proof -
  have "bump_alloc (Map.empty :: nat \<rightharpoonup> nat Timer) = Some 1" by (simp add: bump_alloc_def upt_rec)
  then have "post_addTimer bump_alloc 7 (Timestamp 5000) 0 new_TimerQueue (new_EventLoop False) =
      Inr (1, posted_queue, queueInLoop False (AddTimer 1) (new_EventLoop False))"
    by (simp add: post_addTimer_def new_TimerQueue_def posted_queue_def)
  then have "timer_step rnd bump_alloc (new_timer_world False) posted_world"
    unfolding posted_world_def
    using timer_step.other_adds [of "new_timer_world False" 0 bump_alloc 7 "Timestamp 5000" 0 1 posted_queue
        "queueInLoop False (AddTimer 1) (new_EventLoop False)" rnd]
    by (simp add: new_timer_world_def)
  then show ?thesis using timer_reach.init timer_reach.step by blast
qed

lemma swapped_reach: "timer_reach rnd bump_alloc swapped_world"
proof -
  have p: "pendingFunctors (tloop posted_world) = [AddTimer 1]"
    by (simp add: posted_world_def queueInLoop_flight new_EventLoop_def)
  have "batch posted_world = []" by (simp add: posted_world_def new_timer_world_def)
  from timer_step.swap [OF this, of rnd bump_alloc] have "timer_step rnd bump_alloc posted_world swapped_world"
    by (simp add: swapped_world_def p)
  then show ?thesis using posted_reach timer_reach.step by blast
qed


definition inserted_queue :: "nat TimerQueue" where
  "inserted_queue = posted_queue\<lparr>timers := [(Timestamp 5000, 1)], activeTimers := [(1, 1)],
     timerfdSetting := Some (howMuchTimeFromNow (Timestamp 1000) (Timestamp 5000))\<rparr>"

lemma posted_insert: "addTimerInLoop (Timestamp 1000) posted_queue 1 = Inr inserted_queue"
  by (simp add: addTimerInLoop_def tq_insert_def posted_queue_def inserted_queue_def new_TimerQueue_def new_Timer_def
      sizes_agree_def oset_insert_def resetTimerfd_def)

lemma id_read_after_free:
  "\<exists>w :: nat timer_world. timer_reach id bump_alloc w \<and> callers w 0 = Some 1 \<and>
    timer_id (tqueue w) 1 = Inl (UndefinedBehaviour ''freed Timer'')"
proof -
  let ?h = "tq_handleRead id (\<lambda>_ _. []) bump_alloc (\<lambda>_. Timestamp 6000) (Timestamp 6000) inserted_queue"
  have "getExpired inserted_queue (Timestamp 6000) =
      Inr ([(Timestamp 5000, 1)], inserted_queue\<lparr>timers := [], activeTimers := []\<rparr>)"
    by (simp add: getExpired_def inserted_queue_def posted_queue_def new_TimerQueue_def new_Timer_def sizes_agree_def
        oset_below_def oset_from_def oset_erase_def less_prod_def less_eq_Timestamp_def less_Timestamp_def)
  then obtain q where q: "?h = Inr q" "heap q 1 = None"
    by (simp add: tq_handleRead_def tq_reset_def inserted_queue_def posted_queue_def new_TimerQueue_def new_Timer_def
        Timestamp_valid_def Timestamp_invalid_def)
  let ?w = "swapped_world\<lparr>tqueue := inserted_queue, batch := []\<rparr>"
  have t: "tqueue swapped_world = posted_queue" by (simp add: swapped_world_def posted_world_def)
  have "batch swapped_world = AddTimer 1 # []" by (simp add: swapped_world_def)
  then have "timer_step id bump_alloc swapped_world ?w"
    by (rule timer_step.run [where now = "Timestamp 1000"]) (use posted_insert in \<open>simp add: t\<close>)
  then have "timer_reach id bump_alloc ?w" using swapped_reach timer_reach.step by blast
  moreover have "timer_step id bump_alloc ?w (?w\<lparr>tqueue := q\<rparr>)"
    by (rule timer_step.expire [where script = "\<lambda>_ _. []" and clk = "\<lambda>_. Timestamp 6000" and now = "Timestamp 6000"])
      (simp add: q(1))
  ultimately have "timer_reach id bump_alloc (?w\<lparr>tqueue := q\<rparr>)" by (rule timer_reach.step)
  moreover have "callers (?w\<lparr>tqueue := q\<rparr>) 0 = Some 1" by (simp add: swapped_world_def posted_world_def)
  moreover have "timer_id (tqueue (?w\<lparr>tqueue := q\<rparr>)) 1 = Inl (UndefinedBehaviour ''freed Timer'')" using q(2) by (simp add: timer_id_def deref_def)
  ultimately show ?thesis by (intro exI conjI) assumption+
qed

text \<open>The same thread reads its number in time and cancels its timer before the loop has run anything:
  the two functors run in the order in which they were queued.\<close>

definition asked_world :: "nat timer_world" where
  "asked_world = posted_world\<lparr>callers := \<lambda>_. None, issued := {(1, 1)},
     tloop := post_cancel (1, 1) (tloop posted_world)\<rparr>"

definition cancel_world :: "nat timer_world" where
  "cancel_world = asked_world\<lparr>tloop := (tloop asked_world)\<lparr>pendingFunctors := []\<rparr>, tqueue := inserted_queue,
     batch := [CancelTimer (1, 1)]\<rparr>"

lemma asked_reach: "timer_reach rnd bump_alloc asked_world"
proof -
  let ?w = "posted_world\<lparr>callers := (callers posted_world)(0 := None), issued := insert (1, 1) (issued posted_world)\<rparr>"
  have "timer_step rnd bump_alloc posted_world ?w"
    by (rule timer_step.other_returns [where a = 1])
      (simp_all add: posted_world_def posted_queue_def timer_id_def deref_def new_Timer_def)
  then have 1: "timer_reach rnd bump_alloc ?w" using posted_reach timer_reach.step by blast
  have "timer_step rnd bump_alloc ?w (?w\<lparr>tloop := post_cancel (1, 1) (tloop ?w)\<rparr>)"
    by (rule timer_step.other_cancels) simp
  moreover have "?w\<lparr>tloop := post_cancel (1, 1) (tloop ?w)\<rparr> = asked_world"
    by (simp add: asked_world_def posted_world_def new_timer_world_def)
  ultimately show ?thesis using 1 timer_reach.step by metis
qed

lemma cancel_reach: "timer_reach rnd bump_alloc cancel_world"
proof -
  let ?w = "asked_world\<lparr>tloop := (tloop asked_world)\<lparr>pendingFunctors := []\<rparr>, batch := pendingFunctors (tloop asked_world)\<rparr>"
  have "timer_step rnd bump_alloc asked_world ?w"
    by (rule timer_step.swap) (simp add: asked_world_def posted_world_def new_timer_world_def)
  then have 1: "timer_reach rnd bump_alloc ?w" using asked_reach timer_reach.step by blast
  have "batch ?w = AddTimer 1 # [CancelTimer (1, 1)]"
    by (simp add: asked_world_def posted_world_def post_cancel_def queueInLoop_flight new_EventLoop_def)
  then have "timer_step rnd bump_alloc ?w (?w\<lparr>tqueue := inserted_queue, batch := [CancelTimer (1, 1)]\<rparr>)"
    by (rule timer_step.run [where now = "Timestamp 1000"])
      (use posted_insert in \<open>simp add: asked_world_def posted_world_def\<close>)
  moreover have "?w\<lparr>tqueue := inserted_queue, batch := [CancelTimer (1, 1)]\<rparr> = cancel_world"
    by (simp add: cancel_world_def)
  ultimately show ?thesis using 1 timer_reach.step by metis
qed

theorem cancel_is_final_witness:
  "\<exists>q. (1, 1) \<in> set (activeTimers (tqueue cancel_world)) \<and>
    run_functor (Timestamp 1000) (tqueue cancel_world) (CancelTimer (1, 1)) = Inr q \<and> (1, 1) \<notin> set (activeTimers q)"
proof -
  have b: "batch cancel_world = CancelTimer (1, 1) # []" by (simp add: cancel_world_def)
  have r: "timer_reach id bump_alloc cancel_world" by (rule cancel_reach)
  obtain q where q: "run_functor (Timestamp 1000) (tqueue cancel_world) (CancelTimer (1, 1)) = Inr q"
    using run_inv [OF timer_reach_inv [OF r bump_alloc_ok] b] by blast
  have "(timer_step id bump_alloc)\<^sup>*\<^sup>* (cancel_world\<lparr>tqueue := q, batch := []\<rparr>) (cancel_world\<lparr>tqueue := q, batch := []\<rparr>)" ..
  from cancel_is_final [OF r bump_alloc_ok b q this] q show ?thesis
    by (intro exI [of _ q]) (simp add: cancel_world_def inserted_queue_def)
qed

end
