(* ===== verification/Registry.thy ===== *)
theory Registry
  imports EPollPoller PollPoller
begin

section \<open>What a poller is: a registry of interests (src/src/Poller.h)\<close>

text \<open>
  The abstract class \<open>Poller\<close> has two implementations that keep very different data: a table in the
  kernel that is changed call by call, and an array that is handed over whole. What both promise to
  the owners of channels is a registry: for every channel its descriptor, whether it was ever
  registered, and the events it wants. The registry is the specification here; \<open>registry_step\<close>
  gives the effect of a call of an owner, and no effect where the call breaks the contract. Each
  poller refines it, so that the choice that \<open>newDefaultPoller\<close> makes does not show.
\<close>

datatype reg_state = Fresh | Registered mask | Unregistered

type_synonym registry = "nat \<rightharpoonup> int \<times> reg_state"

datatype owner_call = Create nat int | Apply channel_op nat | Remove nat | Delete nat

definition fd_free :: "int \<Rightarrow> registry \<Rightarrow> bool" where
  "fd_free f R \<longleftrightarrow> (\<forall>b ev. R b \<noteq> Some (f, Registered ev))"

fun registry_step :: "owner_call \<Rightarrow> registry \<Rightarrow> registry option" where
  "registry_step (Create a f) R = (if R a = None \<and> 0 \<le> f then Some (R(a \<mapsto> (f, Fresh))) else None)"
| "registry_step (Apply op a) R =
     (case R a of
        Some (f, Registered ev) \<Rightarrow> Some (R(a \<mapsto> (f, Registered (new_events op ev))))
      | Some (f, Fresh) \<Rightarrow>
          if new_events op 0 \<noteq> 0 \<and> fd_free f R then Some (R(a \<mapsto> (f, Registered (new_events op 0)))) else None
      | _ \<Rightarrow> None)"
| "registry_step (Remove a) R =
     (case R a of Some (f, Registered ev) \<Rightarrow> if ev = 0 then Some (R(a \<mapsto> (f, Unregistered))) else None | _ \<Rightarrow> None)"
| "registry_step (Delete a) R =
     (case R a of
        Some (f, Fresh) \<Rightarrow> Some (R(a := None))
      | Some (f, Unregistered) \<Rightarrow> Some (R(a := None))
      | _ \<Rightarrow> None)"

fun registry_run :: "owner_call list \<Rightarrow> registry \<Rightarrow> registry option" where
  "registry_run [] R = Some R"
| "registry_run (c # cs) R = (case registry_step c R of None \<Rightarrow> None | Some R1 \<Rightarrow> registry_run cs R1)"

text \<open>The same calls on a poller.\<close>

fun owner_exec ::
  "('p \<Rightarrow> 'cb store \<Rightarrow> nat \<Rightarrow> ('p \<times> 'cb store) res) \<Rightarrow> ('p \<Rightarrow> 'cb store \<Rightarrow> nat \<Rightarrow> ('p \<times> 'cb store) res) \<Rightarrow>
   ('p \<Rightarrow> 'cb store \<Rightarrow> nat \<Rightarrow> bool) \<Rightarrow> owner_call \<Rightarrow> 'p \<times> 'cb store \<Rightarrow> ('p \<times> 'cb store) res" where
  "owner_exec upd rem has (Create a f) (p, s) = Inr (p, s(a \<mapsto> new_Channel f))"
| "owner_exec upd rem has (Apply op a) (p, s) = channel_do upd op p s a"
| "owner_exec upd rem has (Remove a) (p, s) = channel_remove rem p s a"
| "owner_exec upd rem has (Delete a) (p, s) = rbind (delete_Channel has True p s a) (\<lambda>s'. Inr (p, s'))"

fun owner_run ::
  "('p \<Rightarrow> 'cb store \<Rightarrow> nat \<Rightarrow> ('p \<times> 'cb store) res) \<Rightarrow> ('p \<Rightarrow> 'cb store \<Rightarrow> nat \<Rightarrow> ('p \<times> 'cb store) res) \<Rightarrow>
   ('p \<Rightarrow> 'cb store \<Rightarrow> nat \<Rightarrow> bool) \<Rightarrow> owner_call list \<Rightarrow> 'p \<times> 'cb store \<Rightarrow> ('p \<times> 'cb store) res" where
  "owner_run upd rem has [] ps = Inr ps"
| "owner_run upd rem has (c # cs) ps = rbind (owner_exec upd rem has c ps) (owner_run upd rem has cs)"

text \<open>The registry as the owners see it, and what a poller and its channels show of it.\<close>

definition reg_view :: "registry \<Rightarrow> nat \<Rightarrow> (int \<times> mask option) option" where
  "reg_view R a = map_option (\<lambda>(f, r). (f, case r of Registered ev \<Rightarrow> Some ev | _ \<Rightarrow> None)) (R a)"

definition poller_view :: "('p \<Rightarrow> 'cb store \<Rightarrow> nat \<Rightarrow> bool) \<Rightarrow> 'p \<Rightarrow> 'cb store \<Rightarrow> nat \<Rightarrow> (int \<times> mask option) option" where
  "poller_view has p s a = map_option (\<lambda>c. (fd c, if has p s a then Some (events c) else None)) (s a)"

text \<open>What the operating system has to watch: the registered channels that want something.\<close>

definition reg_interest :: "registry \<Rightarrow> nat \<Rightarrow> mask option" where
  "reg_interest R a = (case R a of Some (f, Registered ev) \<Rightarrow> if ev = 0 then None else Some ev | _ \<Rightarrow> None)"

subsection \<open>The simulation\<close>

definition entry_sim :: "(int \<times> reg_state) option \<Rightarrow> bool \<Rightarrow> 'cb Channel option \<Rightarrow> bool" where
  "entry_sim e registered co \<longleftrightarrow>
     (case (e, co) of
        (None, None) \<Rightarrow> True
      | (Some (f, r), Some c) \<Rightarrow>
          fd c = f \<and>
          (case r of
             Fresh \<Rightarrow> \<not> registered \<and> index c = -1 \<and> events c = 0
           | Registered ev \<Rightarrow> registered \<and> events c = ev
           | Unregistered \<Rightarrow> \<not> registered)
      | _ \<Rightarrow> False)"

lemma entry_sim_None [simp]: "entry_sim None h co \<longleftrightarrow> co = None"
  by (simp add: entry_sim_def split: option.split)

lemma entry_sim_Some:
  "entry_sim (Some (f, r)) h co \<longleftrightarrow> (\<exists>c. co = Some c \<and> fd c = f \<and>
     (r = Fresh \<longrightarrow> \<not> h \<and> index c = -1 \<and> events c = 0) \<and> (\<forall>ev. r = Registered ev \<longrightarrow> h \<and> events c = ev) \<and>
     (r = Unregistered \<longrightarrow> \<not> h))"
  by (cases co) (auto simp: entry_sim_def split: reg_state.split)

context poller
begin

definition sim :: "registry \<Rightarrow> 'p \<Rightarrow> 'cb store \<Rightarrow> bool" where
  "sim R p s \<longleftrightarrow> good p s \<and> (\<forall>a. entry_sim (R a) (has p s a) (s a))"

lemma simD: "sim R p s \<Longrightarrow> good p s" "sim R p s \<Longrightarrow> entry_sim (R a) (has p s a) (s a)"
  by (simp_all add: sim_def)

lemma sim_init: "sim Map.empty init Map.empty"
  by (simp add: sim_def good_def inv_init)

text \<open>An entry of a channel that the call is not about.\<close>

lemma entry_sim_other:
  assumes "entry_sim e (has p s b) (s b)" "has p' s' b = has p s b" "\<not> has p s b \<longrightarrow> s' b = s b"
    "map_option (set_index 0) (s' b) = map_option (set_index 0) (s b)"
  shows "entry_sim e (has p' s' b) (s' b)"
proof (cases "has p s b")
  case True
  obtain f r c where e: "e = Some (f, r)" "s b = Some c" using assms(1) True has_alive [OF True]
    by (cases e) auto
  then obtain d where d: "s' b = Some d" "set_index 0 d = set_index 0 c" using assms(4) by auto
  show ?thesis using assms(1,2) True e d set_index_eqD [OF d(2)] by (auto simp: entry_sim_Some)
qed (use assms in simp)

lemma fd_free_owner:
  assumes "sim R p s" "fd_free f R" "has p s b" "s b = Some d"
  shows "fd d \<noteq> f"
proof
  assume f: "fd d = f"
  obtain g r where R: "R b = Some (g, r)" using simD(2) [OF assms(1), of b] assms(4) by (cases "R b") auto
  then have "g = f" "\<exists>ev. r = Registered ev"
    using simD(2) [OF assms(1), of b] assms(3,4) f by (cases r; auto simp: entry_sim_Some)+
  then show False using R assms(2) by (auto simp: fd_free_def)
qed

text \<open>One lemma per kind of call: an operation on the wanted events, a removal, and a change of the store alone.\<close>

lemma sim_update:
  assumes R: "sim R p s" and d: "s a = Some d" and m: "may_update has p s a (new_events op (events d))"
  shows "\<exists>p' s'. owner_exec updateChannel removeChannel has (Apply op a) (p, s) = Inr (p', s') \<and>
    sim (R(a \<mapsto> (fd d, Registered (new_events op (events d))))) p' s'"
proof -
  obtain p' s' where u: "channel_do updateChannel op p s a = Inr (p', s')" "good p' s'"
      "\<forall>b. has p' s' b \<longleftrightarrow> b = a \<or> has p s b"
      "same_but_index (s(a \<mapsto> (channel_apply op d)\<lparr>addedToLoop := True\<rparr>)) s'"
      "\<forall>b. b \<noteq> a \<longrightarrow> \<not> has p s b \<longrightarrow> s' b = s b"
    using channel_do_ok [OF simD(1) [OF R] d m] by blast
  have "entry_sim ((R(a \<mapsto> (fd d, Registered (new_events op (events d))))) b) (has p' s' b) (s' b)" for b
  proof (cases "b = a")
    case True
    then show ?thesis using u(3) same_but_indexD [OF u(4), of a] by (auto simp: entry_sim_Some channel_apply_def)
  next
    case False
    have "map_option (set_index 0) (s' b) = map_option (set_index 0) (s b)"
      using u(4) False by (simp add: same_but_index_def)
    then show ?thesis using entry_sim_other [OF simD(2) [OF R, of b]] u(3,5) False by auto
  qed
  then show ?thesis using u(1,2) by (auto simp: sim_def)
qed

lemma sim_remove:
  assumes R: "sim R p s" and r: "R a = Some (f, Registered 0)"
  shows "\<exists>p' s'. owner_exec updateChannel removeChannel has (Remove a) (p, s) = Inr (p', s') \<and>
    sim (R(a \<mapsto> (f, Unregistered))) p' s'"
proof -
  obtain d where d: "s a = Some d" "fd d = f" "events d = 0" "has p s a"
    using simD(2) [OF R, of a] r by (auto simp: entry_sim_Some)
  then have "may_remove has p s a" by (simp add: may_remove_def)
  then obtain p' s' where u: "channel_remove removeChannel p s a = Inr (p', s')" "good p' s'"
      "\<forall>b. has p' s' b \<longleftrightarrow> b \<noteq> a \<and> has p s b" "same_but_index (modify (\<lambda>c. c\<lparr>addedToLoop := False\<rparr>) a s) s'"
      "\<forall>b. b \<noteq> a \<longrightarrow> \<not> has p s b \<longrightarrow> s' b = s b"
    using channel_remove_ok [OF simD(1) [OF R]] by blast
  have "entry_sim ((R(a \<mapsto> (f, Unregistered))) b) (has p' s' b) (s' b)" for b
  proof (cases "b = a")
    case True
    then show ?thesis using u(3) d(1,2) same_but_indexD [OF u(4), of a] by (auto simp: entry_sim_Some)
  next
    case False
    have "map_option (set_index 0) (s' b) = map_option (set_index 0) (s b)"
      using u(4) False by (simp add: same_but_index_def)
    then show ?thesis using entry_sim_other [OF simD(2) [OF R, of b]] u(3,5) False by auto
  qed
  then show ?thesis using u(1,2) by (auto simp: sim_def)
qed

lemma sim_store:
  assumes R: "sim R p s" and a: "\<not> has p s a" "entry_sim w False v" "\<And>d. v = Some d \<Longrightarrow> channel_ok False d"
  shows "sim (R(a := w)) p (s(a := v))"
proof -
  note g = simD(1) [OF R]
  have h: "has p (s(a := v)) b = has p s b" for b using frame [OF goodD(1) [OF g] a(1)] by blast
  have "good p (s(a := v))" using g a(1,3) by (rule good_frame)
  moreover have "entry_sim ((R(a := w)) b) (has p (s(a := v)) b) ((s(a := v)) b)" for b
    using a(1,2) simD(2) [OF R, of b] unfolding h by simp
  ultimately show ?thesis by (simp add: sim_def)
qed

lemma sim_apply:
  assumes R: "sim R p s" and st: "registry_step (Apply op a) R = Some R'"
  shows "\<exists>p' s'. owner_exec updateChannel removeChannel has (Apply op a) (p, s) = Inr (p', s') \<and> sim R' p' s'"
proof -
  note e = simD(2) [OF R, of a]
  obtain f r where r: "R a = Some (f, r)" using st by (cases "R a") auto
  then obtain d where d: "s a = Some d" "fd d = f" using e by (auto simp: entry_sim_Some)
  have "may_update has p s a (new_events op (events d)) \<and> R' = R(a \<mapsto> (fd d, Registered (new_events op (events d))))"
  proof (cases r)
    case Fresh
    then have "index d = -1" "events d = 0" "new_events op 0 \<noteq> 0" "fd_free f R"
      "R' = R(a \<mapsto> (f, Registered (new_events op 0)))"
      using e r d st by (auto simp: entry_sim_Some split: if_splits)
    then show ?thesis using fd_free_owner [OF R] d by (auto simp: may_update_def)
  next
    case (Registered ev)
    then have "has p s a" "events d = ev" "R' = R(a \<mapsto> (f, Registered (new_events op ev)))"
      using e r d st by (auto simp: entry_sim_Some)
    then show ?thesis using d by (auto simp: may_update_def)
  qed (use st r in simp)
  then show ?thesis using sim_update [OF R d(1)] by blast
qed

lemma step_sim:
  assumes R: "sim R p s" and st: "registry_step c R = Some R'"
  shows "\<exists>p' s'. owner_exec updateChannel removeChannel has c (p, s) = Inr (p', s') \<and> sim R' p' s'"
proof (cases c)
  case (Create a f)
  then have n: "s a = None" "0 \<le> f" "R' = R(a \<mapsto> (f, Fresh))" using st simD(2) [OF R, of a] by (auto split: if_splits)
  then have "\<not> has p s a" using has_alive by blast
  then have "sim R' p (s(a \<mapsto> new_Channel f))" unfolding n(3) using n(2)
    by (intro sim_store [OF R]) (auto simp: entry_sim_Some new_Channel_def channel_ok_def wanted_ok_def)
  then show ?thesis using n Create by simp
next
  case (Apply op a)
  then show ?thesis using sim_apply [OF R] st by blast
next
  case (Remove a)
  then obtain f where "R a = Some (f, Registered 0)" "R' = R(a \<mapsto> (f, Unregistered))"
    using st by (auto split: option.splits reg_state.splits if_splits)
  then show ?thesis using sim_remove [OF R] Remove by blast
next
  case (Delete a)
  then obtain f r where r: "R a = Some (f, r)" "r = Fresh \<or> r = Unregistered" "R' = R(a := None)"
    using st by (auto split: option.splits reg_state.splits)
  then obtain d where d: "s a = Some d" "\<not> has p s a" using simD(2) [OF R, of a] by (auto simp: entry_sim_Some)
  have "sim R' p (s(a := None))" unfolding r(3) using d(2) by (intro sim_store [OF R]) simp_all
  then show ?thesis using delete_ok [OF simD(1) [OF R] d(2,1)] Delete by simp
qed

lemma run_sim:
  "sim R p s \<Longrightarrow> registry_run cs R = Some R' \<Longrightarrow>
   \<exists>p' s'. owner_run updateChannel removeChannel has cs (p, s) = Inr (p', s') \<and> sim R' p' s'"
proof (induction cs arbitrary: R p s)
  case (Cons c cs)
  obtain R1 where R1: "registry_step c R = Some R1" "registry_run cs R1 = Some R'"
    using Cons.prems(2) by (auto split: option.splits)
  obtain p1 s1 where 1: "owner_exec updateChannel removeChannel has c (p, s) = Inr (p1, s1)" "sim R1 p1 s1"
    using step_sim [OF Cons.prems(1) R1(1)] by blast
  show ?case using Cons.IH [OF 1(2) R1(2)] 1(1) by simp
qed simp

lemma sim_view: "sim R p s \<Longrightarrow> poller_view has p s = reg_view R"
proof
  fix a assume "sim R p s"
  then have e: "entry_sim (R a) (has p s a) (s a)" by (rule simD)
  show "poller_view has p s a = reg_view R a"
  proof (cases "R a")
    case None
    then show ?thesis using e by (simp add: poller_view_def reg_view_def)
  next
    case (Some fr)
    then show ?thesis using e by (cases fr; cases "snd fr") (auto simp: poller_view_def reg_view_def entry_sim_Some)
  qed
qed

lemma sim_interest:
  assumes "sim R p s"
  shows "interest p s a = reg_interest R a \<or> interest p s a = Some 0 \<and> reg_interest R a = None \<and> has p s a"
proof (cases "has p s a")
  case True
  note i = goodD(1) [OF simD(1) [OF assms]]
  obtain c where c: "s a = Some c" using has_alive [OF True] by auto
  have "\<exists>f. R a = Some (f, Registered (events c))"
    using simD(2) [OF assms, of a] True c by (cases "R a"; cases "snd (the (R a))") (auto simp: entry_sim_Some)
  then show ?thesis using watched [OF i True c] muted [OF i True c] True
    by (cases "events c = 0") (auto simp: reg_interest_def)
next
  case False
  have "reg_interest R a = None"
    using simD(2) [OF assms, of a] False
    by (cases "R a"; cases "snd (the (R a))") (auto simp: entry_sim_Some reg_interest_def)
  then show ?thesis using unwatched [OF goodD(1) [OF simD(1) [OF assms]] False] by simp
qed

lemma refines:
  assumes "registry_run cs Map.empty = Some R"
  shows "\<exists>p s. owner_run updateChannel removeChannel has cs (init, Map.empty) = Inr (p, s) \<and> inv p s \<and>
    poller_view has p s = reg_view R \<and>
    (\<forall>a. interest p s a = reg_interest R a \<or> interest p s a = Some 0 \<and> reg_interest R a = None \<and> has p s a)"
proof -
  obtain p s where 1: "owner_run updateChannel removeChannel has cs (init, Map.empty) = Inr (p, s)" "sim R p s"
    using run_sim [OF sim_init assms] by blast
  then show ?thesis using sim_view [OF 1(2)] sim_interest [OF 1(2)] goodD(1) [OF simD(1) [OF 1(2)]] by blast
qed

end

subsection \<open>The two pollers\<close>

lemma poll_interest_nonzero:
  assumes "poll_inv p s"
  shows "poll_interest p s a \<noteq> Some 0"
proof (cases "poll_hasChannel p s a")
  case True
  obtain own c where "owners p s own" "s a = Some c" using assms pp.has_alive [OF True] by (auto simp: poll_inv_def)
  then show ?thesis using poll_interest_slot [OF _ True] by simp
qed (use pp.unwatched [OF assms] in simp)

text \<open>C10: Both pollers refine the registry. Every sequence of calls that the contract allows succeeds on
  the epoll poller and on the poll poller, no \<open>epoll_ctl\<close> call is refused, both show the owners
  the registry that the specification gives, and both make the kernel watch each registered channel for
  exactly the events it wants (on epoll, a channel that wants none may be watched with an empty
  mask). So the choice of \<open>newDefaultPoller\<close> does not show.\<close>

theorem pollers_refine_registry:
  assumes "registry_run calls Map.empty = Some R"
  shows "\<exists>p q (s :: 'cb store) (t :: 'cb store).
    owner_run epoll_updateChannel epoll_removeChannel epoll_hasChannel calls (new_EPollPoller, Map.empty) = Inr (p, s) \<and>
    owner_run poll_updateChannel poll_removeChannel poll_hasChannel calls (new_PollPoller, Map.empty) = Inr (q, t) \<and>
    epoll_table (ctl_log p) \<noteq> None \<and>
    poller_view epoll_hasChannel p s = reg_view R \<and> poller_view poll_hasChannel q t = reg_view R \<and>
    (\<forall>a. epoll_interest p s a = reg_interest R a \<or> epoll_interest p s a = Some 0 \<and> reg_interest R a = None) \<and>
    poll_interest q t = reg_interest R"
proof -
  obtain p and s :: "'cb store" where e: "owner_run epoll_updateChannel epoll_removeChannel epoll_hasChannel calls (new_EPollPoller, Map.empty) = Inr (p, s)"
      "epoll_inv p s" "poller_view epoll_hasChannel p s = reg_view R"
      "\<forall>a. epoll_interest p s a = reg_interest R a \<or> epoll_interest p s a = Some 0 \<and> reg_interest R a = None"
    using ep.refines [OF assms] by blast
  obtain q and t :: "'cb store" where u: "owner_run poll_updateChannel poll_removeChannel poll_hasChannel calls (new_PollPoller, Map.empty) = Inr (q, t)"
      "poll_inv q t" "poller_view poll_hasChannel q t = reg_view R"
      "\<forall>a. poll_interest q t a = reg_interest R a \<or> poll_interest q t a = Some 0"
    using pp.refines [OF assms] by blast
  have "epoll_table (ctl_log p) \<noteq> None" using e(2) by (auto simp: epoll_inv_def)
  moreover have "poll_interest q t = reg_interest R" using u(4) poll_interest_nonzero [OF u(2)] by blast
  ultimately show ?thesis using e u by blast
qed

definition two_channels :: "owner_call list" where
  "two_channels = [Create 7 5, Apply EnableReading 7, Create 8 6, Apply EnableWriting 8, Apply DisableAll 7, Remove 7, Delete 7]"

theorem pollers_refine_registry_witness:
  "\<exists>p q s t. owner_run epoll_updateChannel epoll_removeChannel epoll_hasChannel two_channels (new_EPollPoller, Map.empty) = Inr (p, s :: nat store) \<and>
    owner_run poll_updateChannel poll_removeChannel poll_hasChannel two_channels (new_PollPoller, Map.empty) = Inr (q, t :: nat store) \<and>
    poll_interest q t 8 = Some kWriteEvent \<and> poll_interest q t 7 = None"
proof -
  let ?R = "[8 \<mapsto> (6, Registered kWriteEvent)] :: registry"
  have "registry_run two_channels Map.empty = Some (Map.empty(8 \<mapsto> (6, Registered kWriteEvent), 7 := None))"
    by (simp add: two_channels_def fd_free_def kReadEvent_def kWriteEvent_def kNoneEvent_def poll_bits fun_upd_twist)
  then have r: "registry_run two_channels Map.empty = Some ?R" by simp
  have k: "reg_interest ?R 8 = Some kWriteEvent" "reg_interest ?R 7 = None"
    by (simp_all add: reg_interest_def kWriteEvent_def poll_bits)
  show ?thesis using pollers_refine_registry [OF r, where 'cb = nat] k by metis
qed

text \<open>The contract does not allow a channel to be registered again after its removal, for the pollers
  differ there: the epoll poller resets the index of the channel, the poll poller does not and then
  takes it for a registered one.\<close>

definition register_twice :: "owner_call list" where
  "register_twice = [Create 7 5, Apply EnableReading 7, Apply DisableAll 7, Remove 7, Apply EnableReading 7]"

lemma registered_again:
  "\<exists>p s. owner_run epoll_updateChannel epoll_removeChannel epoll_hasChannel register_twice (new_EPollPoller, Map.empty) = Inr (p, s :: nat store)"
  "\<exists>e. owner_run poll_updateChannel poll_removeChannel poll_hasChannel register_twice (new_PollPoller, Map.empty :: nat store) = Inl e"
proof -
  have "case owner_run epoll_updateChannel epoll_removeChannel epoll_hasChannel register_twice (new_EPollPoller, Map.empty :: nat store)
    of Inr _ \<Rightarrow> True | Inl _ \<Rightarrow> False" by code_simp
  then show "\<exists>p s. owner_run epoll_updateChannel epoll_removeChannel epoll_hasChannel register_twice (new_EPollPoller, Map.empty) = Inr (p, s :: nat store)"
    by (auto split: sum.splits)
  have "case owner_run poll_updateChannel poll_removeChannel poll_hasChannel register_twice (new_PollPoller, Map.empty :: nat store)
    of Inr _ \<Rightarrow> False | Inl _ \<Rightarrow> True" by code_simp
  then show "\<exists>e. owner_run poll_updateChannel poll_removeChannel poll_hasChannel register_twice (new_PollPoller, Map.empty :: nat store) = Inl e"
    by (auto split: sum.splits)
qed

end
