(* ===== verification/ServerLoops.thy ===== *)
theory ServerLoops
  imports TcpServer
begin

section \<open>A server and its loops (src/src/TcpServer.cpp, src/src/EventLoopThreadPool.cpp)\<close>

text \<open>
  What a server hands to the loops of its pool, over a whole run: to which loop each connection goes,
  and in which order the functions of one connection are handed over. The runs are those of theory
  \<open>TcpServer\<close>, in every interleaving of accepted connections, connections that close and removals.
  A connection is established and destroyed in its own loop and removed from the map in the base loop;
  the queue of a loop keeps the order, so that the order in which functions are handed to it is the
  order in which it runs them.
\<close>

subsection \<open>Counting residues\<close>

lemma count_residue:
  assumes "j < k"
  shows "length (filter (\<lambda>i. i mod k = j) [0..<n]) = n div k + (if j < n mod k then 1 else 0)"
proof (induction n)
  case 0
  then show ?case by simp
next
  case (Suc n)
  have k: "0 < k" using assms by simp
  show ?case
  proof (cases "Suc (n mod k) = k")
    case True
    then have "Suc n mod k = 0" "Suc n div k = Suc (n div k)" by (simp_all add: mod_Suc div_Suc)
    then show ?thesis using Suc True assms by auto
  next
    case False
    then have "Suc n mod k = Suc (n mod k)" "Suc n div k = n div k" by (simp_all add: mod_Suc div_Suc)
    then show ?thesis using Suc assms by auto
  qed
qed

lemma count_nth_mod:
  assumes "distinct ms" "j < length ms"
  shows "length (filter (\<lambda>i. ms ! (i mod length ms) = ms ! j) [0..<n]) =
    n div length ms + (if j < n mod length ms then 1 else 0)"
proof -
  have "ms ! (i mod length ms) = ms ! j \<longleftrightarrow> i mod length ms = j" for i
    using assms by (metis mod_less_divisor nth_eq_iff_index_eq order.strict_trans1 zero_le)
  then show ?thesis using count_residue [OF assms(2), of n] by simp
qed

subsection \<open>The run of a server\<close>

fun task_conn :: "server_task \<Rightarrow> ConnPtr option" where
  "task_conn (ConnectEstablished p) = Some p"
| "task_conn (ConnectDestroyed p) = Some p"
| "task_conn (RemoveConnectionInLoop p) = Some p"
| "task_conn AcceptorListen = None"

text \<open>What was handed over for one connection, in order, with the loop it was handed to.\<close>

definition tasks_of :: "ConnPtr \<Rightarrow> TcpServer \<Rightarrow> (nat \<times> server_task) list" where
  "tasks_of p s = filter (\<lambda>lt. task_conn (snd lt) = Some p) (tasks s)"

text \<open>What should have been handed over: the connection is established, its removal is asked for when it
  closes, and it is destroyed when the removal has run.\<close>

definition due_tasks :: "nat \<Rightarrow> ConnPtr \<Rightarrow> server_world \<Rightarrow> (nat \<times> server_task) list" where
  "due_tasks base p w =
     (if p \<in> set (created w) then [(ptr_loop p, ConnectEstablished p)] else []) @
     (if p \<in> set (closing w) then [(base, RemoveConnectionInLoop p)] else []) @
     (if p \<in> set (closing w) - set (removals w) then [(ptr_loop p, ConnectDestroyed p)] else [])"

definition loops_inv :: "TcpServer \<Rightarrow> server_world \<Rightarrow> bool" where
  "loops_inv s0 w \<longleftrightarrow>
     server_loop (srv w) = server_loop s0 \<and> pool_ok (threadPool (srv w)) \<and>
     pool_members (threadPool (srv w)) = pool_members (threadPool s0) \<and>
     pool_position (threadPool (srv w)) = length (created w) mod length (pool_members (threadPool s0)) \<and>
     map ptr_loop (created w) =
       map (\<lambda>i. pool_members (threadPool s0) ! (i mod length (pool_members (threadPool s0)))) [0..<length (created w)] \<and>
     (\<forall>p \<in> set (created w). ptr p < allocated (srv w)) \<and>
     set (closing w) \<subseteq> set (created w) \<and> distinct (removals w) \<and> set (removals w) \<subseteq> set (closing w) \<and>
     (\<forall>p. tasks_of p (srv w) = due_tasks (server_loop s0) p w)"

lemma loops_invD:
  assumes "loops_inv s0 w"
  shows "server_loop (srv w) = server_loop s0" "pool_ok (threadPool (srv w))"
    "pool_members (threadPool (srv w)) = pool_members (threadPool s0)"
    "pool_position (threadPool (srv w)) = length (created w) mod length (pool_members (threadPool s0))"
    "map ptr_loop (created w) =
       map (\<lambda>i. pool_members (threadPool s0) ! (i mod length (pool_members (threadPool s0)))) [0..<length (created w)]"
    "p \<in> set (created w) \<Longrightarrow> ptr p < allocated (srv w)"
    "set (closing w) \<subseteq> set (created w)" "distinct (removals w)" "set (removals w) \<subseteq> set (closing w)"
    "tasks_of p (srv w) = due_tasks (server_loop s0) p w"
  using assms unfolding loops_inv_def by blast+

lemma tasks_of_hand_to [simp]:
  "tasks_of p (hand_to l t s) = tasks_of p s @ (if task_conn t = Some p then [(l, t)] else [])"
  by (simp add: tasks_of_def hand_to_def)

lemma tasks_of_cong: "tasks s = tasks s' \<Longrightarrow> tasks_of p s = tasks_of p s'"
  by (simp add: tasks_of_def)

lemma accept_loops:
  assumes inv: "loops_inv s0 w" and exec: "server_exec (Accepts sockfd) w = Some (Inr w')"
  shows "loops_inv s0 w'"
proof -
  note i = loops_invD [OF inv]
  let ?ms = "pool_members (threadPool s0)" and ?n = "length (created w)"
  obtain pool where pool: "getNextLoop (threadPool (srv w)) = Inr (?ms ! (?n mod length ?ms), pool)" "pool_ok pool"
      "pool_members pool = ?ms" "pool_position pool = (?n mod length ?ms + 1) mod length ?ms"
    using getNextLoop_ok [OF i(2)] i(3,4) by auto
  obtain q s1 where w': "w' = w\<lparr>srv := s1, created := created w @ [q]\<rparr>"
      "ptr q = allocated (srv w)" "ptr_loop q = ?ms ! (?n mod length ?ms)"
      "server_loop s1 = server_loop (srv w)" "threadPool s1 = pool" "allocated s1 = allocated (srv w) + 1"
      "\<forall>p. tasks_of p s1 = tasks_of p (srv w) @ (if p = q then [(ptr_loop q, ConnectEstablished q)] else [])"
    using exec pool(1) by (auto simp: newConnection_def Let_def hand_to_def tasks_of_def)
  have new: "q \<notin> set (created w)" using i(6) [of q] w'(2) by auto
  have "tasks_of p s1 = due_tasks (server_loop s0) p w'" for p
  proof (cases "p = q")
    case True
    then have "q \<notin> set (closing w)" "q \<notin> set (removals w)" using new i(7,9) by auto
    then show ?thesis using True new w'(1,7) i(10) [of q] by (simp add: due_tasks_def)
  next
    case False
    then show ?thesis using w'(1,7) i(10) [of p] by (simp add: due_tasks_def)
  qed
  moreover have "map ptr_loop (created w') = map (\<lambda>i. ?ms ! (i mod length ?ms)) [0..<length (created w')]"
    using w'(1,3) i(5) by simp
  moreover have "(?n mod length ?ms + 1) mod length ?ms = Suc ?n mod length ?ms" by (simp add: mod_Suc_eq)
  moreover have "\<forall>p \<in> set (created w'). ptr p < allocated s1" using i(6) w'(1,2,6) by fastforce
  ultimately show ?thesis using i w' pool by (auto simp: loops_inv_def)
qed

lemma close_loops:
  assumes inv: "loops_inv s0 w" and exec: "server_exec (Closes p) w = Some (Inr w')"
  shows "loops_inv s0 w'"
proof -
  note i = loops_invD [OF inv]
  have w': "w' = w\<lparr>srv := removeConnection p (srv w), closing := closing w @ [p], removals := removals w @ [p]\<rparr>"
    and p: "p \<in> set (created w)" "p \<notin> set (closing w)"
    using exec by (auto split: if_splits)
  have nr: "p \<notin> set (removals w)" using p(2) i(9) by blast
  have "tasks_of q (removeConnection p (srv w)) = due_tasks (server_loop s0) q w'" for q
    using i(1) i(10) [of q] p nr w' by (cases "q = p") (auto simp: due_tasks_def removeConnection_def)
  then show ?thesis using i p nr w' by (auto simp: loops_inv_def removeConnection_def hand_to_def)
qed

lemma remove_nth_distinct:
  assumes "distinct xs" "i < length xs"
  shows "distinct (take i xs @ drop (Suc i) xs) \<and> set (take i xs @ drop (Suc i) xs) = set xs - {xs ! i}"
proof -
  have d: "distinct (take i xs @ xs ! i # drop (Suc i) xs)" using assms by (metis id_take_nth_drop)
  have "set xs = set (take i xs @ xs ! i # drop (Suc i) xs)" using assms(2) by (metis id_take_nth_drop)
  then show ?thesis using d by auto
qed

lemma removal_loops:
  assumes inv: "loops_inv s0 w" and exec: "server_exec (RunsRemoval k) w = Some (Inr w')"
  shows "loops_inv s0 w'"
proof -
  note i = loops_invD [OF inv]
  define p where "p = removals w ! k"
  have k: "k < length (removals w)" using exec by (auto split: if_splits)
  obtain s1 where s1: "removeConnectionInLoop p (srv w) = Inr s1"
      and w': "w' = w\<lparr>srv := s1, removals := take k (removals w) @ drop (Suc k) (removals w)\<rparr>"
    using exec k by (auto simp: p_def rbind_def split: sum.splits)
  have h: "server_loop s1 = server_loop (srv w)" "threadPool s1 = threadPool (srv w)" "allocated s1 = allocated (srv w)"
      "\<forall>q. tasks_of q s1 = tasks_of q (srv w) @ (if q = p then [(ptr_loop p, ConnectDestroyed p)] else [])"
    using s1 by (auto simp: removeConnectionInLoop_def ensure_def hand_to_def tasks_of_def Let_def split: prod.splits if_splits)
  note r = remove_nth_distinct [OF i(8) k]
  have rem: "set (removals w') = set (removals w) - {p}" "distinct (removals w')" using r w' by (simp_all add: p_def)
  have "p \<in> set (removals w)" using k by (simp add: p_def)
  then have p: "p \<in> set (removals w)" "p \<in> set (closing w)" "p \<in> set (created w)" using i(7,9) by auto
  have c: "created w' = created w" "closing w' = closing w" using w' by simp_all
  have "tasks_of q s1 = due_tasks (server_loop s0) q w'" for q
    using h(4) i(10) [of q] p unfolding due_tasks_def rem(1) c by (cases "q = p") auto
  then show ?thesis using i h rem c p w' by (auto simp: loops_inv_def)
qed

lemma started_server_loops:
  assumes "started_server startLoop n loop ip_port name = Inr s0"
  shows "loops_inv s0 \<lparr>srv = s0, created = [], closing = [], removals = []\<rparr>"
    "server_loop s0 = loop" "pool_members (threadPool s0) =
      (if n \<le> 0 then [loop] else map (\<lambda>k. startLoop (thread_name name k)) [0..<nat n])"
proof -
  let ?p = "start_threads startLoop 0 (nat n)
    (pool_setThreadNum n (new_EventLoopThreadPool loop name)\<lparr>pool_started := True\<rparr>)"
  have s0: "threadPool s0 = ?p" "tasks s0 = [(loop, AcceptorListen)]" "server_loop s0 = loop"
    using assms
    by (auto simp: started_server_def server_setThreadNum_def server_start_def new_TcpServer_def getAndSet_def pool_start_def
        pool_setThreadNum_def new_EventLoopThreadPool_def hand_to_def Let_def ensure_def split: if_splits)
  have l: "loops ?p = map (\<lambda>k. startLoop (thread_name name k)) [0..<nat n]"
    unfolding loops_start_threads by (simp add: pool_setThreadNum_def new_EventLoopThreadPool_def)
  have f: "pool_started ?p" "pool_next ?p = 0" "baseLoop ?p = loop"
    by (simp_all add: start_threads_fields pool_setThreadNum_def new_EventLoopThreadPool_def)
  have "pool_ok ?p" "pool_position ?p = 0" using f by (simp_all add: pool_ok_def pool_position_def)
  then show "loops_inv s0 \<lparr>srv = s0, created = [], closing = [], removals = []\<rparr>"
    using s0 by (simp add: loops_inv_def due_tasks_def tasks_of_def)
  show "server_loop s0 = loop" by (rule s0(3))
  show "pool_members (threadPool s0) = (if n \<le> 0 then [loop] else map (\<lambda>k. startLoop (thread_name name k)) [0..<nat n])"
    unfolding s0(1) pool_members_def l f(3) by simp
qed

lemma server_reach_loops:
  "server_reach s0 w \<Longrightarrow> loops_inv s0 \<lparr>srv = s0, created = [], closing = [], removals = []\<rparr> \<Longrightarrow> loops_inv s0 w"
proof (induction rule: server_reach.induct)
  case (step w e w')
  then show ?case by (cases e) (auto simp del: server_exec.simps intro: accept_loops close_loops removal_loops)
qed

lemma started_loops:
  assumes "started_server startLoop n loop ip_port name = Inr s0" "server_reach s0 w"
  shows "loops_inv s0 w"
  using server_reach_loops [OF assms(2)] started_server_loops(1) [OF assms(1)] .

lemma created_on:
  assumes "loops_inv s0 w"
  shows "length (filter (\<lambda>p. ptr_loop p = l) (created w)) =
    length (filter (\<lambda>i. pool_members (threadPool s0) ! (i mod length (pool_members (threadPool s0))) = l)
      [0..<length (created w)])"
proof -
  have "length (filter (\<lambda>p. ptr_loop p = l) (created w)) = length (filter (\<lambda>x. x = l) (map ptr_loop (created w)))"
    by (simp add: filter_map comp_def)
  then show ?thesis unfolding loops_invD(5) [OF assms] by (simp add: filter_map comp_def)
qed

subsection \<open>Properties\<close>

text \<open>C11: Of a started server, in every interleaving of new connections, closing connections and removals: what has
  been handed to the loops for a connection is, in this order, that it is established, to the connection's own loop;
  once it has closed, its removal, to the base loop; and once the removal has run, that it is destroyed, again to its own
  loop. Nothing is handed over twice, early or to another loop, and nothing at all for a connection that
  was never made.\<close>

theorem server_handoff:
  assumes "started_server startLoop n loop ip_port name = Inr s0" "server_reach s0 w"
  shows "filter (\<lambda>lt. task_conn (snd lt) = Some p) (tasks (srv w)) =
    (if p \<notin> set (created w) then []
     else if p \<notin> set (closing w) then [(ptr_loop p, ConnectEstablished p)]
     else if p \<in> set (removals w) then [(ptr_loop p, ConnectEstablished p), (loop, RemoveConnectionInLoop p)]
     else [(ptr_loop p, ConnectEstablished p), (loop, RemoveConnectionInLoop p), (ptr_loop p, ConnectDestroyed p)])"
proof -
  note i = loops_invD [OF started_loops [OF assms]]
  have "tasks_of p (srv w) = due_tasks loop p w" using i(10) [of p] started_server_loops(2) [OF assms(1)] by simp
  then show ?thesis using i(7,9) by (auto simp: tasks_of_def due_tasks_def)
qed

text \<open>C12: A started server deals its connections out in turn: the connection made after \<open>i\<close> others goes to loop \<open>i\<close> modulo
  the number of threads, and to the base loop when there are none. So at any time, in every interleaving, with threads
  that have loops of their own, two of the loops have been given numbers of connections that differ by one at most.\<close>

theorem connections_balanced:
  assumes "started_server startLoop n loop ip_port name = Inr s0" "server_reach s0 w"
    and "members = (if n \<le> 0 then [loop] else map (\<lambda>k. startLoop (thread_name name k)) [0..<nat n])"
    and "i < length (created w)" "distinct members" "l \<in> set members" "m \<in> set members"
  shows "ptr_loop (created w ! i) = members ! (i mod length members) \<and>
    length (filter (\<lambda>p. ptr_loop p = l) (created w)) \<le> length (filter (\<lambda>p. ptr_loop p = m) (created w)) + 1"
proof
  note inv = started_loops [OF assms(1,2)]
  have ms: "pool_members (threadPool s0) = members" using started_server_loops(3) [OF assms(1)] assms(3) by simp
  have "map ptr_loop (created w) ! i = members ! (i mod length members)"
    using loops_invD(5) [OF inv] assms(4) unfolding ms by (simp del: nth_map) (simp add: nth_map)
  then show "ptr_loop (created w ! i) = members ! (i mod length members)" using assms(4) by simp
  obtain a b where "a < length members" "l = members ! a" "b < length members" "m = members ! b"
    using assms(6,7) by (metis in_set_conv_nth)
  then show "length (filter (\<lambda>p. ptr_loop p = l) (created w)) \<le> length (filter (\<lambda>p. ptr_loop p = m) (created w)) + 1"
    unfolding created_on [OF inv] ms by (simp add: count_nth_mod [OF assms(5)])
qed

theorem server_handoff_witness:
  "\<exists>s0 w p. started_server (\<lambda>t. 7) 1 0 ''1.2.3.4:80'' ''srv'' = Inr s0 \<and> server_reach s0 w \<and> ptr_loop p = 7 \<and>
     filter (\<lambda>lt. task_conn (snd lt) = Some p) (tasks (srv w)) =
       [(7, ConnectEstablished p), (0, RemoveConnectionInLoop p), (7, ConnectDestroyed p)]"
proof -
  obtain s0 where s0: "started_server (\<lambda>t. 7) 1 0 ''1.2.3.4:80'' ''srv'' = Inr s0"
    by (simp add: started_server_def server_setThreadNum_def server_start_def new_TcpServer_def getAndSet_def pool_start_def
        pool_setThreadNum_def new_EventLoopThreadPool_def hand_to_def Let_def)
  note inv0 = started_server_inv [OF s0]
  obtain w1 where w1: "server_exec (Accepts 5) \<lparr>srv = s0, created = [], closing = [], removals = []\<rparr> = Some (Inr w1)"
    using accept_inv [OF inv0(1)] inv0(2) by force
  have r1: "server_reach s0 w1" by (rule server_reach.step [OF server_reach.init w1])
  obtain p where p: "created w1 = [p]" "closing w1 = []" "removals w1 = []" using w1 by auto
  define w2 where "w2 = w1\<lparr>srv := removeConnection p (srv w1), closing := [p], removals := [p]\<rparr>"
  have w2: "server_exec (Closes p) w1 = Some (Inr w2)" using p by (simp add: w2_def)
  have r2: "server_reach s0 w2" by (rule server_reach.step [OF r1 w2])
  have inv2: "server_inv s0 w2" using server_reach_inv [OF r2 inv0(1)] inv0(2) p by (simp add: w2_def)
  have rm: "removals w2 ! 0 = p" "created w2 = [p]" "closing w2 = [p]" "removals w2 = [p]" using p by (simp_all add: w2_def)
  obtain r where r: "server_exec (RunsRemoval 0) w2 = Some r" using rm by simp
  then have "\<exists>w3. r = Inr w3 \<and> server_inv s0 w3" using server_exec_inv [OF inv2 _ _ r] inv0(2) rm(2) by simp
  then obtain w3 where w3: "server_exec (RunsRemoval 0) w2 = Some (Inr w3)" using r by blast
  have r3: "server_reach s0 w3" by (rule server_reach.step [OF r2 w3])
  have c: "created w3 = [p]" "closing w3 = [p]" "removals w3 = []" using w3 rm by (auto simp: rbind_def split: sum.splits)
  have "map ptr_loop (created w3) = [7]"
    using loops_invD(5) [OF started_loops [OF s0 r3]] started_server_loops(3) [OF s0] c by simp
  then have l: "ptr_loop p = 7" using c by simp
  show ?thesis
    using server_handoff [OF s0 r3, of p] l c s0 r3 by (intro exI [of _ s0] exI [of _ w3] exI [of _ p]) simp
qed

theorem connections_balanced_witness:
  "\<exists>s0 w. started_server (\<lambda>t. if t = thread_name ''srv'' 0 then 7 else 8) 2 0 ''1.2.3.4:80'' ''srv'' = Inr s0 \<and>
     server_reach s0 w \<and> length (created w) = 1 \<and> ptr_loop (created w ! 0) = 7 \<and>
     length (filter (\<lambda>p. ptr_loop p = 7) (created w)) \<le> length (filter (\<lambda>p. ptr_loop p = 8) (created w)) + 1"
proof -
  let ?f = "\<lambda>t. if t = thread_name ''srv'' 0 then 7 else 8 :: nat"
  obtain s0 where s0: "started_server ?f 2 0 ''1.2.3.4:80'' ''srv'' = Inr s0"
    by (simp add: started_server_def server_setThreadNum_def server_start_def new_TcpServer_def getAndSet_def pool_start_def
        pool_setThreadNum_def new_EventLoopThreadPool_def hand_to_def Let_def)
  obtain w where w: "server_exec (Accepts 5) \<lparr>srv = s0, created = [], closing = [], removals = []\<rparr> = Some (Inr w)"
    using accept_inv [OF started_server_inv(1) [OF s0]] started_server_inv(2) [OF s0] by force
  have r: "server_reach s0 w" by (rule server_reach.step [OF server_reach.init w])
  have c: "length (created w) = 1" using w by auto
  have "thread_name ''srv'' 1 \<noteq> thread_name ''srv'' 0" by code_simp
  then have m: "[7, 8] = (if (2::int) \<le> 0 then [0] else map (\<lambda>k. ?f (thread_name ''srv'' k)) [0..<nat 2])"
    by (simp add: numeral_2_eq_2 upt_rec)
  show ?thesis
    using connections_balanced [OF s0 r m, of 0 7 8] c s0 r by (intro exI [of _ s0] exI [of _ w]) simp
qed

end
