(* ===== verification/Spec2Isabelle.thy ===== *)
theory Spec2Isabelle
  imports Buffer StringPiece TimerQueue EPollPoller PollPoller EventLoop TcpServer TcpClient HttpSession TimeZone Threading FileUtil Reactor ProcessInfo LoopTimers Registry ServerLoops
begin

text \<open>
  \<^bold>\<open>A verification of the EventLoop network library\<close>

  The program (under src/src) is a reactor library in C++: an \<open>EventLoop\<close> per thread waits with a
  \<open>Poller\<close> for events on \<open>Channel\<close>s and runs their callbacks, then the timers of its
  \<open>TimerQueue\<close> that are due, then the functors that other threads queued. On top of it stand the
  \<open>Acceptor\<close> and the \<open>Connector\<close>, which produce connected sockets, the \<open>TcpServer\<close> and the
  \<open>TcpClient\<close>, which own \<open>TcpConnection\<close>s with an input and an output \<open>Buffer\<close>, and an
  \<open>HttpServer\<close> whose \<open>HttpContext\<close> parses requests out of the input buffer. A server spreads its
  connections over the loops of an \<open>EventLoopThreadPool\<close>.

  \<^bold>\<open>Conventions.\<close> A class is a record whose fields are the data members, an operation is a function
  from the old object to the new one, and what an object asks of the system or hands to another
  object is recorded in a list or answered through an argument. Assertions are on (no build file
  turns them off), so an operation that asserts returns an \<open>'a res\<close> and a failed assertion is a
  value \<open>Inl\<close>. Objects that are shared through pointers (timers, channels) live in an explicit
  store. Loops are structural recursion or recursion on a measure; the loops that may not return are
  partial functions into \<open>option\<close> (the HTTP parser) or take the sequence of inputs of their
  rounds (\<open>EventLoop::loop\<close>), and the theorems say when they return.

  \<^bold>\<open>The theories.\<close>

  \<^item> \<open>Prelude\<close>: results, the algorithms of the standard library, the bytes of an integer. \<open>Format\<close>:
    the conversions of \<open>snprintf\<close>. \<open>OrdSet\<close>, \<open>OrdMap\<close>: \<open>std::set\<close> and \<open>std::map\<close> as
    sorted lists with their laws.
  \<^item> \<open>Endian\<close>, \<open>Buffer\<close> (Endian.h, Buffer.h, Buffer.cpp): the buffer under any sequence of operations
    is a queue of bytes; its indices stay in bounds; \<open>readFd\<close> appends what the kernel delivered;
    integers survive the round trip through network byte order.
  \<^item> \<open>StringPiece\<close> (StringPiece.h): the comparisons are the lexicographic order.
  \<^item> \<open>Timestamp\<close>, \<open>TimerQueue\<close> (Timestamp, Timer, TimerId, TimerQueue): the two sets of the queue
    agree in every reachable state, no timer leaks, exactly the timers that are due expire, and the
    periodic ones are queued again unless they were cancelled; an earlier timer does not re-arm the
    kernel timer.
  \<^item> \<open>Channel\<close>, \<open>Poller\<close>, \<open>EPollPoller\<close>, \<open>PollPoller\<close>: the dispatch of events; the locale
    \<open>poller\<close> is the contract of the abstract class, interpreted for both pollers; in every
    sequence of calls the contract allows, exactly the wanted events are watched.
  \<^item> \<open>Registry\<close> (Channel.cpp, EPollPoller.cpp, PollPoller.cpp): the abstract specification of a poller,
    a map from channels to what they want, and the simulation, proved once in the locale \<open>poller\<close>,
    by which both pollers refine it; where they differ outside the contract.
  \<^item> \<open>EventLoop\<close> (EventLoop.h, EventLoop.cpp): a loop that is about to block with work queued is woken,
    functors run once and in order, in every interleaving with other threads; \<open>loop()\<close> returns
    exactly after the first round that leaves \<open>quit_\<close> set.
  \<^item> \<open>Monitor\<close>, \<open>Threading\<close> (MutexLock, Condition, CountDownLatch, Thread, EventLoopThread, Atomic,
    CurrentThread): every use of a condition variable is an interpretation of the locale
    \<open>monitor\<close>, which gives mutual exclusion and excludes lost wakeups; where a ready state stays
    ready (\<open>stable_monitor\<close>) every wait can return.
  \<^item> \<open>Sockets\<close>, \<open>Acceptor\<close>, \<open>Connector\<close> (SocketsOps, InetAddress, Socket, Acceptor, Connector): the
    address conversions; the accept path with its errors; the retries of a client.
  \<^item> \<open>TcpConnection\<close>, \<open>TcpServer\<close>, \<open>TcpClient\<close>, \<open>EventLoopThreadPool\<close>: the life cycle of a
    connection, the stream it sends, the map of a server in every interleaving with the I/O loops,
    the round robin of the pool (interpretation \<open>rr\<close> of the locale \<open>balancer\<close>).
  \<^item> \<open>ServerLoops\<close> (TcpServer.cpp, EventLoopThreadPool.cpp): the composition of a server with its pool:
    what is handed to which loop for a connection, in which order, and how evenly the connections
    are dealt out, in every interleaving.
  \<^item> \<open>Http\<close>, \<open>HttpServer\<close> (HttpRequest.h, HttpContext, HttpResponse, HttpServer): the incremental
    parser gives the same result for every segmentation, reads back a printed request, and returns
    exactly in the states whose branches have an exit; the server answers each request.
  \<^item> \<open>Date\<close>, \<open>TimeZone\<close>: the calendar and Julian day numbers are inverse; the zone file reader reads
    back what was written and makes a well-typed table of any bytes; the binary search finds the rule
    in force.
  \<^item> \<open>Reactor\<close> (EventLoop.cpp, DefaultPoller.cpp): the composition of the poller, the dispatch of the
    channels and the loop: a round runs exactly the callbacks that the reported events call for; the
    channels that a loop registers at its construction and removes at its destruction.
  \<^item> \<open>LoopTimers\<close> (TimerQueue.cpp, EventLoop.cpp): the composition of the timer queue with the queue of
    functors, under every interleaving with other threads that add and cancel timers.
  \<^item> \<open>HttpSession\<close> (TcpConnection.cpp, HttpServer.cpp): the composition of a connection, its input
    buffer, the parser and the response: a keep-alive session is answered in order under every
    segmentation.
  \<^item> \<open>FileUtil\<close>, \<open>ProcessInfo\<close>: appending to a log and reading a small file; the scans of /proc and the
    fields of its files.

  \<^bold>\<open>Bounds.\<close> Integers that the program may overflow are words or are cut to their width where it
  matters (ports, lengths of views, file offsets, the limits of \<open>int\<close>); sizes of buffers are the
  constants of the code. No definition takes fuel: the loops of the reactor run over the list of the
  events they are given, and the statements are for all such lists.

  \<^bold>\<open>Not modelled.\<close> \<open>Types\<close> and \<open>Callbacks\<close> are casts and type aliases; accessors that return one data member
  are the fields of the records; setters of callbacks are arguments of the operations that run
  them; the programs under src/tests are examples. What the kernel and the C library do is an
  argument wherever the code asks them.
\<close>

end
